(* ===== verification/Prelude.thy ===== *)
theory Prelude
  imports Main "HOL-Library.Word" "HOL-Library.Sublist"
begin

unbundle bit_operations_syntax

text \<open>
  Shared vocabulary of the development: machine integers, Rust results and panics, the
  standard-library operations on vectors that the drivers use (binary search by key,
  insertion and removal at an index), big-endian encoding and byte streams.

  The collections \<open>result_simps\<close>, \<open>vec_simps\<close> and \<open>be_simps\<close> hold the facts that the
  component theories hand to the simplifier.
\<close>

named_theorems result_simps \<open>propagation of errors with the question-mark operator\<close>
named_theorems vec_simps \<open>indexing a vector at the position a search returned\<close>
named_theorems be_simps \<open>big-endian encoding and decoding\<close>

section \<open>Machine integers and time\<close>

type_synonym u8 = "8 word"
type_synonym u16 = "16 word"
type_synonym u32 = "32 word"
type_synonym u64 = "64 word"
type_synonym bytes = "u8 list"

text \<open>An \<open>Instant\<close> is a point on a monotonic clock, counted in microseconds.\<close>

type_synonym instant = nat

text \<open>Rust's \<open>div_ceil\<close> on unsigned integers.\<close>

definition div_ceil :: "nat \<Rightarrow> nat \<Rightarrow> nat" where
  "div_ceil a b = (if a mod b = 0 then a div b else Suc (a div b))"

lemma div_ceil_mult_ge: "0 < b \<Longrightarrow> a \<le> div_ceil a b * b"
proof -
  assume b: "0 < b"
  have e: "a = a div b * b + a mod b" by simp
  show ?thesis
  proof (cases "a mod b = 0")
    case True
    with e show ?thesis by (simp add: div_ceil_def)
  next
    case False
    have "a mod b < b" using b by simp
    with e have "a \<le> b + a div b * b" by linarith
    with False show ?thesis by (simp add: div_ceil_def)
  qed
qed

lemma div_ceil_le: "0 < b \<Longrightarrow> a \<le> k * b \<Longrightarrow> div_ceil a b \<le> k"
proof -
  assume b: "0 < b" and a: "a \<le> k * b"
  have d: "a div b \<le> k" using div_le_mono [OF a, of b] b by simp
  show ?thesis
  proof (cases "a mod b = 0")
    case True
    with d show ?thesis by (simp add: div_ceil_def)
  next
    case False
    have "a div b \<noteq> k"
    proof
      assume "a div b = k"
      moreover have "a = a div b * b + a mod b" by simp
      ultimately have "a = k * b + a mod b" by simp
      with a False show False by linarith
    qed
    with d False show ?thesis by (simp add: div_ceil_def)
  qed
qed

lemma div_ceil_pos: "0 < a \<Longrightarrow> 0 < b \<Longrightarrow> 0 < div_ceil a b"
  using div_ceil_mult_ge [of b a] by (cases "div_ceil a b") auto

text \<open>
  Unrolled sequence numbers and counters are \<open>u64\<close> words. The two facts about the
  successor that the ordering arguments need:
\<close>

lemma word_lt_plus1:
  assumes "(k::'a::len word) \<noteq> - 1"
  shows "k < k + 1"
proof -
  have "1 + k \<noteq> 0" using assms by (metis add.commute add_eq_0_iff)
  then have "unat (1 + k) = Suc (unat k)" by (rule unatSuc)
  then show ?thesis by (simp add: word_less_nat_alt add.commute)
qed

lemma word_plus1_le: "(a::'a::len word) < b \<Longrightarrow> a + 1 \<le> b"
  by (rule inc_le)

section \<open>Results and panics\<close>

text \<open>
  \<open>io::ErrorKind\<close> as far as the code inspects or produces it. An \<open>io::Error\<close> is a kind with
  the message that \<open>Display\<close> prints.
\<close>

datatype io_kind = UnexpectedEof | InvalidInput | InvalidData | ConnectionAborted
  | AddrInUse | OtherKind

text \<open>
  What a fallible operation may end with instead of a value: a \<open>ProtocolError\<close> (or one of
  the crate's other string-carrying errors), an \<open>io::Error\<close>, or a panic (a failed assertion,
  \<open>unwrap\<close>, \<open>expect\<close> or index out of range).
\<close>

datatype fault = ProtocolError string | IoError io_kind string | Panic string

type_synonym 'a result = "fault + 'a"

fun panics :: "fault \<Rightarrow> bool" where
  "panics (Panic m) = True"
| "panics e = False"

fun is_panic :: "'a result \<Rightarrow> bool" where
  "is_panic (Inl e) = panics e"
| "is_panic (Inr x) = False"

text \<open>Rust's \<open>?\<close> operator.\<close>

definition and_then :: "'e + 'a \<Rightarrow> ('a \<Rightarrow> 'e + 'b) \<Rightarrow> 'e + 'b" where
  "and_then r f = (case r of Inl e \<Rightarrow> Inl e | Inr x \<Rightarrow> f x)"

lemma and_then_Inl [simp, result_simps]: "and_then (Inl e) f = Inl e"
  by (simp add: and_then_def)

lemma and_then_Inr [simp, result_simps]: "and_then (Inr x) f = f x"
  by (simp add: and_then_def)

lemma and_then_eq_Inr [result_simps]:
  "and_then r f = Inr y \<longleftrightarrow> (\<exists>x. r = Inr x \<and> f x = Inr y)"
  by (cases r) auto

lemma and_then_cong [fundef_cong]:
  "r = r' \<Longrightarrow> (\<And>x. r' = Inr x \<Longrightarrow> f x = g x) \<Longrightarrow> and_then r f = and_then r' g"
  by (cases r') auto

lemma and_then_split:
  "P (and_then r f) \<longleftrightarrow> (\<forall>e. r = Inl e \<longrightarrow> P (Inl e)) \<and> (\<forall>x. r = Inr x \<longrightarrow> P (f x))"
  by (cases r) auto

lemma is_panic_and_then:
  "is_panic (and_then r f) \<longleftrightarrow> is_panic r \<or> (\<exists>x. r = Inr x \<and> is_panic (f x))"
  by (cases r) auto

text \<open>
  \<open>map_err(ProtocolError::new)\<close> keeps only the message of an error; a panic is not an error
  and passes through.
\<close>

fun protocol_error_new :: "fault \<Rightarrow> fault" where
  "protocol_error_new (ProtocolError m) = ProtocolError m"
| "protocol_error_new (IoError k m) = ProtocolError m"
| "protocol_error_new (Panic m) = Panic m"

definition map_err :: "('e \<Rightarrow> 'f) \<Rightarrow> 'e + 'a \<Rightarrow> 'f + 'a" where
  "map_err f r = (case r of Inl e \<Rightarrow> Inl (f e) | Inr x \<Rightarrow> Inr x)"

lemma map_err_simps [simp, result_simps]:
  "map_err f (Inl e) = Inl (f e)" "map_err f (Inr x) = Inr x"
  "map_err f r = Inr y \<longleftrightarrow> r = Inr y"
  by (auto simp: map_err_def split: sum.splits)

lemma is_panic_map_err [simp]: "is_panic (map_err protocol_error_new r) = is_panic r"
  by (cases r; cases "projl r") auto

text \<open>\<open>assert!\<close>: a failed assertion panics.\<close>

definition assert_that :: "bool \<Rightarrow> string \<Rightarrow> unit result" where
  "assert_that b m = (if b then Inr () else Inl (Panic m))"

lemma assert_that_simps [simp, result_simps]:
  "assert_that True m = Inr ()" "assert_that False m = Inl (Panic m)"
  "assert_that b m = Inr u \<longleftrightarrow> b" "is_panic (assert_that b m) \<longleftrightarrow> \<not> b"
  by (auto simp: assert_that_def)

text \<open>Decimal digits, for the messages that report counts.\<close>

fun string_of_nat :: "nat \<Rightarrow> string" where
  "string_of_nat n =
     (if n < 10 then [char_of (48 + n)] else string_of_nat (n div 10) @ [char_of (48 + n mod 10)])"

declare string_of_nat.simps [simp del]

section \<open>Vectors ordered by a key\<close>

definition sorted_key :: "('a \<Rightarrow> 'k::linorder) \<Rightarrow> 'a list \<Rightarrow> bool" where
  "sorted_key f xs = sorted_wrt (<) (map f xs)"

text \<open>\<open>Vec::insert\<close> and \<open>Vec::remove\<close> at an index in range.\<close>

definition insert_at :: "nat \<Rightarrow> 'a \<Rightarrow> 'a list \<Rightarrow> 'a list" where
  "insert_at i x xs = take i xs @ x # drop i xs"

definition remove_at :: "nat \<Rightarrow> 'a list \<Rightarrow> 'a list" where
  "remove_at i xs = take i xs @ drop (Suc i) xs"

text \<open>
  \<open>binary_search_by_key\<close> of the standard library: \<open>Inr i\<close> (Rust's \<open>Ok\<close>) is the position of
  an element with the key, \<open>Inl i\<close> (\<open>Err\<close>) the position where one could be inserted.
\<close>

function bs_loop :: "('a \<Rightarrow> 'k::linorder) \<Rightarrow> 'k \<Rightarrow> 'a list \<Rightarrow> nat \<Rightarrow> nat \<Rightarrow> nat + nat" where
  "bs_loop f k xs lo hi =
     (if lo < hi then
        let mid = lo + (hi - lo) div 2 in
        if f (xs ! mid) = k then Inr mid
        else if f (xs ! mid) < k then bs_loop f k xs (Suc mid) hi
        else bs_loop f k xs lo mid
      else Inl lo)"
  by pat_completeness auto
termination
  by (relation "measure (\<lambda>(f, k, xs, lo, hi). hi - lo)") (auto simp: Let_def)

declare bs_loop.simps [simp del]

definition binary_search_by_key :: "('a \<Rightarrow> 'k::linorder) \<Rightarrow> 'k \<Rightarrow> 'a list \<Rightarrow> nat + nat" where
  "binary_search_by_key f k xs = bs_loop f k xs 0 (length xs)"

lemma sorted_key_Nil [simp]: "sorted_key f []"
  by (simp add: sorted_key_def)

lemma sorted_key_Cons [simp]:
  "sorted_key f (x # xs) \<longleftrightarrow> (\<forall>y \<in> set xs. f x < f y) \<and> sorted_key f xs"
  by (simp add: sorted_key_def)

lemma sorted_key_append:
  "sorted_key f (xs @ ys) \<longleftrightarrow>
     sorted_key f xs \<and> sorted_key f ys \<and> (\<forall>x \<in> set xs. \<forall>y \<in> set ys. f x < f y)"
  by (simp add: sorted_key_def sorted_wrt_append)

lemma sorted_key_nth_less:
  "sorted_key f xs \<Longrightarrow> i < j \<Longrightarrow> j < length xs \<Longrightarrow> f (xs ! i) < f (xs ! j)"
  by (auto simp: sorted_key_def sorted_wrt_iff_nth_less)

lemma sorted_key_tl: "sorted_key f xs \<Longrightarrow> sorted_key f (tl xs)"
  by (cases xs) auto

lemma sorted_key_drop: "sorted_key f xs \<Longrightarrow> sorted_key f (drop n xs)"
  by (simp add: sorted_key_def sorted_wrt_drop drop_map [symmetric])

lemma sorted_key_map:
  "(\<And>x. x \<in> set xs \<Longrightarrow> g (h x) = f x) \<Longrightarrow> sorted_key g (map h xs) = sorted_key f xs"
  by (induction xs) auto

lemma bs_loop_spec:
  assumes "sorted_key f xs" "hi \<le> length xs" "lo \<le> hi"
    and "\<forall>i < lo. f (xs ! i) < k" "\<forall>i. hi \<le> i \<and> i < length xs \<longrightarrow> k < f (xs ! i)"
  shows "case bs_loop f k xs lo hi of
           Inr i \<Rightarrow> i < length xs \<and> f (xs ! i) = k
         | Inl i \<Rightarrow> i \<le> length xs \<and> (\<forall>j < i. f (xs ! j) < k)
                    \<and> (\<forall>j. i \<le> j \<and> j < length xs \<longrightarrow> k < f (xs ! j))"
  using assms
proof (induction f k xs lo hi rule: bs_loop.induct)
  case (1 f k xs lo hi)
  show ?case
  proof (cases "lo < hi")
    case False
    then have "bs_loop f k xs lo hi = Inl lo" by (subst bs_loop.simps) simp
    with False "1.prems" show ?thesis by auto
  next
    case True
    define mid where "mid = lo + (hi - lo) div 2"
    have mid: "lo \<le> mid" "mid < hi" using True by (auto simp: mid_def)
    have lm: "mid < length xs" using mid 1 by simp
    consider (eq) "f (xs ! mid) = k" | (lt) "f (xs ! mid) < k" | (gt) "k < f (xs ! mid)"
      by fastforce
    then show ?thesis
    proof cases
      case eq
      with True have "bs_loop f k xs lo hi = Inr mid"
        by (subst bs_loop.simps) (simp add: Let_def mid_def [symmetric])
      with eq lm show ?thesis by simp
    next
      case lt
      have below: "\<forall>i < Suc mid. f (xs ! i) < k"
      proof (intro allI impI)
        fix i assume "i < Suc mid"
        then consider "i = mid" | "i < mid" by linarith
        then show "f (xs ! i) < k"
        proof cases
          case 2
          from sorted_key_nth_less [OF "1.prems"(1) 2 lm] lt show ?thesis by simp
        qed (use lt in simp)
      qed
      have "bs_loop f k xs lo hi = bs_loop f k xs (Suc mid) hi"
        using True lt by (subst bs_loop.simps) (auto simp: Let_def mid_def [symmetric])
      with "1.IH"(1) [OF True mid_def less_imp_neq [OF lt] lt] "1.prems" mid below
      show ?thesis by simp
    next
      case gt
      have above: "\<forall>i. mid \<le> i \<and> i < length xs \<longrightarrow> k < f (xs ! i)"
      proof (intro allI impI)
        fix i assume i: "mid \<le> i \<and> i < length xs"
        then consider "i = mid" | "mid < i" by linarith
        then show "k < f (xs ! i)"
        proof cases
          case 2
          from sorted_key_nth_less [OF "1.prems"(1) 2] i gt show ?thesis by (metis order_less_trans)
        qed (use gt in simp)
      qed
      have "bs_loop f k xs lo hi = bs_loop f k xs lo mid"
        using True gt by (subst bs_loop.simps) (auto simp: Let_def mid_def [symmetric])
      with "1.IH"(2) [OF True mid_def less_imp_neq [OF gt, symmetric] less_not_sym [OF gt]] "1.prems" gt mid lm above
      show ?thesis by simp
    qed
  qed
qed

lemma binary_search_spec:
  assumes "sorted_key f xs"
  shows "case binary_search_by_key f k xs of
           Inr i \<Rightarrow> i < length xs \<and> f (xs ! i) = k
         | Inl i \<Rightarrow> i \<le> length xs \<and> (\<forall>j < i. f (xs ! j) < k)
                    \<and> (\<forall>j. i \<le> j \<and> j < length xs \<longrightarrow> k < f (xs ! j))"
  unfolding binary_search_by_key_def using assms by (intro bs_loop_spec) auto

text \<open>
  On a vector ordered by the key the search splits it at the key. These two elimination
  rules are how every component reads the result of a search.
\<close>

lemma binary_search_Ok:
  assumes "sorted_key f xs" "binary_search_by_key f k xs = Inr i"
  obtains ys x zs where "xs = ys @ x # zs" "i = length ys" "f x = k"
    "\<forall>y \<in> set ys. f y < k" "\<forall>z \<in> set zs. k < f z"
proof -
  have i: "i < length xs" "f (xs ! i) = k"
    using binary_search_spec [OF assms(1), of k] assms(2) by simp_all
  have split: "xs = take i xs @ xs ! i # drop (Suc i) xs"
    using i by (simp add: id_take_nth_drop [symmetric])
  have "sorted_key f (take i xs @ xs ! i # drop (Suc i) xs)"
    using assms(1) split by simp
  with i that [OF split] show thesis
    by (auto simp: sorted_key_append)
qed

lemma binary_search_Err:
  assumes "sorted_key f xs" "binary_search_by_key f k xs = Inl i"
  obtains ys zs where "xs = ys @ zs" "i = length ys"
    "\<forall>y \<in> set ys. f y < k" "\<forall>z \<in> set zs. k < f z"
proof -
  have i: "i \<le> length xs" "\<forall>j < i. f (xs ! j) < k"
    "\<forall>j. i \<le> j \<and> j < length xs \<longrightarrow> k < f (xs ! j)"
    using binary_search_spec [OF assms(1), of k] assms(2) by simp_all
  have "\<forall>y \<in> set (take i xs). f y < k"
    using i by (auto simp: in_set_conv_nth)
  moreover have "\<forall>z \<in> set (drop i xs). k < f z"
    using i by (auto simp: in_set_conv_nth)
  moreover have "i = length (take i xs)"
    using i by simp
  ultimately show thesis
    using that [of "take i xs" "drop i xs"] by simp
qed

lemma binary_search_found_iff:
  assumes "sorted_key f xs"
  shows "(\<exists>i. binary_search_by_key f k xs = Inr i) \<longleftrightarrow> k \<in> f ` set xs"
proof (cases "binary_search_by_key f k xs")
  case (Inl i)
  obtain ys zs where "xs = ys @ zs" "i = length ys"
    "\<forall>y \<in> set ys. f y < k" "\<forall>z \<in> set zs. k < f z"
    by (rule binary_search_Err [OF assms Inl])
  then have "k \<notin> f ` set xs" by auto
  with Inl show ?thesis by simp
next
  case (Inr i)
  obtain ys x zs where "xs = ys @ x # zs" "i = length ys" "f x = k"
    "\<forall>y \<in> set ys. f y < k" "\<forall>z \<in> set zs. k < f z"
    by (rule binary_search_Ok [OF assms Inr])
  with Inr show ?thesis by auto
qed

lemma binary_search_small:
  "binary_search_by_key f k [] = Inl 0"
  "binary_search_by_key f k [x] = (if f x = k then Inr 0 else if f x < k then Inl 1 else Inl 0)"
  by (simp_all add: binary_search_by_key_def bs_loop.simps)

lemma nth_mid [vec_simps]: "(ys @ x # zs) ! length ys = x"
  by simp

lemma update_mid [vec_simps]: "(ys @ x # zs)[length ys := y] = ys @ y # zs"
  by simp

lemma insert_at_mid [vec_simps]: "insert_at (length ys) x (ys @ zs) = ys @ x # zs"
  by (simp add: insert_at_def)

lemma remove_at_mid [vec_simps]: "remove_at (length ys) (ys @ x # zs) = ys @ zs"
  by (simp add: remove_at_def)

lemma take_drop_mid [vec_simps]:
  "take (length ys) (ys @ zs) = ys" "drop (length ys) (ys @ zs) = zs"
  by simp_all

lemma remove_at_0 [vec_simps]: "remove_at 0 xs = tl xs"
  by (simp add: remove_at_def drop_Suc)

text \<open>Elements picked in ascending order of position.\<close>

lemma subseq_nth:
  "sorted_wrt (<) ns \<Longrightarrow> \<forall>n \<in> set ns. n < length xs \<Longrightarrow> subseq (map ((!) xs) ns) xs"
proof (induction xs arbitrary: ns)
  case (Cons x xs)
  have shift: "map ((!) (x # xs)) js = map ((!) xs) (map (\<lambda>n. n - 1) js)" "sorted_wrt (<) (map (\<lambda>n. n - 1) js)"
    "\<forall>n \<in> set (map (\<lambda>n. n - 1) js). n < length xs"
    if "\<forall>n \<in> set js. 0 < n \<and> n < Suc (length xs)" "sorted_wrt (<) js" for js
  proof -
    show "map ((!) (x # xs)) js = map ((!) xs) (map (\<lambda>n. n - 1) js)" using that(1) by (auto simp: nth_Cons')
    show "sorted_wrt (<) (map (\<lambda>n. n - 1) js)" unfolding sorted_wrt_map
      by (rule sorted_wrt_mono_rel [OF _ that(2)]) (use that(1) in auto)
    show "\<forall>n \<in> set (map (\<lambda>n. n - 1) js). n < length xs" using that(1) by auto
  qed
  show ?case
  proof (cases "\<exists>js. ns = 0 # js")
    case True
    then obtain js where js: "ns = 0 # js" by blast
    have p: "\<forall>n \<in> set js. 0 < n \<and> n < Suc (length xs)" "sorted_wrt (<) js" using Cons.prems js by auto
    have "subseq (map ((!) (x # xs)) js) xs"
      unfolding shift(1) [OF p] by (rule Cons.IH [OF shift(2,3) [OF p]])
    with js show ?thesis by simp
  next
    case False
    then have p: "\<forall>n \<in> set ns. 0 < n \<and> n < Suc (length xs)" "sorted_wrt (<) ns"
      using Cons.prems by (cases ns; auto)+
    have "subseq (map ((!) (x # xs)) ns) xs"
      unfolding shift(1) [OF p] by (rule Cons.IH [OF shift(2,3) [OF p]])
    then show ?thesis by auto
  qed
qed simp

lemma subseq_concat_map: "subseq xs ys \<Longrightarrow> subseq (concat (map h xs)) (concat (map h ys))"
proof (induction rule: list_emb.induct)
  case (list_emb_Cons xs ys y)
  then show ?case by (metis concat.simps(2) list.simps(9) list_emb_append2)
next
  case (list_emb_Cons2 x y xs ys)
  then show ?case by (auto intro: list_emb_append_mono)
qed simp

section \<open>Big-endian encoding\<close>

text \<open>
  The \<open>n\<close> bytes of a number, most significant first: \<open>to_be_bytes\<close>, \<open>put_u16\<close> to
  \<open>put_u64\<close> and \<open>BigEndian::write_u16\<close> to \<open>write_u64\<close> all produce this.
\<close>

fun be_nat :: "nat \<Rightarrow> nat \<Rightarrow> bytes" where
  "be_nat 0 v = []"
| "be_nat (Suc n) v = be_nat n (v div 256) @ [of_nat v]"

definition nat_be :: "bytes \<Rightarrow> nat" where
  "nat_be bs = foldl (\<lambda>a b. 256 * a + unat b) 0 bs"

definition put_u16 :: "u16 \<Rightarrow> bytes" where "put_u16 w = be_nat 2 (unat w)"
definition put_u32 :: "u32 \<Rightarrow> bytes" where "put_u32 w = be_nat 4 (unat w)"
definition put_u64 :: "u64 \<Rightarrow> bytes" where "put_u64 w = be_nat 8 (unat w)"

definition get_u16 :: "bytes \<Rightarrow> u16" where "get_u16 bs = of_nat (nat_be bs)"
definition get_u32 :: "bytes \<Rightarrow> u32" where "get_u32 bs = of_nat (nat_be bs)"
definition get_u64 :: "bytes \<Rightarrow> u64" where "get_u64 bs = of_nat (nat_be bs)"

lemma length_be_nat [simp]: "length (be_nat n v) = n"
  by (induction n arbitrary: v) auto

lemma be_nat_0: "be_nat n 0 = replicate n 0"
  by (induction n) (simp_all add: replicate_append_same)

lemma be_nat_numeral [be_simps]:
  "be_nat (numeral k) v = be_nat (pred_numeral k) (v div 256) @ [of_nat v]"
  by (simp add: numeral_eq_Suc [of k])

lemma replicate_numeral [be_simps]: "replicate (numeral k) x = x # replicate (pred_numeral k) x"
  by (simp add: numeral_eq_Suc [of k])

lemma nat_be_snoc [simp]: "nat_be (bs @ [b]) = 256 * nat_be bs + unat b"
  by (simp add: nat_be_def)

lemma nat_be_Nil [simp]: "nat_be [] = 0"
  by (simp add: nat_be_def)

lemma nat_be_be_nat: "nat_be (be_nat n v) = v mod 256 ^ n"
proof (induction n arbitrary: v)
  case 0
  then show ?case by simp
next
  case (Suc n)
  have "v mod 256 ^ Suc n = 256 * (v div 256 mod 256 ^ n) + v mod 256"
    by (simp add: mod_mult2_eq)
  then show ?case by (simp add: Suc unat_of_nat)
qed

lemma unat_lt_256: "unat (b::u8) < 256"
  using unsigned_less [of b, where 'a = nat] by simp

lemma word_unat_eq_mod: "n mod 256 = unat b \<Longrightarrow> word_of_nat n = (b::u8)"
  by (rule unsigned_word_eqI [where 'a = nat]) (simp add: unat_of_nat)

lemma be_nat_nat_be: "be_nat (length bs) (nat_be bs) = bs"
proof (induction bs rule: rev_induct)
  case Nil
  then show ?case by simp
next
  case (snoc b bs)
  have d: "(256 * nat_be bs + unat b) div 256 = nat_be bs"
    using unat_lt_256 [of b] by simp
  have "word_of_nat (256 * nat_be bs + unat b) = b"
    by (rule word_unat_eq_mod) (use unat_lt_256 [of b] in simp)
  with d snoc show ?case by simp
qed

lemma nat_be_lt: "nat_be bs < 256 ^ length bs"
proof (induction bs rule: rev_induct)
  case (snoc b bs)
  then have "256 * nat_be bs + 256 \<le> 256 * 256 ^ length bs" by simp
  with unat_lt_256 [of b] show ?case by simp
qed simp

lemma length_put [simp]:
  "length (put_u16 a) = 2" "length (put_u32 b) = 4" "length (put_u64 c) = 8"
  by (simp_all add: put_u16_def put_u32_def put_u64_def)

lemma get_put [simp, be_simps]:
  "get_u16 (put_u16 a) = a" "get_u32 (put_u32 b) = b" "get_u64 (put_u64 c) = c"
  using unsigned_less [of a, where 'a = nat] unsigned_less [of b, where 'a = nat]
    unsigned_less [of c, where 'a = nat]
  by (simp_all add: put_u16_def put_u32_def put_u64_def get_u16_def get_u32_def get_u64_def
      nat_be_be_nat)

lemma put_get [be_simps]:
  "length bs = 2 \<Longrightarrow> put_u16 (get_u16 bs) = bs"
  "length bs = 4 \<Longrightarrow> put_u32 (get_u32 bs) = bs"
  "length bs = 8 \<Longrightarrow> put_u64 (get_u64 bs) = bs"
  using nat_be_lt [of bs] be_nat_nat_be [of bs]
  by (simp_all add: put_u16_def put_u32_def put_u64_def get_u16_def get_u32_def get_u64_def
      unat_of_nat)

text \<open>The first byte carries the top bits: the packet headers keep their flags there.\<close>

lemma hd_be_nat: "be_nat (Suc n) v ! 0 = of_nat (v div 256 ^ n)"
proof (induction n arbitrary: v)
  case (Suc n)
  have "be_nat (Suc (Suc n)) v ! 0 = be_nat (Suc n) (v div 256) ! 0"
    by (simp add: nth_append)
  also have "\<dots> = of_nat (v div 256 div 256 ^ n)" by (rule Suc)
  finally show ?case by (simp add: div_mult2_eq)
qed simp

section \<open>Byte streams\<close>

text \<open>
  A reader is the bytes still to come and what follows them: the end of the stream
  (\<open>None\<close>) or an error of the transport.
\<close>

record reader =
  rbuf :: bytes
  rerr :: "(io_kind \<times> string) option"

definition end_err :: "string \<Rightarrow> reader \<Rightarrow> fault" where
  "end_err eof r = (case rerr r of None \<Rightarrow> IoError UnexpectedEof eof | Some (k, m) \<Rightarrow> IoError k m)"

text \<open>\<open>AsyncReadExt::read_exact\<close>.\<close>

definition read_exact :: "nat \<Rightarrow> reader \<Rightarrow> (bytes \<times> reader) result" where
  "read_exact n r =
     (if n \<le> length (rbuf r)
      then Inr (take n (rbuf r), r\<lparr>rbuf := drop n (rbuf r)\<rparr>)
      else Inl (end_err ''early eof'' r))"

lemma read_exact_append:
  "rbuf r = bs @ rest \<Longrightarrow> length bs = n \<Longrightarrow> read_exact n r = Inr (bs, r\<lparr>rbuf := rest\<rparr>)"
  by (simp add: read_exact_def)

lemma read_exact_update [simp]:
  "length bs = n \<Longrightarrow> read_exact n (r\<lparr>rbuf := bs @ rest\<rparr>) = Inr (bs, r\<lparr>rbuf := rest\<rparr>)"
  "length bs = n \<Longrightarrow> read_exact n (r\<lparr>rbuf := bs\<rparr>) = Inr (bs, r\<lparr>rbuf := []\<rparr>)"
  by (simp_all add: read_exact_def)

lemma is_panic_read_exact [simp]: "\<not> is_panic (read_exact n r)"
  by (simp add: read_exact_def end_err_def split: option.splits)

lemma read_exact_eq_Inr:
  "read_exact n r = Inr (bs, r') \<longleftrightarrow>
     length bs = n \<and> rbuf r = bs @ rbuf r' \<and> rerr r' = rerr r"
  by (cases r; cases r') (auto simp: read_exact_def)

text \<open>What a reader gives does not depend on what comes later.\<close>

lemma read_exact_extend:
  "read_exact n r = Inr (bs, r') \<Longrightarrow> rbuf q = rbuf r @ ext \<Longrightarrow>
     read_exact n q = Inr (bs, q\<lparr>rbuf := rbuf r' @ ext\<rparr>)"
  by (auto simp: read_exact_eq_Inr)

text \<open>
  The readers' idiom: \<open>read_exact\<close>, where an error of kind \<open>UnexpectedEof\<close> makes the caller
  return \<open>Ok(None)\<close> and any other error is returned.
\<close>

fun is_eof :: "fault \<Rightarrow> bool" where
  "is_eof (IoError k m) = (k = UnexpectedEof)"
| "is_eof e = False"

definition read_or_eof ::
  "nat \<Rightarrow> reader \<Rightarrow> (bytes \<Rightarrow> reader \<Rightarrow> 'b option result) \<Rightarrow> 'b option result" where
  "read_or_eof n r f =
     (case read_exact n r of
        Inl e \<Rightarrow> if is_eof e then Inr None else Inl e
      | Inr (bs, r') \<Rightarrow> f bs r')"

lemma read_or_eof_append:
  "rbuf r = bs @ rest \<Longrightarrow> length bs = n \<Longrightarrow> read_or_eof n r f = f bs (r\<lparr>rbuf := rest\<rparr>)"
  by (simp add: read_or_eof_def read_exact_append)

lemma read_or_eof_Some:
  "read_or_eof n r f = Inr (Some x) \<longleftrightarrow>
     (\<exists>bs r'. length bs = n \<and> rbuf r = bs @ rbuf r' \<and> rerr r' = rerr r \<and> f bs r' = Inr (Some x))"
proof -
  have "read_or_eof n r f = Inr (Some x) \<longleftrightarrow>
     (\<exists>bs r'. read_exact n r = Inr (bs, r') \<and> f bs r' = Inr (Some x))"
    by (auto simp: read_or_eof_def split: sum.splits)
  then show ?thesis by (simp only: read_exact_eq_Inr conj_assoc)
qed

lemma read_or_eof_at_end: "0 < n \<Longrightarrow> rbuf r = [] \<Longrightarrow> rerr r = None \<Longrightarrow> read_or_eof n r f = Inr None"
  by (simp add: read_or_eof_def read_exact_def end_err_def)

lemma is_panic_read_or_eof:
  "is_panic (read_or_eof n r f) \<longleftrightarrow>
     n \<le> length (rbuf r) \<and> is_panic (f (take n (rbuf r)) (r\<lparr>rbuf := drop n (rbuf r)\<rparr>))"
  by (auto simp: read_or_eof_def read_exact_def end_err_def split: option.splits)

text \<open>
  A writer is the bytes it took and, if the transport is going to fail, how many more it
  accepts before it does and with which error.
\<close>

record writer =
  wout :: bytes
  wcap :: "nat option"
  werr :: "io_kind \<times> string"

text \<open>\<open>AsyncWriteExt::write_all\<close>: on failure a prefix of the bytes is on the wire.\<close>

definition write_all :: "bytes \<Rightarrow> writer \<Rightarrow> unit result \<times> writer" where
  "write_all bs w =
     (case wcap w of
        None \<Rightarrow> (Inr (), w\<lparr>wout := wout w @ bs\<rparr>)
      | Some n \<Rightarrow>
          if length bs \<le> n then (Inr (), w\<lparr>wout := wout w @ bs, wcap := Some (n - length bs)\<rparr>)
          else (Inl (IoError (fst (werr w)) (snd (werr w))), w\<lparr>wout := wout w @ take n bs, wcap := Some 0\<rparr>))"

text \<open>Two writes in a row, the second only when the first succeeded.\<close>

definition then_write ::
  "unit result \<times> writer \<Rightarrow> (writer \<Rightarrow> unit result \<times> writer) \<Rightarrow> unit result \<times> writer" where
  "then_write rw f = (case fst rw of Inl e \<Rightarrow> (Inl e, snd rw) | Inr u \<Rightarrow> f (snd rw))"

lemma then_write_simps [simp]:
  "then_write (Inl e, w) f = (Inl e, w)" "then_write (Inr u, w) f = f w"
  by (simp_all add: then_write_def)

lemma write_all_append:
  "write_all (as @ bs) w = then_write (write_all as w) (write_all bs)"
  by (auto simp: write_all_def split: option.splits)

lemma write_all_append_fun:
  "write_all (as @ bs) = (\<lambda>w. then_write (write_all as w) (write_all bs))"
  by (rule ext) (rule write_all_append)

lemma write_all_prefix:
  "\<exists>bs'. wout (snd (write_all bs w)) = wout w @ bs' \<and> prefix bs' bs
         \<and> (fst (write_all bs w) = Inr () \<longrightarrow> bs' = bs)"
  by (auto simp: write_all_def take_is_prefix split: option.splits)

lemma write_all_unbounded [simp]:
  "wcap w = None \<Longrightarrow> write_all bs w = (Inr (), w\<lparr>wout := wout w @ bs\<rparr>)"
  by (simp add: write_all_def)

text \<open>
  \<open>AsyncReadExt::read\<close> into a buffer of \<open>n\<close> bytes: the transport hands over between one
  byte and all that is there, at its own choice (\<open>chunk\<close>), and nothing at the end of the
  stream.
\<close>

definition read_some :: "nat \<Rightarrow> nat \<Rightarrow> reader \<Rightarrow> (bytes \<times> reader) result" where
  "read_some chunk n r =
     (if rbuf r = [] then (case rerr r of None \<Rightarrow> Inr ([], r) | Some (k, m) \<Rightarrow> Inl (IoError k m))
      else let m = min n (max 1 chunk) in Inr (take m (rbuf r), r\<lparr>rbuf := drop m (rbuf r)\<rparr>))"

lemma read_some_then_exact:
  assumes "0 < n" "rbuf r \<noteq> []"
  obtains as r1 where "read_some chunk n r = Inr (as, r1)" "as \<noteq> []" "length as \<le> n"
    "\<And>f. and_then (read_exact (n - length as) r1) (\<lambda>(bs, r2). f (as @ bs) r2)
          = and_then (read_exact n r) (\<lambda>(bs, r2). f bs r2)"
proof -
  define m where "m = min n (max 1 chunk)"
  let ?as = "take m (rbuf r)" and ?r1 = "r\<lparr>rbuf := drop m (rbuf r)\<rparr>"
  have m: "0 < m" "m \<le> n" using assms by (auto simp: m_def)
  have 1: "read_some chunk n r = Inr (?as, ?r1)"
    using assms by (simp add: read_some_def m_def Let_def)
  have 2: "and_then (read_exact (n - length ?as) ?r1) (\<lambda>(bs, r2). f (?as @ bs) r2)
                 = and_then (read_exact n r) (\<lambda>(bs, r2). f bs r2)" for f
  proof (cases "n \<le> length (rbuf r)")
    case True
    then have "take m (rbuf r) @ take (n - m) (drop m (rbuf r)) = take n (rbuf r)"
      using m by (metis le_add_diff_inverse take_add)
    with True m diff_le_mono [OF True, of m] show ?thesis by (simp add: read_exact_def)
  next
    case False
    with m show ?thesis by (auto simp: read_exact_def end_err_def min_def)
  qed
  have 3: "?as \<noteq> []" "length ?as \<le> n" using m assms by auto
  show thesis by (rule that [OF 1 3 2])
qed

end
