(* ===== verification/Seq.thy ===== *)
theory Seq
  imports Prelude
begin

text \<open>
  The \<open>Sequencer\<close> of \<open>kyproto/src/protocol/driver/util/seq.rs\<close>: wire sequence numbers of 8,
  16 or 32 bits wrap around, and the sequencer unrolls them into 64-bit numbers that are
  totally ordered. The theory shows that unrolling recovers the number the sender counted,
  for as long as a number arrives within half the wire range of the newest one.
\<close>

section \<open>The sequencer\<close>

record sequencer =
  newest_seq :: u64

definition sequencer_new :: sequencer where
  "sequencer_new = \<lparr>newest_seq = 0\<rparr>"

text \<open>
  The body of the macro \<open>impl_sequencer\<close>, with \<open>SIZE_BITS\<close> for the width of the wire type
  and \<open>value\<close> already widened to 64 bits.
\<close>

definition sequencer_seq :: "nat \<Rightarrow> sequencer \<Rightarrow> u64 \<Rightarrow> u64 \<times> sequencer" where
  "sequencer_seq SIZE_BITS s val =
     (let HI_MASK = NOT (push_bit SIZE_BITS 1 - 1) :: u64;
          RANGE = push_bit SIZE_BITS 1 :: u64;
          HALF_RANGE = push_bit (SIZE_BITS - 1) 1 :: u64;
          seq0 = (newest_seq s AND HI_MASK) + val;
          seq = (if newest_seq s \<ge> seq0 + HALF_RANGE then seq0 + RANGE
                 else if seq0 > newest_seq s + HALF_RANGE \<and> seq0 \<ge> RANGE then seq0 - RANGE
                 else seq0)
      in (seq, if seq > newest_seq s then s\<lparr>newest_seq := seq\<rparr> else s))"

text \<open>The instances \<open>impl_sequencer!(u8 u16 u32)\<close>.\<close>

definition seq_u8 :: "sequencer \<Rightarrow> u8 \<Rightarrow> u64 \<times> sequencer" where
  "seq_u8 s v = sequencer_seq 8 s (ucast v)"

definition seq_u16 :: "sequencer \<Rightarrow> u16 \<Rightarrow> u64 \<times> sequencer" where
  "seq_u16 s v = sequencer_seq 16 s (ucast v)"

definition seq_u32 :: "sequencer \<Rightarrow> u32 \<Rightarrow> u64 \<times> sequencer" where
  "seq_u32 s v = sequencer_seq 32 s (ucast v)"

section \<open>Reference arithmetic\<close>

text \<open>
  The same computation on natural numbers, where nothing wraps: \<open>R\<close> is the wire range and
  \<open>H\<close> its half.
\<close>

definition unroll :: "nat \<Rightarrow> nat \<Rightarrow> nat \<Rightarrow> nat" where
  "unroll H n v =
     (let R = 2 * H; s = n - n mod R + v
      in if n \<ge> s + H then s + R else if s > n + H \<and> s \<ge> R then s - R else s)"

lemma unroll_cong:
  assumes "0 < H" "v < 2 * H"
  shows "unroll H n v mod (2 * H) = v"
proof -
  define R where "R = 2 * H"
  obtain q where q: "n - n mod R = R * q"
    by (metis minus_mod_eq_mult_div)
  have "(R * q + v) mod R = v" "(R * q + v + R) mod R = v"
    using assms by (simp_all add: R_def)
  moreover have "R \<le> R * q + v \<Longrightarrow> (R * q + v - R) mod R = v"
    using assms by (simp add: R_def le_mod_geq [symmetric])
  ultimately show ?thesis
    unfolding unroll_def Let_def R_def [symmetric] q by auto
qed

lemma unroll_window:
  assumes "0 < H" "v < 2 * H"
  shows "(n < unroll H n v + H \<and> unroll H n v \<le> n + H)
         \<or> (n + H < unroll H n v \<and> unroll H n v < 2 * H)"
proof -
  define m where "m = n mod (2 * H)"
  have "m < 2 * H" "m \<le> n" using assms by (simp_all add: m_def)
  then show ?thesis using assms
    unfolding unroll_def Let_def m_def [symmetric] by (auto split: if_splits)
qed

text \<open>Two numbers of one residue in a window of the size of the range are equal.\<close>

lemma cong_window_eq:
  fixes a b n H :: nat
  assumes "a mod (2 * H) = b mod (2 * H)"
    and "n < a + H" "a \<le> n + H" "n < b + H" "b \<le> n + H"
  shows "a = b"
proof (rule ccontr)
  assume "a \<noteq> b"
  then consider "a < b" | "b < a" by linarith
  then show False
  proof cases
    case 1
    then have "2 * H dvd b - a" using assms(1) by (metis less_imp_le mod_eq_dvd_iff_nat)
    with 1 have "2 * H \<le> b - a" by (simp add: dvd_imp_le)
    with assms 1 show False by linarith
  next
    case 2
    then have "2 * H dvd a - b" using assms(1) by (metis less_imp_le mod_eq_dvd_iff_nat)
    with 2 have "2 * H \<le> a - b" by (simp add: dvd_imp_le)
    with assms 2 show False by linarith
  qed
qed

lemma unroll_exact:
  assumes "0 < H" "n < t + H" "t \<le> n + H"
  shows "unroll H n (t mod (2 * H)) = t"
proof -
  have v: "t mod (2 * H) < 2 * H" using assms by simp
  note c = unroll_cong [OF assms(1) v, of n]
  from unroll_window [OF assms(1) v, of n] show ?thesis
  proof
    assume "n < unroll H n (t mod (2 * H)) + H \<and> unroll H n (t mod (2 * H)) \<le> n + H"
    with c assms show ?thesis by (intro cong_window_eq [of _ H t n]) auto
  next
    assume far: "n + H < unroll H n (t mod (2 * H)) \<and> unroll H n (t mod (2 * H)) < 2 * H"
    with c have "unroll H n (t mod (2 * H)) = t mod (2 * H)" by simp
    also have "\<dots> = t" using far assms by simp
    finally show ?thesis .
  qed
qed

section \<open>Refinement of the reference by the 64-bit code\<close>

lemma unat_exp: "k < 64 \<Longrightarrow> unat (2 ^ k :: u64) = 2 ^ k"
  using unat_of_nat [of "2 ^ k", where 'a = 64] power_strict_increasing [of k 64 "2::nat"]
  by simp

lemma unat_push_bit_1: "k < 64 \<Longrightarrow> unat (push_bit k 1 :: u64) = 2 ^ k"
  by (simp add: push_bit_eq_mult unat_exp)

lemma unat_hi_mask:
  assumes "k < 64"
  shows "unat (w AND NOT (push_bit k 1 - 1) :: u64) = unat w - unat w mod 2 ^ k"
proof -
  have m: "push_bit k 1 - 1 = (mask k :: u64)"
    by (simp add: mask_eq_exp_minus_1 push_bit_eq_mult)
  have lo: "unat (w AND mask k) = unat w mod 2 ^ k"
    using assms by (simp add: take_bit_eq_mask [symmetric])
      (simp add: take_bit_eq_mod unat_mod_distrib unat_exp)
  have sum: "(w AND mask k) + (w AND NOT (mask k)) = w"
    by (subst disjunctive_add) (auto simp: bit_simps intro!: bit_eqI)
  have hi: "w AND NOT (mask k) = w - (w AND mask k)"
    using sum by (metis add_diff_cancel_left')
  have "w AND mask k \<le> w" by (simp add: word_and_le2)
  with hi lo have "unat (w AND NOT (mask k)) = unat w - unat w mod 2 ^ k" by (simp add: unat_sub)
  then show ?thesis unfolding m .
qed

lemma sequencer_seq_unroll:
  assumes b: "0 < b" "b \<le> 32" and n: "unat (newest_seq s) < 2 ^ 63" and v: "unat v < 2 ^ b"
  shows "unat (fst (sequencer_seq b s v)) = unroll (2 ^ (b - 1)) (unat (newest_seq s)) (unat v)"
    and "unat (newest_seq (snd (sequencer_seq b s v)))
         = max (unat (newest_seq s)) (unroll (2 ^ (b - 1)) (unat (newest_seq s)) (unat v))"
proof -
  define w where "w = newest_seq s"
  define R H :: u64 where "R = push_bit b 1" and "H = push_bit (b - 1) 1"
  define q where "q = (w AND NOT (R - 1)) + v"
  have p: "(2::nat) ^ b = 2 * 2 ^ (b - 1)" using b by (cases b) auto
  have le: "(2::nat) ^ b \<le> 2 ^ 32" using b by (intro power_increasing) auto
  have R: "unat R = 2 ^ b" and H: "unat H = 2 ^ (b - 1)"
    using b by (simp_all add: R_def H_def push_bit_eq_mult unat_exp)
  have w: "unat w < 2 ^ 63" using n by (simp add: w_def)
  have hi: "unat (w AND NOT (R - 1)) = unat w - unat w mod 2 ^ b"
    using b unfolding R_def by (intro unat_hi_mask) simp
  have q: "unat q = unat w - unat w mod 2 ^ b + unat v"
    using hi v le w by (simp add: q_def unat_word_ariths)
  have qb: "unat q < 2 ^ 63 + 2 ^ 32" using q v le w by linarith
  have a: "unat (q + H) = unat q + 2 ^ (b - 1)" "unat (q + R) = unat q + 2 ^ b"
    "unat (w + H) = unat w + 2 ^ (b - 1)"
    using qb w le p by (simp_all add: unat_word_ariths H R)
  have d: "R \<le> q \<Longrightarrow> unat (q - R) = unat q - 2 ^ b"
    by (simp add: unat_sub R)
  define r where "r = (if w \<ge> q + H then q + R else if q > w + H \<and> q \<ge> R then q - R else q)"
  have step: "sequencer_seq b s v = (r, if r > w then s\<lparr>newest_seq := r\<rparr> else s)"
    by (simp add: sequencer_seq_def Let_def r_def q_def R_def H_def w_def)
  have r: "unat r = unroll (2 ^ (b - 1)) (unat w) (unat v)"
    unfolding r_def unroll_def Let_def p [symmetric] q [symmetric]
    using a d by (auto simp: word_le_nat_alt word_less_nat_alt R)
  show "unat (fst (sequencer_seq b s v)) = unroll (2 ^ (b - 1)) (unat (newest_seq s)) (unat v)"
    using step r by (simp add: w_def)
  show "unat (newest_seq (snd (sequencer_seq b s v)))
        = max (unat (newest_seq s)) (unroll (2 ^ (b - 1)) (unat (newest_seq s)) (unat v))"
    unfolding r [unfolded w_def, symmetric] using step by (auto simp: w_def word_less_nat_alt max_def)
qed

text \<open>
  A stream of numbers as the sender counted them, none of them further than half the range
  \<open>H\<close> from the newest number seen before it, starting from \<open>n\<close>.
\<close>

fun in_window :: "nat \<Rightarrow> nat \<Rightarrow> nat list \<Rightarrow> bool" where
  "in_window H n [] = True"
| "in_window H n (t # ts) = (n < t + H \<and> t \<le> n + H \<and> t < 2 ^ 63 \<and> in_window H (max n t) ts)"

text \<open>Feeding a sequencer a list of received values, one after the other.\<close>

fun seq_all :: "(sequencer \<Rightarrow> 'v \<Rightarrow> u64 \<times> sequencer) \<Rightarrow> sequencer \<Rightarrow> 'v list \<Rightarrow> u64 list" where
  "seq_all f s [] = []"
| "seq_all f s (v # vs) = fst (f s v) # seq_all f (snd (f s v)) vs"

lemma sequencer_seq_exact:
  assumes "0 < b" "b \<le> 32" "unat (newest_seq s) < 2 ^ 63"
    and "unat (newest_seq s) < t + 2 ^ (b - 1)" "t \<le> unat (newest_seq s) + 2 ^ (b - 1)"
    and "unat v = t mod 2 ^ b"
  shows "unat (fst (sequencer_seq b s v)) = t"
    and "unat (newest_seq (snd (sequencer_seq b s v))) = max (unat (newest_seq s)) t"
proof -
  have p: "(2::nat) ^ b = 2 * 2 ^ (b - 1)" using assms(1) by (cases b) auto
  have v: "unat v < 2 ^ b" using assms(6) by simp
  have u: "unroll (2 ^ (b - 1)) (unat (newest_seq s)) (unat v) = t"
    using unroll_exact [of "2 ^ (b - 1)" "unat (newest_seq s)" t] assms p by simp
  show "unat (fst (sequencer_seq b s v)) = t"
    using sequencer_seq_unroll(1) [OF assms(1-3) v] u by simp
  show "unat (newest_seq (snd (sequencer_seq b s v))) = max (unat (newest_seq s)) t"
    using sequencer_seq_unroll(2) [OF assms(1-3) v] u by simp
qed

lemma mod_exp_lt_64: "b \<le> 32 \<Longrightarrow> (t::nat) mod 2 ^ b < 18446744073709551616"
  by (rule order_less_le_trans [OF mod_less_divisor])
    (use power_increasing [of b 32 "2::nat"] in simp_all)

lemma seq_all_exact:
  assumes "0 < b" "b \<le> 32" "\<And>s v. f s v = sequencer_seq b s (ucast v)" "LENGTH('w::len) = b"
    and "unat (newest_seq s) < 2 ^ 63" "in_window (2 ^ (b - 1)) (unat (newest_seq s)) ts"
  shows "map unat (seq_all f s (map (\<lambda>t. (of_nat t :: 'w word)) ts)) = ts"
  using assms(5,6)
proof (induction ts arbitrary: s)
  case (Cons t ts)
  let ?v = "of_nat t :: 'w word"
  have "unat (ucast ?v :: u64) = t mod 2 ^ b"
    using assms(2,4) by (simp add: unsigned_ucast_eq take_bit_nat_eq_self unat_of_nat
        mod_exp_lt_64)
  note e = sequencer_seq_exact [OF assms(1,2) Cons.prems(1) _ _ this]
  have "unat (fst (f s ?v)) = t" "unat (newest_seq (snd (f s ?v))) = max (unat (newest_seq s)) t"
    using e Cons.prems(2) by (simp_all add: assms(3))
  with Cons show ?case by simp
qed simp

section \<open>Properties\<close>

text \<open>
  C1: A sender counts its packets and puts only the low 8, 16 or 32 bits on the wire. As
  long as no number is further than half the wire range from the newest one received before
  it, the sequencer gives back the numbers the sender counted, over any number of wraps and
  in any order of arrival.
\<close>

theorem sequencer_unrolls_stream:
  assumes "in_window (2 ^ 7) 0 as" "in_window (2 ^ 15) 0 bs" "in_window (2 ^ 31) 0 cs"
  shows "map unat (seq_all seq_u8 sequencer_new (map of_nat as)) = as
       \<and> map unat (seq_all seq_u16 sequencer_new (map of_nat bs)) = bs
       \<and> map unat (seq_all seq_u32 sequencer_new (map of_nat cs)) = cs"
  using seq_all_exact [of 8 seq_u8] seq_all_exact [of 16 seq_u16] seq_all_exact [of 32 seq_u32] assms
  by (simp add: seq_u8_def seq_u16_def seq_u32_def sequencer_new_def)

theorem sequencer_unrolls_stream_witness:
  "map unat (seq_all seq_u16 sequencer_new (map of_nat [1, 0, 32769, 65537, 65536, 65538]))
   = [1, 0, 32769, 65537, 65536, 65538]"
  using sequencer_unrolls_stream [of "[128, 256, 200]" "[1, 0, 32769, 65537, 65536, 65538]" "[7, 3]"]
  by (simp only: in_window.simps) simp

text \<open>
  What a single step guarantees for a wire width of \<open>b\<close> bits: the result agrees with the wire
  value and lies in the window of the size of the range around the newest number \<open>n\<close>. Only a value
  more than half the range ahead of \<open>n\<close> has no number in that window (the number before it would be
  negative), and it is taken as it is.
\<close>

definition seq_result :: "nat \<Rightarrow> nat \<Rightarrow> nat \<Rightarrow> nat \<Rightarrow> bool" where
  "seq_result b n v u \<longleftrightarrow>
     u mod 2 ^ b = v
     \<and> (if n + 2 ^ (b - 1) < v then u = v else n < u + 2 ^ (b - 1) \<and> u \<le> n + 2 ^ (b - 1))"

lemma unroll_result:
  assumes "0 < b" "v < 2 ^ b"
  shows "seq_result b n v (unroll (2 ^ (b - 1)) n v)"
proof -
  have p: "(2::nat) ^ b = 2 * 2 ^ (b - 1)" using assms(1) by (cases b) auto
  have v: "v < 2 * 2 ^ (b - 1)" using assms(2) p by simp
  have far: "unroll (2 ^ (b - 1)) n v = v" if "n + 2 ^ (b - 1) < v"
    using that v by (simp add: unroll_def Let_def)
  from unroll_window [OF _ v, of n] unroll_cong [OF _ v, of n] far show ?thesis
    by (auto simp: seq_result_def p)
qed

lemma seq_step_result:
  fixes v :: "'w::len word"
  assumes "LENGTH('w) \<le> 32" "unat (newest_seq s) < 2 ^ 63"
  shows "seq_result LENGTH('w) (unat (newest_seq s)) (unat v) (unat (fst (sequencer_seq LENGTH('w) s (ucast v))))
       \<and> newest_seq (snd (sequencer_seq LENGTH('w) s (ucast v)))
         = max (newest_seq s) (fst (sequencer_seq LENGTH('w) s (ucast v)))"
proof -
  have lt: "unat v < 2 ^ LENGTH('w)" by (rule unsigned_less)
  have "unat (ucast v :: u64) = unat v"
    using order_less_le_trans [OF lt power_increasing [of "LENGTH('w)" 64 "2::nat"]] assms(1)
    by (simp add: unsigned_ucast_eq take_bit_nat_eq_self)
  with sequencer_seq_unroll(1) [OF _ assms, of "ucast v"] unroll_result [OF _ lt] lt
  have "seq_result LENGTH('w) (unat (newest_seq s)) (unat v) (unat (fst (sequencer_seq LENGTH('w) s (ucast v))))"
    by simp
  moreover have "newest_seq (snd (sequencer_seq LENGTH('w) s (ucast v)))
         = max (newest_seq s) (fst (sequencer_seq LENGTH('w) s (ucast v)))"
    by (auto simp: sequencer_seq_def Let_def max_def)
  ultimately show ?thesis ..
qed

text \<open>
  C2: Whatever 8-, 16- or 32-bit value arrives, and so also from a peer that does not follow the
  numbering, the unrolled number agrees with the wire value and is the one in the window from half
  the range below the newest number (exclusive) to half the range above it (inclusive); only a value
  that exceeds the newest number by more than half the range, which can happen only before
  the newest number has reached half the range, is taken as it is. The newest number becomes the
  maximum of the two. The newest number is assumed below \<open>2 ^ 63\<close>, which a counter that starts at 0
  does not reach.
\<close>

theorem sequencer_stays_in_window:
  assumes "unat (newest_seq s) < 2 ^ 63"
  shows "seq_result 8 (unat (newest_seq s)) (unat a) (unat (fst (seq_u8 s a)))
       \<and> seq_result 16 (unat (newest_seq s)) (unat b) (unat (fst (seq_u16 s b)))
       \<and> seq_result 32 (unat (newest_seq s)) (unat c) (unat (fst (seq_u32 s c)))
       \<and> newest_seq (snd (seq_u8 s a)) = max (newest_seq s) (fst (seq_u8 s a))
       \<and> newest_seq (snd (seq_u16 s b)) = max (newest_seq s) (fst (seq_u16 s b))
       \<and> newest_seq (snd (seq_u32 s c)) = max (newest_seq s) (fst (seq_u32 s c))"
  using seq_step_result [of s a] seq_step_result [of s b] seq_step_result [of s c] assms
  by (simp add: seq_u8_def seq_u16_def seq_u32_def)

theorem sequencer_stays_in_window_witness:
  "fst (seq_u16 \<lparr>newest_seq = 70000\<rparr> 0xFFFF) = 0xFFFF
     \<and> seq_result 16 70000 0xFFFF 0xFFFF \<and> \<not> seq_result 16 70000 1 1"
proof -
  have "fst (seq_u16 \<lparr>newest_seq = 70000\<rparr> 0xFFFF) = 0xFFFF"
    by (simp add: seq_u16_def sequencer_seq_def Let_def)
  with sequencer_stays_in_window [of "\<lparr>newest_seq = 70000\<rparr>" 1 "0xFFFF" 1]
  show ?thesis by (simp add: seq_result_def)
qed

end
