(* ===== verification/Serial.thy ===== *)
theory Serial
  imports Prelude
begin

text \<open>
  The trait \<open>Serializable\<close> of \<open>kymux-types/src/serial.rs\<close> as a locale, and the code that is
  generic in it: the IPC send and receive drivers (\<open>ipc.rs\<close>), the packet helpers of the
  reliable drivers (\<open>protocol/driver/mod.rs\<close>) and the forwarding loop of \<open>lib.rs\<close>. The packet
  types of \<open>Packets\<close> interpret the locales.
\<close>

type_synonym 'p read_fun = "reader \<Rightarrow> ('p \<times> reader) option result"
type_synonym 'p write_fun = "'p \<Rightarrow> writer \<Rightarrow> unit result \<times> writer"

section \<open>Drivers over a serializable packet\<close>

text \<open>\<open>flush\<close>: the model's writer holds nothing back, so there is nothing left to push out.\<close>

definition flush :: "writer \<Rightarrow> unit result \<times> writer" where
  "flush w = (Inr (), w)"

text \<open>\<open>IpcSend::send\<close> and \<open>driver::write_packet\<close> have the same body.\<close>

definition write_packet :: "'p write_fun \<Rightarrow> 'p write_fun" where
  "write_packet write_p packet w =
     then_write (apfst (map_err protocol_error_new) (write_p packet w))
       (\<lambda>w. apfst (map_err protocol_error_new) (flush w))"

definition ipc_send :: "'p write_fun \<Rightarrow> 'p write_fun" where
  "ipc_send write_p packet w =
     then_write (apfst (map_err protocol_error_new) (write_p packet w))
       (\<lambda>w. apfst (map_err protocol_error_new) (flush w))"

text \<open>\<open>IpcRecv::recv\<close> and \<open>driver::read_packet\<close>.\<close>

definition read_packet :: "'p read_fun \<Rightarrow> 'p read_fun" where
  "read_packet read_p r = map_err protocol_error_new (read_p r)"

definition ipc_recv :: "'p read_fun \<Rightarrow> 'p read_fun" where
  "ipc_recv read_p r = map_err protocol_error_new (read_p r)"

text \<open>
  \<open>forward\<close>: receive until the end and send each packet on. It gives the final result and
  the writer; \<open>None\<close> would be a loop that never ends.
\<close>

partial_function (option) forward ::
  "'p read_fun \<Rightarrow> 'p write_fun \<Rightarrow> reader \<Rightarrow> writer \<Rightarrow> (unit result \<times> writer) option" where
  "forward recv send r w =
     (case recv r of
        Inl e \<Rightarrow> Some (Inl e, w)
      | Inr None \<Rightarrow> Some (Inr (), w)
      | Inr (Some (packet, r')) \<Rightarrow>
          (case send packet w of
             (Inl e, w') \<Rightarrow> Some (Inl e, w')
           | (Inr u, w') \<Rightarrow> forward recv send r' w'))"

text \<open>A sender handing over a list of packets, up to the first error.\<close>

fun send_all :: "'p write_fun \<Rightarrow> 'p list \<Rightarrow> writer \<Rightarrow> unit result \<times> writer" where
  "send_all send [] w = (Inr (), w)"
| "send_all send (p # ps) w = then_write (send p w) (send_all send ps)"

text \<open>A fresh stream whose transport does not fail.\<close>

definition new_writer :: writer where
  "new_writer = \<lparr>wout = [], wcap = None, werr = (OtherKind, [])\<rparr>"

section \<open>The contract of a packet type\<close>

text \<open>
  What a packet type promises: a valid packet is written as its encoding, and reading a
  stream that starts with the encoding gives the packet back and leaves the rest. Reading
  a packet consumes at least one byte.
\<close>

locale serializable =
  fixes write_p :: "'p write_fun" and read_p :: "'p read_fun"
    and enc :: "'p \<Rightarrow> bytes" and valid :: "'p \<Rightarrow> bool"
  assumes write_enc: "valid p \<Longrightarrow> write_p p w = write_all (enc p) w"
    and read_enc: "valid p \<Longrightarrow> rbuf r = enc p @ rest \<Longrightarrow> read_p r = Inr (Some (p, r\<lparr>rbuf := rest\<rparr>))"
    and read_progress: "read_p r = Inr (Some (p, r')) \<Longrightarrow> length (rbuf r') < length (rbuf r)"
begin

lemma ipc_send_enc:
  assumes "valid p"
  shows "ipc_send write_p p w = apfst (map_err protocol_error_new) (write_all (enc p) w)"
  by (cases "write_all (enc p) w"; cases "fst (write_all (enc p) w)")
     (simp_all add: ipc_send_def write_enc [OF assms] flush_def)

lemma send_all_enc:
  assumes "\<forall>p \<in> set ps. valid p"
  shows "send_all (ipc_send write_p) ps w
         = apfst (map_err protocol_error_new) (write_all (concat (map enc ps)) w)"
  using assms
proof (induction ps arbitrary: w)
  case Nil
  then show ?case by (cases w) (auto simp: write_all_def split: option.splits)
next
  case (Cons p ps)
  obtain u w' where w': "write_all (enc p) w = (u, w')" by (cases "write_all (enc p) w")
  with Cons show ?case
    by (cases u) (simp_all add: ipc_send_enc write_all_append)
qed

text \<open>Whatever reaches the wire is a prefix of the packets' encodings.\<close>

lemma send_all_prefix:
  assumes "\<forall>p \<in> set ps. valid p"
  shows "\<exists>bs. wout (snd (send_all (ipc_send write_p) ps w)) = wout w @ bs
              \<and> prefix bs (concat (map enc ps))"
  using write_all_prefix [of "concat (map enc ps)" w] by (auto simp: send_all_enc [OF assms])

lemma recv_enc:
  "valid p \<Longrightarrow> rbuf r = enc p @ rest \<Longrightarrow> ipc_recv read_p r = Inr (Some (p, r\<lparr>rbuf := rest\<rparr>))"
  by (simp add: ipc_recv_def read_enc)

lemma forward_terminates: "\<exists>rw. forward (ipc_recv read_p) send r w = Some rw"
proof (induction "length (rbuf r)" arbitrary: r w rule: less_induct)
  case less
  show ?case
  proof (cases "ipc_recv read_p r")
    case (Inr x)
    show ?thesis
    proof (cases x)
      case (Some pr)
      obtain p r' where pr: "pr = (p, r')" by (cases pr)
      have "read_p r = Inr (Some (p, r'))" using Inr Some pr by (simp add: ipc_recv_def)
      then have lt: "length (rbuf r') < length (rbuf r)" by (rule read_progress)
      obtain u w' where u: "send p w = (u, w')" by (cases "send p w")
      show ?thesis using less [OF lt, of w'] Inr Some pr u
        by (subst forward.simps) (auto split: sum.splits)
    qed (use Inr in \<open>subst forward.simps, simp\<close>)
  qed (subst forward.simps, simp)
qed

text \<open>Forwarding consumes the encoded packets at the head of the stream and goes on.\<close>

lemma forward_prefix:
  assumes "\<forall>p \<in> set ps. valid p" "rbuf r = concat (map enc ps) @ rest"
  shows "forward (ipc_recv read_p) send r w =
           (case send_all send ps w of
              (Inl e, w') \<Rightarrow> Some (Inl e, w')
            | (Inr u, w') \<Rightarrow> forward (ipc_recv read_p) send (r\<lparr>rbuf := rest\<rparr>) w')"
  using assms
proof (induction ps arbitrary: r w)
  case Nil
  then have "r\<lparr>rbuf := rest\<rparr> = r" by simp
  then show ?case by simp
next
  case (Cons p ps)
  have rd: "ipc_recv read_p r = Inr (Some (p, r\<lparr>rbuf := concat (map enc ps) @ rest\<rparr>))"
    using Cons.prems by (intro recv_enc) auto
  obtain u w' where u: "send p w = (u, w')" by (cases "send p w")
  show ?case
    using Cons by (subst forward.simps) (cases u; simp add: rd u split: prod.splits sum.splits)
qed

end

text \<open>Some packet types also tell a clean end of stream from an error.\<close>

locale serializable_eof = serializable +
  assumes read_eof: "rbuf r = [] \<Longrightarrow> rerr r = None \<Longrightarrow> read_p r = Inr None"
begin

lemma forward_enc:
  assumes "\<forall>p \<in> set ps. valid p" "rbuf r = concat (map enc ps)" "rerr r = None"
  shows "forward (ipc_recv read_p) send r w = Some (send_all send ps w)"
proof -
  have "forward (ipc_recv read_p) send (r\<lparr>rbuf := []\<rparr>) w' = Some (Inr (), w')" for w'
    using assms(3) by (subst forward.simps) (simp add: ipc_recv_def read_eof)
  then show ?thesis
    using forward_prefix [of ps r "[]" send w] assms
    by (cases "send_all send ps w"; cases "fst (send_all send ps w)") auto
qed

text \<open>
  End to end: packets sent over one IPC stream and forwarded to a second one arrive on the
  second wire byte for byte.
\<close>

lemma send_forward:
  assumes "\<forall>p \<in> set ps. valid p"
  shows "\<exists>w'. send_all (ipc_send write_p) ps new_writer = (Inr (), w')
              \<and> forward (ipc_recv read_p) (ipc_send write_p) \<lparr>rbuf = wout w', rerr = None\<rparr> new_writer
                = Some (Inr (), w')"
proof -
  let ?w = "new_writer\<lparr>wout := concat (map enc ps)\<rparr>"
  have "send_all (ipc_send write_p) ps new_writer = (Inr (), ?w)"
    by (simp add: send_all_enc [OF assms] new_writer_def)
  then show ?thesis by (simp add: forward_enc [OF assms])
qed

end

end
