(* ===== verification/Packets.thy ===== *)
theory Packets
  imports Serial
begin

text \<open>
  The packet types of \<open>kymux-types\<close>: audio/video packets with their 12-byte headers
  (\<open>av.rs\<close>), data, input and metrics packets (\<open>data.rs\<close>, \<open>input.rs\<close>, \<open>metrics.rs\<close>), with their
  writers and readers. Each type interprets the contract of \<open>Serial\<close>.
\<close>

named_theorems header_simps \<open>layout of the audio/video headers\<close>

section \<open>Audio and video packets\<close>

record codec_packet_header =
  codec :: u32
  rotation :: u8
  frame_size :: u16

record media_packet_header =
  is_config :: bool
  is_key :: bool
  pts :: u64
  msize :: u32

record hole_packet_header =
  missing_audio_samples :: u32

datatype av_packet_header = CodecH codec_packet_header | MediaH media_packet_header
  | HoleH hole_packet_header

datatype av_packet = Codec codec_packet_header | Media media_packet_header bytes
  | Hole hole_packet_header

definition SERIALIZED_SIZE :: nat where "SERIALIZED_SIZE = 12"

subsection \<open>Headers\<close>

text \<open>Every \<open>serialize_to\<close> overwrites the whole buffer, which must have 12 bytes.\<close>

definition codec_serialize_to :: "codec_packet_header \<Rightarrow> bytes \<Rightarrow> bytes result" where
  "codec_serialize_to h buf =
     and_then (assert_that (length buf = SERIALIZED_SIZE) ''buf.len()'') (\<lambda>_.
     Inr (put_u32 (codec h) @ [rotation h] @ put_u16 (frame_size h)
          @ replicate (length buf - 7) 0))"

definition codec_serialize :: "codec_packet_header \<Rightarrow> bytes result" where
  "codec_serialize h = codec_serialize_to h (replicate SERIALIZED_SIZE 0)"

definition codec_deserialize :: "bytes \<Rightarrow> codec_packet_header result" where
  "codec_deserialize buf =
     and_then (assert_that (length buf = SERIALIZED_SIZE) ''buf.len()'') (\<lambda>_.
     and_then (assert_that (buf ! 0 AND 0x80 = 0) ''codec packet'') (\<lambda>_.
     Inr \<lparr>codec = get_u32 (take 4 buf), rotation = buf ! 4,
          frame_size = get_u16 (take 2 (drop 5 buf))\<rparr>))"

definition media_serialize_to :: "media_packet_header \<Rightarrow> bytes \<Rightarrow> bytes result" where
  "media_serialize_to h buf =
     and_then (assert_that (length buf = SERIALIZED_SIZE) ''buf.len()'') (\<lambda>_.
     and_then (assert_that (pts h AND NOT 0x1FFFFFFFFFFFFFFF = 0) ''pts'') (\<lambda>_.
     let w0 = pts h OR push_bit 63 1;
         w1 = (if is_config h then w0 OR push_bit 62 1 else w0);
         w2 = (if is_key h then w1 OR push_bit 61 1 else w1)
     in Inr (put_u64 w2 @ put_u32 (msize h))))"

definition media_serialize :: "media_packet_header \<Rightarrow> bytes result" where
  "media_serialize h = media_serialize_to h (replicate SERIALIZED_SIZE 0)"

definition media_deserialize :: "bytes \<Rightarrow> media_packet_header result" where
  "media_deserialize buf =
     and_then (assert_that (length buf = SERIALIZED_SIZE) ''buf.len()'') (\<lambda>_.
     and_then (assert_that (buf ! 0 AND 0x80 \<noteq> 0) ''media packet'') (\<lambda>_.
     let pts_and_flags = get_u64 (take 8 buf)
     in Inr \<lparr>is_config = pts_and_flags AND push_bit 62 1 \<noteq> 0,
             is_key = pts_and_flags AND push_bit 61 1 \<noteq> 0,
             pts = pts_and_flags AND (push_bit 61 1 - 1),
             msize = get_u32 (drop 8 buf)\<rparr>))"

definition hole_serialize_to :: "hole_packet_header \<Rightarrow> bytes \<Rightarrow> bytes result" where
  "hole_serialize_to h buf =
     and_then (assert_that (length buf = SERIALIZED_SIZE) ''buf.len()'') (\<lambda>_.
     Inr (replicate 4 0 @ put_u32 (missing_audio_samples h) @ replicate (length buf - 8) 0))"

definition hole_serialize :: "hole_packet_header \<Rightarrow> bytes result" where
  "hole_serialize h = hole_serialize_to h (replicate SERIALIZED_SIZE 0)"

definition hole_deserialize :: "bytes \<Rightarrow> hole_packet_header result" where
  "hole_deserialize buf =
     and_then (assert_that (length buf = SERIALIZED_SIZE) ''buf.len()'') (\<lambda>_.
     and_then (assert_that (buf ! 0 = 0 \<and> buf ! 1 = 0 \<and> buf ! 2 = 0 \<and> buf ! 3 = 0)
                 ''missing-info packet'') (\<lambda>_.
     let missing = get_u32 (take 4 (drop 4 buf))
     in and_then (assert_that (missing > 0) ''missing_audio_samples > 0'') (\<lambda>_.
        Inr \<lparr>missing_audio_samples = missing\<rparr>)))"

definition av_header_deserialize :: "bytes \<Rightarrow> av_packet_header result" where
  "av_header_deserialize buf =
     and_then (assert_that (length buf = SERIALIZED_SIZE) ''buf.len()'') (\<lambda>_.
     if buf ! 0 AND 0x80 \<noteq> 0 then and_then (media_deserialize buf) (\<lambda>h. Inr (MediaH h))
     else if buf ! 0 = 0 \<and> buf ! 1 = 0 \<and> buf ! 2 = 0 \<and> buf ! 3 = 0
     then and_then (hole_deserialize buf) (\<lambda>h. Inr (HoleH h))
     else and_then (codec_deserialize buf) (\<lambda>h. Inr (CodecH h)))"

subsection \<open>Packets on a stream\<close>

text \<open>A panic while serializing leaves the writer as it was.\<close>

definition with_header ::
  "bytes result \<Rightarrow> writer \<Rightarrow> (bytes \<Rightarrow> unit result \<times> writer) \<Rightarrow> unit result \<times> writer" where
  "with_header hdr w f = (case hdr of Inl e \<Rightarrow> (Inl e, w) | Inr bs \<Rightarrow> f bs)"

fun av_write :: "av_packet write_fun" where
  "av_write (Codec h) w = with_header (codec_serialize h) w (\<lambda>hdr. write_all hdr w)"
| "av_write (Media h payload) w =
     with_header (media_serialize h) w (\<lambda>hdr. then_write (write_all hdr w) (write_all payload))"
| "av_write (Hole h) w = with_header (hole_serialize h) w (\<lambda>hdr. write_all hdr w)"

definition av_read :: "av_packet read_fun" where
  "av_read r =
     read_or_eof SERIALIZED_SIZE r (\<lambda>hdr r1.
     and_then (av_header_deserialize hdr) (\<lambda>header.
     case header of
       MediaH h \<Rightarrow>
         and_then (read_exact (unat (msize h)) r1) (\<lambda>(payload, r2).
         Inr (Some (Media h payload, r2)))
     | CodecH h \<Rightarrow> Inr (Some (Codec h, r1))
     | HoleH h \<Rightarrow> Inr (Some (Hole h, r1))))"

text \<open>
  The packets the wire format can carry: a codec tag that is neither zero (a hole) nor has
  its top bit set (a media packet), a time stamp of 61 bits, the size of the payload in the
  header, and a hole of at least one sample.
\<close>

fun av_valid :: "av_packet \<Rightarrow> bool" where
  "av_valid (Codec h) = (codec h \<noteq> 0 \<and> codec h < 0x80000000)"
| "av_valid (Media h payload) = (pts h < 0x2000000000000000 \<and> length payload = unat (msize h))"
| "av_valid (Hole h) = (0 < missing_audio_samples h)"

fun av_enc :: "av_packet \<Rightarrow> bytes" where
  "av_enc (Codec h) = projr (codec_serialize h)"
| "av_enc (Media h payload) = projr (media_serialize h) @ payload"
| "av_enc (Hole h) = projr (hole_serialize h)"

subsection \<open>Header bits\<close>

lemma byte_flag: "(b::u8) AND 0x80 = 0 \<longleftrightarrow> unat b < 128"
proof -
  have "b AND 0x80 = 0 \<longleftrightarrow> \<not> bit b 7"
    using bit_iff_and_push_bit_not_eq_0 [of b 7] by (simp add: push_bit_eq_mult)
  also have "\<dots> \<longleftrightarrow> \<not> bit (unat b) 7" by (simp add: bit_unsigned_iff)
  also have "\<dots> \<longleftrightarrow> even (unat b div 128)" by (simp add: bit_iff_odd)
  also have "\<dots> \<longleftrightarrow> unat b < 128"
  proof (cases "unat b < 128")
    case False
    then have "unat b div 128 = 1" using unat_lt_256 [of b] by simp
    with False show ?thesis by simp
  qed simp
  finally show ?thesis .
qed

lemma put_first [header_simps]:
  "unat (put_u32 w ! 0) = unat w div 2 ^ 24" "unat (put_u64 v ! 0) = unat v div 2 ^ 56"
proof -
  have n: "(4::nat) = Suc 3" "(8::nat) = Suc 7" by simp_all
  have "put_u32 w ! 0 = of_nat (unat w div 256 ^ 3)" "put_u64 v ! 0 = of_nat (unat v div 256 ^ 7)"
    unfolding put_u32_def put_u64_def n hd_be_nat by (rule refl)+
  moreover have "unat w div 2 ^ 24 < 256" "unat v div 2 ^ 56 < 256"
    using unsigned_less [of w, where 'a = nat] unsigned_less [of v, where 'a = nat]
    by (simp_all add: less_mult_imp_div_less)
  ultimately show "unat (put_u32 w ! 0) = unat w div 2 ^ 24"
    "unat (put_u64 v ! 0) = unat v div 2 ^ 56"
    by (simp_all add: unat_of_nat)
qed

lemma bit63_ge:
  assumes "bit (w::u64) 63"
  shows "2 ^ 63 \<le> unat w"
proof (rule ccontr)
  assume "\<not> 2 ^ 63 \<le> unat w"
  then have "\<not> bit (unat w) 63" by (simp add: bit_iff_odd)
  with assms show False by (simp add: bit_unsigned_iff)
qed

lemma no_high_bits: "(w::u64) < 0x2000000000000000 \<Longrightarrow> 61 \<le> n \<Longrightarrow> \<not> bit w n"
proof -
  assume w: "w < 0x2000000000000000" and n: "61 \<le> n"
  have "unat w < 2 ^ 61" using w by (simp add: word_less_nat_alt)
  also have "(2::nat) ^ 61 \<le> 2 ^ n" using n by (intro power_increasing) auto
  finally have "unat w div 2 ^ n = 0" by simp
  then have "\<not> bit (unat w) n" by (simp add: bit_iff_odd)
  then show ?thesis by (metis bit_unsigned_iff bit_imp_le_length possible_bit_nat)
qed

lemma pts_assert: "(w::u64) AND NOT 0x1FFFFFFFFFFFFFFF = 0 \<longleftrightarrow> w < 0x2000000000000000"
proof -
  have m: "(0x1FFFFFFFFFFFFFFF::u64) = mask 61" by (simp add: mask_eq_exp_minus_1)
  have "w AND NOT (mask 61) = 0 \<longleftrightarrow> w = take_bit 61 w"
    by (auto simp: bit_eq_iff bit_simps)
  also have "\<dots> \<longleftrightarrow> unat w = take_bit 61 (unat w)"
    by (metis unsigned_take_bit_eq unsigned_word_eqI)
  also have "\<dots> \<longleftrightarrow> unat w < 2 ^ 61"
    using take_bit_nat_eq_self_iff [of 61 "unat w"] by auto
  finally show ?thesis unfolding m by (simp add: word_less_nat_alt)
qed

subsection \<open>Header round trips\<close>

lemma codec_serialize_bytes [header_simps]:
  "codec_serialize h = Inr (put_u32 (codec h) @ [rotation h] @ put_u16 (frame_size h)
                            @ [0, 0, 0, 0, 0])"
  by (simp add: codec_serialize_def codec_serialize_to_def SERIALIZED_SIZE_def eval_nat_numeral)

lemma hole_serialize_bytes [header_simps]:
  "hole_serialize h = Inr ([0, 0, 0, 0] @ put_u32 (missing_audio_samples h) @ [0, 0, 0, 0])"
  by (simp add: hole_serialize_def hole_serialize_to_def SERIALIZED_SIZE_def eval_nat_numeral)

text \<open>The first word of a media header: the time stamp below three flags.\<close>

definition media_word :: "media_packet_header \<Rightarrow> u64" where
  "media_word h = (pts h OR push_bit 63 1) OR (if is_config h then push_bit 62 1 else 0)
     OR (if is_key h then push_bit 61 1 else 0)"

lemma media_serialize_bytes [header_simps]:
  "media_serialize h =
     (if pts h < 0x2000000000000000 then Inr (put_u64 (media_word h) @ put_u32 (msize h))
      else Inl (Panic ''pts''))"
  unfolding media_serialize_def media_serialize_to_def pts_assert
  by (cases "is_config h"; cases "is_key h")
     (simp_all add: SERIALIZED_SIZE_def media_word_def Let_def or.assoc)

lemma bit_flag: "k < 64 \<Longrightarrow> bit (push_bit k 1 :: u64) n \<longleftrightarrow> n = k"
  by (auto simp: bit_simps)

lemma bit_media_word:
  "bit (media_word h) n \<longleftrightarrow>
     bit (pts h) n \<or> n = 63 \<or> n = 62 \<and> is_config h \<or> n = 61 \<and> is_key h"
proof -
  have "bit (push_bit 63 1 :: u64) n \<longleftrightarrow> n = 63" "bit (push_bit 62 1 :: u64) n \<longleftrightarrow> n = 62"
    "bit (push_bit 61 1 :: u64) n \<longleftrightarrow> n = 61"
    by (rule bit_flag; simp)+
  then show ?thesis
    unfolding media_word_def bit_or_iff by (cases "is_config h"; cases "is_key h") auto
qed

lemma media_word_bits:
  assumes "pts h < 0x2000000000000000"
  shows "bit (media_word h) 63" "bit (media_word h) 62 = is_config h"
    "bit (media_word h) 61 = is_key h" "n < 61 \<Longrightarrow> bit (media_word h) n = bit (pts h) n"
  using no_high_bits [OF assms] by (auto simp: bit_media_word)

lemma put_u32_zero: "put_u32 c ! 0 = 0 \<and> put_u32 c ! 1 = 0 \<and> put_u32 c ! 2 = 0 \<and> put_u32 c ! 3 = 0
  \<Longrightarrow> c = 0"
proof -
  assume z: "put_u32 c ! 0 = 0 \<and> put_u32 c ! 1 = 0 \<and> put_u32 c ! 2 = 0 \<and> put_u32 c ! 3 = 0"
  have "put_u32 c = replicate 4 0"
    using z by (intro nth_equalityI) (auto simp: less_Suc_eq eval_nat_numeral)
  then have "c = get_u32 (replicate 4 0)" by (metis get_put(2))
  then show "c = 0" by (simp add: get_u32_def nat_be_def eval_nat_numeral)
qed

lemma codec_header_roundtrip:
  assumes "codec h \<noteq> 0" "codec h < 0x80000000"
  shows "and_then (codec_serialize h) av_header_deserialize = Inr (CodecH h)"
proof -
  let ?b = "put_u32 (codec h) @ rotation h # put_u16 (frame_size h) @ [0, 0, 0, 0, 0]"
  have nth: "i < 4 \<Longrightarrow> ?b ! i = put_u32 (codec h) ! i" for i by (simp add: nth_append)
  have "unat (codec h) < 2 ^ 31" using assms by (simp add: word_less_nat_alt)
  then have "unat (codec h) div 2 ^ 24 < 128" by (simp add: less_mult_imp_div_less)
  then have flag: "?b ! 0 AND 0x80 = 0" by (simp add: byte_flag nth put_first)
  have nz: "\<not> (?b ! 0 = 0 \<and> ?b ! 1 = 0 \<and> ?b ! 2 = 0 \<and> ?b ! 3 = 0)"
    using put_u32_zero [of "codec h"] assms(1) by (auto simp: nth)
  have d: "drop 5 ?b = put_u16 (frame_size h) @ [0, 0, 0, 0, 0]" by simp
  have "codec_deserialize ?b = Inr h"
    unfolding codec_deserialize_def d using flag
    by (simp add: SERIALIZED_SIZE_def nth_append)
  with flag nz show ?thesis
    by (auto simp: codec_serialize_bytes av_header_deserialize_def SERIALIZED_SIZE_def)
qed

lemma media_header_roundtrip:
  assumes "pts h < 0x2000000000000000"
  shows "and_then (media_serialize h) av_header_deserialize = Inr (MediaH h)"
proof -
  let ?b = "put_u64 (media_word h) @ put_u32 (msize h)"
  have "128 \<le> unat (media_word h) div 2 ^ 56"
    using bit63_ge [OF media_word_bits(1) [OF assms]] div_le_mono [of "2 ^ 63" _ "2 ^ 56"] by simp
  then have "128 \<le> unat (?b ! 0)" by (simp add: nth_append put_first)
  then have flag: "?b ! 0 AND 0x80 \<noteq> 0" by (simp add: byte_flag)
  have f: "media_word h AND push_bit 62 1 \<noteq> 0 \<longleftrightarrow> is_config h"
    "media_word h AND push_bit 61 1 \<noteq> 0 \<longleftrightarrow> is_key h"
    unfolding bit_iff_and_push_bit_not_eq_0 [symmetric] using media_word_bits [OF assms] by auto
  have m: "push_bit 61 1 - 1 = (mask 61 :: u64)" by (simp add: mask_eq_exp_minus_1 push_bit_eq_mult)
  have "media_word h AND mask 61 = pts h"
    using no_high_bits [OF assms] leI
    by (intro bit_eqI) (auto simp: bit_and_iff bit_mask_iff bit_media_word)
  with flag f have "media_deserialize ?b = Inr h"
    unfolding media_deserialize_def m by (simp add: SERIALIZED_SIZE_def)
  with flag assms show ?thesis
    by (simp add: media_serialize_bytes av_header_deserialize_def SERIALIZED_SIZE_def)
qed

lemma hole_header_roundtrip:
  assumes "0 < missing_audio_samples h"
  shows "and_then (hole_serialize h) av_header_deserialize = Inr (HoleH h)"
  using assms
  by (simp add: hole_serialize_bytes av_header_deserialize_def hole_deserialize_def
      SERIALIZED_SIZE_def)

subsection \<open>The packet contract holds\<close>

lemma av_enc_split:
  assumes "av_valid p"
  obtains hdr h payload where "av_enc p = hdr @ payload" "length hdr = SERIALIZED_SIZE"
    "av_header_deserialize hdr = Inr h"
    "case h of CodecH c \<Rightarrow> p = Codec c \<and> payload = []
     | MediaH m \<Rightarrow> p = Media m payload \<and> length payload = unat (msize m)
     | HoleH m \<Rightarrow> p = Hole m \<and> payload = []"
proof (cases p)
  case (Codec h)
  with assms codec_header_roundtrip [of h] that [of "projr (codec_serialize h)" "[]" "CodecH h"]
  show thesis by (simp add: codec_serialize_bytes SERIALIZED_SIZE_def)
next
  case (Media h payload)
  with assms media_header_roundtrip [of h]
    that [of "projr (media_serialize h)" payload "MediaH h"]
  show thesis by (simp add: media_serialize_bytes SERIALIZED_SIZE_def)
next
  case (Hole h)
  with assms hole_header_roundtrip [of h] that [of "projr (hole_serialize h)" "[]" "HoleH h"]
  show thesis by (simp add: hole_serialize_bytes SERIALIZED_SIZE_def)
qed

lemma av_write_enc: "av_valid p \<Longrightarrow> av_write p w = write_all (av_enc p) w"
  by (cases p) (simp_all add: with_header_def codec_serialize_bytes media_serialize_bytes
      hole_serialize_bytes write_all_append [symmetric])

lemma av_read_enc:
  assumes "av_valid p" "rbuf r = av_enc p @ rest"
  shows "av_read r = Inr (Some (p, r\<lparr>rbuf := rest\<rparr>))"
proof -
  obtain hdr h payload where h: "av_enc p = hdr @ payload" "length hdr = SERIALIZED_SIZE"
    "av_header_deserialize hdr = Inr h"
    "case h of CodecH c \<Rightarrow> p = Codec c \<and> payload = []
     | MediaH m \<Rightarrow> p = Media m payload \<and> length payload = unat (msize m)
     | HoleH m \<Rightarrow> p = Hole m \<and> payload = []"
    by (rule av_enc_split [OF assms(1)])
  have "rbuf r = hdr @ payload @ rest" using h assms(2) by simp
  note rd = read_or_eof_append [OF this h(2)]
  show ?thesis unfolding av_read_def rd using h by (cases h) auto
qed

lemma av_read_progress:
  assumes "av_read r = Inr (Some (p, r'))"
  shows "length (rbuf r') < length (rbuf r)"
proof -
  obtain hdr r1 h where r1: "length hdr = 12" "rbuf r = hdr @ rbuf r1"
    and h: "(case h of
       MediaH h \<Rightarrow>
         and_then (read_exact (unat (msize h)) r1) (\<lambda>(payload, r2).
         Inr (Some (Media h payload, r2)))
     | CodecH h \<Rightarrow> Inr (Some (Codec h, r1))
     | HoleH h \<Rightarrow> Inr (Some (Hole h, r1))) = Inr (Some (p, r'))"
    using assms unfolding av_read_def read_or_eof_Some and_then_eq_Inr SERIALIZED_SIZE_def by blast
  have "length (rbuf r') \<le> length (rbuf r1)"
    using h by (cases h) (auto simp: and_then_eq_Inr read_exact_eq_Inr)
  with r1 show ?thesis by simp
qed

lemma av_read_extend:
  assumes "av_read r = Inr (Some (p, r'))" "rbuf q = rbuf r @ ext"
  shows "av_read q = Inr (Some (p, q\<lparr>rbuf := rbuf r' @ ext\<rparr>))"
proof -
  obtain hdr r1 where r1: "read_exact SERIALIZED_SIZE r = Inr (hdr, r1)"
    using assms(1) by (cases "read_exact SERIALIZED_SIZE r") (auto simp: av_read_def read_or_eof_def split: if_splits)
  then obtain h where h: "av_header_deserialize hdr = Inr h"
    using assms(1) by (cases "av_header_deserialize hdr") (auto simp: av_read_def read_or_eof_def)
  note q1 = read_exact_extend [OF r1 assms(2)]
  show ?thesis
  proof (cases h)
    case (MediaH m)
    then obtain payload where p: "read_exact (unat (msize m)) r1 = Inr (payload, r')" "p = Media m payload"
      using assms(1) r1 h by (cases "read_exact (unat (msize m)) r1") (auto simp: av_read_def read_or_eof_def)
    from read_exact_extend [OF p(1), of "q\<lparr>rbuf := rbuf r1 @ ext\<rparr>" ext] q1 h p(2) MediaH
    show ?thesis by (simp add: av_read_def read_or_eof_def)
  qed (use assms(1) r1 h q1 in \<open>auto simp: av_read_def read_or_eof_def\<close>)
qed

interpretation av: serializable_eof av_write av_read av_enc av_valid
proof (standard, goal_cases)
  case (1 p w) then show ?case by (rule av_write_enc)
next
  case (2 p r rest) then show ?case by (rule av_read_enc)
next
  case (3 r p r') then show ?case by (rule av_read_progress)
next
  case (4 r) then show ?case by (simp add: av_read_def SERIALIZED_SIZE_def read_or_eof_at_end)
qed

lemma get_u32_zero: "get_u32 [a, b, c, d] = 0 \<longleftrightarrow> a = 0 \<and> b = 0 \<and> c = 0 \<and> d = 0"
proof
  assume "get_u32 [a, b, c, d] = 0"
  then have "[a, b, c, d] = put_u32 0" using put_get(2) [of "[a, b, c, d]"] by simp
  also have "\<dots> = replicate 4 0" by (simp add: put_u32_def be_nat_0)
  also have "\<dots> = [0, 0, 0, 0]" by (simp add: numeral_eq_Suc)
  finally show "a = 0 \<and> b = 0 \<and> c = 0 \<and> d = 0" by simp
qed (simp add: get_u32_def nat_be_def)

lemma length_12:
  assumes "length buf = 12"
  obtains b0 b1 b2 b3 b4 b5 b6 b7 rest where "buf = [b0, b1, b2, b3, b4, b5, b6, b7] @ rest"
proof -
  have "take 8 buf = map ((!) buf) [0..<8]" using assms by (intro nth_equalityI) simp_all
  then have "buf = map ((!) buf) [0..<8] @ drop 8 buf" by (metis append_take_drop_id)
  also have "map ((!) buf) [0..<8] = [buf ! 0, buf ! 1, buf ! 2, buf ! 3, buf ! 4, buf ! 5, buf ! 6, buf ! 7]"
    by (simp add: upt_rec numeral_eq_Suc)
  finally show thesis by (rule that)
qed

lemma zero_header:
  assumes "length buf = 12"
  shows "take 8 buf = replicate 8 0 \<longleftrightarrow> buf ! 0 = 0 \<and> buf ! 1 = 0 \<and> buf ! 2 = 0 \<and> buf ! 3 = 0
           \<and> get_u32 (take 4 (drop 4 buf)) = 0"
proof -
  obtain b0 b1 b2 b3 b4 b5 b6 b7 rest where b: "buf = [b0, b1, b2, b3, b4, b5, b6, b7] @ rest"
    by (rule length_12 [OF assms])
  have r: "replicate 8 (0::u8) = [0, 0, 0, 0, 0, 0, 0, 0]" by (simp add: numeral_eq_Suc)
  show ?thesis by (simp add: b r get_u32_zero)
qed

lemma header_panics_iff:
  assumes "length buf = 12"
  shows "is_panic (av_header_deserialize buf) \<longleftrightarrow> take 8 buf = replicate 8 0"
proof (cases "buf ! 0 AND 0x80 = 0")
  case False
  then have "buf ! 0 \<noteq> 0" by (metis and_zero_eq and.commute)
  with False assms show ?thesis
    by (simp add: zero_header av_header_deserialize_def media_deserialize_def SERIALIZED_SIZE_def
        Let_def)
next
  case True
  show ?thesis
  proof (cases "buf ! 0 = 0 \<and> buf ! 1 = 0 \<and> buf ! 2 = 0 \<and> buf ! 3 = 0")
    case zero: True
    with assms show ?thesis
      by (simp add: zero_header av_header_deserialize_def hole_deserialize_def SERIALIZED_SIZE_def
          is_panic_and_then Let_def) (simp add: word_gt_0)
  next
    case False
    with True assms show ?thesis
      by (auto simp: zero_header av_header_deserialize_def codec_deserialize_def SERIALIZED_SIZE_def)
  qed
qed

section \<open>Data packets\<close>

record data_packet =
  data_payload :: bytes

definition MAX_DATA_PACKET_SIZE :: nat where "MAX_DATA_PACKET_SIZE = 1024 * 1024"

definition data_write :: "data_packet write_fun" where
  "data_write p w =
     (if \<not> (1 \<le> length (data_payload p) \<and> length (data_payload p) \<le> MAX_DATA_PACKET_SIZE)
      then (Inl (IoError InvalidInput ''invalid data packet size''), w)
      else let sz = of_nat (length (data_payload p)) :: u32
           in then_write (write_all (put_u32 sz) w) (write_all (data_payload p)))"

definition data_read :: "nat \<Rightarrow> data_packet read_fun" where
  "data_read chunk r =
     and_then (read_some chunk 4 r) (\<lambda>(buf, r1).
     if length buf = 0 then Inr None
     else and_then (read_exact (4 - length buf) r1) (\<lambda>(more, r2).
       let sz = unat (get_u32 (buf @ more))
       in if \<not> (1 \<le> sz \<and> sz \<le> MAX_DATA_PACKET_SIZE)
          then Inl (IoError InvalidData ''invalid data packet size'')
          else and_then (read_exact sz r2) (\<lambda>(payload, r3).
            Inr (Some (\<lparr>data_payload = payload\<rparr>, r3)))))"

definition data_valid :: "data_packet \<Rightarrow> bool" where
  "data_valid p = (1 \<le> length (data_payload p) \<and> length (data_payload p) \<le> MAX_DATA_PACKET_SIZE)"

definition data_enc :: "data_packet \<Rightarrow> bytes" where
  "data_enc p = put_u32 (of_nat (length (data_payload p))) @ data_payload p"

text \<open>The result does not depend on how the transport cuts the length prefix.\<close>

lemma data_read_eq:
  "data_read chunk r =
     (if rbuf r = [] then (case rerr r of None \<Rightarrow> Inr None | Some (k, m) \<Rightarrow> Inl (IoError k m))
      else and_then (read_exact 4 r) (\<lambda>(buf, r2).
        if \<not> (1 \<le> unat (get_u32 buf) \<and> unat (get_u32 buf) \<le> MAX_DATA_PACKET_SIZE)
        then Inl (IoError InvalidData ''invalid data packet size'')
        else and_then (read_exact (unat (get_u32 buf)) r2) (\<lambda>(payload, r3).
          Inr (Some (\<lparr>data_payload = payload\<rparr>, r3)))))"
proof (cases "rbuf r = []")
  case True
  then show ?thesis by (auto simp: data_read_def read_some_def split: option.splits)
next
  case False
  obtain as r1 where rd: "read_some chunk 4 r = Inr (as, r1)" "as \<noteq> []" "length as \<le> 4"
    "\<And>f :: bytes \<Rightarrow> reader \<Rightarrow> (data_packet \<times> reader) option result.
       and_then (read_exact (4 - length as) r1) (\<lambda>(bs, r2). f (as @ bs) r2)
          = and_then (read_exact 4 r) (\<lambda>(bs, r2). f bs r2)"
    using read_some_then_exact [of 4 r chunk] False by (metis zero_less_numeral)
  define body where "body buf r2 =
    (if \<not> (1 \<le> unat (get_u32 buf) \<and> unat (get_u32 buf) \<le> MAX_DATA_PACKET_SIZE)
     then Inl (IoError InvalidData ''invalid data packet size'')
     else and_then (read_exact (unat (get_u32 buf)) r2) (\<lambda>(payload, r3).
       Inr (Some (\<lparr>data_payload = payload\<rparr>, r3))))" for buf r2
  show ?thesis
    using rd(1,2) rd(4) [of body] False
    unfolding data_read_def Let_def body_def [symmetric] by simp
qed

lemma data_size [simp]:
  "data_valid p \<Longrightarrow> unat (of_nat (length (data_payload p)) :: u32) = length (data_payload p)"
  by (simp add: data_valid_def MAX_DATA_PACKET_SIZE_def unat_of_nat)

lemma data_read_enc:
  assumes "data_valid p" "rbuf r = data_enc p @ rest"
  shows "data_read chunk r = Inr (Some (p, r\<lparr>rbuf := rest\<rparr>))"
proof -
  have ne: "rbuf r \<noteq> []" using assms by (auto simp: data_enc_def data_valid_def)
  have "read_exact 4 r = Inr (put_u32 (of_nat (length (data_payload p))),
                              r\<lparr>rbuf := data_payload p @ rest\<rparr>)"
    using assms by (intro read_exact_append) (simp_all add: data_enc_def)
  with ne assms(1) show ?thesis by (simp add: data_read_eq) (simp add: data_valid_def)
qed

lemma data_read_progress:
  assumes "data_read chunk r = Inr (Some (p, r'))"
  shows "length (rbuf r') < length (rbuf r)"
  using assms
  by (auto simp: data_read_eq and_then_eq_Inr read_exact_eq_Inr
      split: if_splits option.splits)

interpretation data: serializable_eof data_write "data_read chunk" data_enc data_valid for chunk
proof (standard, goal_cases)
  case (1 p w) then show ?case
    by (simp add: data_write_def data_valid_def data_enc_def write_all_append)
next
  case (2 p r rest) then show ?case by (rule data_read_enc)
next
  case (3 r p r') then show ?case by (rule data_read_progress)
next
  case (4 r) then show ?case by (simp add: data_read_eq)
qed

section \<open>Input packets\<close>

record input_packet =
  ptype :: u8
  input_payload :: bytes

text \<open>\<open>u16::try_from(len).expect(..)\<close>.\<close>

definition size_u16 :: "string \<Rightarrow> bytes \<Rightarrow> u16 result" where
  "size_u16 m bs = (if length bs < 2 ^ 16 then Inr (of_nat (length bs)) else Inl (Panic m))"

definition input_write :: "input_packet write_fun" where
  "input_write p w =
     (case size_u16 ''Input packet size must fit in 16 bits'' (input_payload p) of
        Inl e \<Rightarrow> (Inl e, w)
      | Inr sz \<Rightarrow>
          then_write (write_all [ptype p] w) (\<lambda>w.
          then_write (write_all (put_u16 sz) w) (write_all (input_payload p))))"

text \<open>\<open>read_u8\<close> reports the end of the stream as an error of its own.\<close>

definition read_u8 :: "reader \<Rightarrow> (u8 \<times> reader) result" where
  "read_u8 r = (case rbuf r of
     b # bs \<Rightarrow> Inr (b, r\<lparr>rbuf := bs\<rparr>)
   | [] \<Rightarrow> Inl (end_err ''unexpected end of file'' r))"

definition input_read :: "input_packet read_fun" where
  "input_read r =
     and_then (read_u8 r) (\<lambda>(ty, r1).
     read_or_eof 2 r1 (\<lambda>buf r2.
     and_then (read_exact (unat (get_u16 buf)) r2) (\<lambda>(payload, r3).
     Inr (Some (\<lparr>ptype = ty, input_payload = payload\<rparr>, r3)))))"

definition input_valid :: "input_packet \<Rightarrow> bool" where
  "input_valid p = (length (input_payload p) < 2 ^ 16)"

definition input_enc :: "input_packet \<Rightarrow> bytes" where
  "input_enc p = ptype p # put_u16 (of_nat (length (input_payload p))) @ input_payload p"

lemma u16_size [simp]: "n < 65536 \<Longrightarrow> unat (of_nat n :: u16) = n"
  by (simp add: unat_of_nat)

lemma input_read_enc:
  assumes "input_valid p" "rbuf r = input_enc p @ rest"
  shows "input_read r = Inr (Some (p, r\<lparr>rbuf := rest\<rparr>))"
proof -
  let ?n = "of_nat (length (input_payload p)) :: u16"
  have "read_u8 r = Inr (ptype p, r\<lparr>rbuf := put_u16 ?n @ input_payload p @ rest\<rparr>)"
    using assms by (simp add: input_enc_def read_u8_def)
  then show ?thesis
    using assms(1)
    by (simp add: input_read_def input_valid_def read_or_eof_append [where bs = "put_u16 ?n"])
qed

lemma input_read_progress:
  assumes "input_read r = Inr (Some (p, r'))"
  shows "length (rbuf r') < length (rbuf r)"
proof -
  obtain ty r1 where r1: "read_u8 r = Inr (ty, r1)"
    and rest: "read_or_eof 2 r1 (\<lambda>buf r2.
     and_then (read_exact (unat (get_u16 buf)) r2) (\<lambda>(payload, r3).
     Inr (Some (\<lparr>ptype = ty, input_payload = payload\<rparr>, r3)))) = Inr (Some (p, r'))"
    using assms unfolding input_read_def and_then_eq_Inr by fast
  then have "length (rbuf r') \<le> length (rbuf r1)"
    by (auto simp: read_or_eof_Some and_then_eq_Inr read_exact_eq_Inr)
  with r1 show ?thesis by (auto simp: read_u8_def split: list.splits)
qed

interpretation input: serializable input_write input_read input_enc input_valid
proof (standard, goal_cases)
  case (1 p w)
  have "input_enc p = [ptype p] @ put_u16 (of_nat (length (input_payload p))) @ input_payload p"
    by (simp add: input_enc_def)
  then show ?case
    using 1 unfolding input_write_def size_u16_def input_valid_def
    by (simp only: write_all_append_fun if_True sum.case)
next
  case (2 p r rest) then show ?case by (rule input_read_enc)
next
  case (3 r p r') then show ?case by (rule input_read_progress)
qed

section \<open>Metrics packets\<close>

record metrics_packet =
  metrics_payload :: bytes

definition metrics_write :: "metrics_packet write_fun" where
  "metrics_write p w =
     (case size_u16 ''Metrics packet size must fit in 16 bits'' (metrics_payload p) of
        Inl e \<Rightarrow> (Inl e, w)
      | Inr sz \<Rightarrow> then_write (write_all (put_u16 sz) w) (write_all (metrics_payload p)))"

definition metrics_read :: "metrics_packet read_fun" where
  "metrics_read r =
     read_or_eof 2 r (\<lambda>buf r1.
     and_then (read_exact (unat (get_u16 buf)) r1) (\<lambda>(payload, r2).
     Inr (Some (\<lparr>metrics_payload = payload\<rparr>, r2))))"

definition metrics_valid :: "metrics_packet \<Rightarrow> bool" where
  "metrics_valid p = (length (metrics_payload p) < 2 ^ 16)"

definition metrics_enc :: "metrics_packet \<Rightarrow> bytes" where
  "metrics_enc p = put_u16 (of_nat (length (metrics_payload p))) @ metrics_payload p"

lemma metrics_read_enc:
  assumes "metrics_valid p" "rbuf r = metrics_enc p @ rest"
  shows "metrics_read r = Inr (Some (p, r\<lparr>rbuf := rest\<rparr>))"
proof -
  let ?n = "of_nat (length (metrics_payload p)) :: u16"
  have "rbuf r = put_u16 ?n @ metrics_payload p @ rest" using assms by (simp add: metrics_enc_def)
  note rd = read_or_eof_append [OF this length_put(1)]
  show ?thesis using assms(1) by (simp add: metrics_read_def rd metrics_valid_def)
qed

lemma metrics_read_progress:
  "metrics_read r = Inr (Some (p, r')) \<Longrightarrow> length (rbuf r') < length (rbuf r)"
  by (auto simp: metrics_read_def read_or_eof_Some and_then_eq_Inr read_exact_eq_Inr)

interpretation metrics: serializable_eof metrics_write metrics_read metrics_enc metrics_valid
proof (standard, goal_cases)
  case (1 p w) then show ?case
    by (simp add: metrics_write_def size_u16_def metrics_valid_def metrics_enc_def
        write_all_append)
next
  case (2 p r rest) then show ?case by (rule metrics_read_enc)
next
  case (3 r p r') then show ?case by (rule metrics_read_progress)
next
  case (4 r) then show ?case by (simp add: metrics_read_def read_or_eof_at_end)
qed

section \<open>Properties\<close>

text \<open>
  C3: A valid audio/video packet that is written and read back is the same packet, and the
  reader is left exactly behind it, whatever follows on the stream.
\<close>

theorem av_packet_roundtrip:
  assumes "av_valid p"
  shows "\<exists>w. av_write p new_writer = (Inr (), w)
             \<and> av_read \<lparr>rbuf = wout w @ rest, rerr = e\<rparr> = Inr (Some (p, \<lparr>rbuf = rest, rerr = e\<rparr>))"
proof -
  have "av_write p new_writer = (Inr (), new_writer\<lparr>wout := av_enc p\<rparr>)"
    by (simp add: av_write_enc [OF assms] new_writer_def)
  then show ?thesis by (simp add: av_read_enc [OF assms])
qed

theorem av_packet_roundtrip_witness:
  "\<exists>w. av_write (Media \<lparr>is_config = True, is_key = False, pts = 5, msize = 2\<rparr> [7, 8]) new_writer
         = (Inr (), w)
       \<and> av_read \<lparr>rbuf = wout w @ [9], rerr = None\<rparr>
         = Inr (Some (Media \<lparr>is_config = True, is_key = False, pts = 5, msize = 2\<rparr> [7, 8],
                      \<lparr>rbuf = [9], rerr = None\<rparr>))"
  by (rule av_packet_roundtrip) simp

text \<open>
  C4: Packets sent over an IPC stream and forwarded to a second stream until its end leave
  the same bytes on both streams, for audio/video, data and metrics packets; the forwarding
  loop ends without an error.
\<close>

theorem ipc_forward_faithful:
  assumes "\<forall>p \<in> set avs. av_valid p" "\<forall>p \<in> set ds. data_valid p" "\<forall>p \<in> set ms. metrics_valid p"
  shows "(\<exists>w. send_all (ipc_send av_write) avs new_writer = (Inr (), w)
            \<and> forward (ipc_recv av_read) (ipc_send av_write) \<lparr>rbuf = wout w, rerr = None\<rparr> new_writer
              = Some (Inr (), w))
       \<and> (\<exists>w. send_all (ipc_send data_write) ds new_writer = (Inr (), w)
            \<and> forward (ipc_recv (data_read chunk)) (ipc_send data_write)
                \<lparr>rbuf = wout w, rerr = None\<rparr> new_writer = Some (Inr (), w))
       \<and> (\<exists>w. send_all (ipc_send metrics_write) ms new_writer = (Inr (), w)
            \<and> forward (ipc_recv metrics_read) (ipc_send metrics_write)
                \<lparr>rbuf = wout w, rerr = None\<rparr> new_writer = Some (Inr (), w))"
  by (intro conjI av.send_forward data.send_forward metrics.send_forward assms)

theorem ipc_forward_faithful_witness:
  "\<exists>w. send_all (ipc_send av_write) [Codec \<lparr>codec = 1, rotation = 0, frame_size = 960\<rparr>,
          Hole \<lparr>missing_audio_samples = 3\<rparr>] new_writer = (Inr (), w)
       \<and> forward (ipc_recv av_read) (ipc_send av_write) \<lparr>rbuf = wout w, rerr = None\<rparr> new_writer
         = Some (Inr (), w)"
  using ipc_forward_faithful
    [of "[Codec \<lparr>codec = 1, rotation = 0, frame_size = 960\<rparr>, Hole \<lparr>missing_audio_samples = 3\<rparr>]"
        "[\<lparr>data_payload = [1, 2]\<rparr>]" "[\<lparr>metrics_payload = []\<rparr>]" 1, THEN conjunct1]
  by (simp only: list.set ball_simps av_valid.simps data_valid_def metrics_valid_def
      MAX_DATA_PACKET_SIZE_def) simp

text \<open>
  C5: Reading an audio/video packet panics on exactly one kind of input: a full header
  whose first eight bytes are zero, a hole of no samples.
\<close>

theorem av_read_panics_iff:
  "is_panic (av_read r) \<longleftrightarrow> 12 \<le> length (rbuf r) \<and> take 8 (rbuf r) = replicate 8 0"
proof -
  have "\<not> is_panic (case h of
       MediaH h \<Rightarrow> and_then (read_exact (unat (msize h)) r1) (\<lambda>(payload, r2).
         Inr (Some (Media h payload, r2)))
     | CodecH h \<Rightarrow> Inr (Some (Codec h, r1))
     | HoleH h \<Rightarrow> Inr (Some (Hole h, r1)))" for h r1
    by (cases h) (auto simp: is_panic_and_then)
  then have "is_panic (av_read r) \<longleftrightarrow>
      12 \<le> length (rbuf r) \<and> is_panic (av_header_deserialize (take 12 (rbuf r)))"
    by (simp add: av_read_def is_panic_read_or_eof SERIALIZED_SIZE_def is_panic_and_then)
  then show ?thesis by (auto simp: header_panics_iff min_def)
qed

text \<open>
  C6: A data packet is read the same way however the transport cuts its length prefix; only
  an end of the stream between two packets is a clean end; a packet that is read has a size
  in the accepted range; and a packet outside that range is refused before anything is
  written.
\<close>

theorem data_read_robust:
  "data_read chunk r = data_read chunk' r
   \<and> (data_read chunk r = Inr None \<longleftrightarrow> rbuf r = [] \<and> rerr r = None)
   \<and> (data_read chunk r = Inr (Some (p, r')) \<longrightarrow>
        1 \<le> length (data_payload p) \<and> length (data_payload p) \<le> 1048576)
   \<and> (\<not> data_valid q \<longrightarrow>
        data_write q w = (Inl (IoError InvalidInput ''invalid data packet size''), w))"
proof (intro conjI impI)
  show "data_read chunk r = data_read chunk' r" by (simp only: data_read_eq)
  show "data_read chunk r = Inr None \<longleftrightarrow> rbuf r = [] \<and> rerr r = None"
    by (auto simp: data_read_eq and_then_eq_Inr split: option.splits if_splits)
  assume "data_read chunk r = Inr (Some (p, r'))"
  then show "1 \<le> length (data_payload p)" "length (data_payload p) \<le> 1048576"
    by (auto simp: data_read_eq and_then_eq_Inr read_exact_eq_Inr MAX_DATA_PACKET_SIZE_def
        split: option.splits if_splits)
next
  assume "\<not> data_valid q"
  then show "data_write q w = (Inl (IoError InvalidInput ''invalid data packet size''), w)"
    by (auto simp: data_write_def data_valid_def)
qed

theorem data_read_robust_witness:
  "data_read 1 \<lparr>rbuf = [0, 0, 0, 1, 7], rerr = None\<rparr>
     = Inr (Some (\<lparr>data_payload = [7]\<rparr>, \<lparr>rbuf = [], rerr = None\<rparr>))
   \<and> data_read 4 \<lparr>rbuf = [0, 0, 0, 1, 7], rerr = None\<rparr>
     = Inr (Some (\<lparr>data_payload = [7]\<rparr>, \<lparr>rbuf = [], rerr = None\<rparr>))
   \<and> \<not> data_valid \<lparr>data_payload = []\<rparr>
   \<and> fst (data_write \<lparr>data_payload = []\<rparr> new_writer) \<noteq> Inr ()"
proof -
  let ?r = "\<lparr>rbuf = [0, 0, 0, 1, 7], rerr = None\<rparr> :: reader"
  let ?p = "\<lparr>data_payload = [7]\<rparr>"
  have bad: "\<not> data_valid \<lparr>data_payload = []\<rparr>" by (simp add: data_valid_def)
  have "data_read 1 ?r = Inr (Some (?p, \<lparr>rbuf = [], rerr = None\<rparr>))"
    by (simp add: data_read_eq read_exact_def get_u32_def nat_be_def MAX_DATA_PACKET_SIZE_def)
  then show ?thesis
    using bad data_read_robust
      [of 4 ?r 1 ?p "\<lparr>rbuf = [], rerr = None\<rparr>" "\<lparr>data_payload = []\<rparr>" new_writer]
    by (simp only: fst_conv) simp
qed

text \<open>
  C7: A stream of input packets that ends cleanly after its last packet is reported as an
  error: every packet is forwarded, and the forwarding loop then fails. The other packet
  types report the end of the stream instead.
\<close>

theorem input_forward_ends_in_error:
  assumes "\<forall>p \<in> set ps. input_valid p"
  shows "\<exists>w. send_all (ipc_send input_write) ps new_writer = (Inr (), w)
             \<and> forward (ipc_recv input_read) (ipc_send input_write)
                 \<lparr>rbuf = wout w, rerr = None\<rparr> new_writer
               = Some (Inl (ProtocolError ''unexpected end of file''), w)"
proof -
  let ?w = "new_writer\<lparr>wout := concat (map input_enc ps)\<rparr>"
  have s: "send_all (ipc_send input_write) ps new_writer = (Inr (), ?w)"
    by (simp add: input.send_all_enc [OF assms] new_writer_def)
  have e: "forward (ipc_recv input_read) send \<lparr>rbuf = [], rerr = None\<rparr> w
           = Some (Inl (ProtocolError ''unexpected end of file''), w)" for send w
    by (subst forward.simps) (simp add: ipc_recv_def input_read_def read_u8_def end_err_def)
  show ?thesis using s e input.forward_prefix [OF assms, where rest = "[]"] by simp
qed

theorem input_forward_ends_in_error_witness:
  "\<exists>w. send_all (ipc_send input_write) [\<lparr>ptype = 1, input_payload = [2]\<rparr>] new_writer = (Inr (), w)
       \<and> forward (ipc_recv input_read) (ipc_send input_write)
           \<lparr>rbuf = wout w, rerr = None\<rparr> new_writer
         = Some (Inl (ProtocolError ''unexpected end of file''), w)"
  by (rule input_forward_ends_in_error) (simp add: input_valid_def)

end
