(* ===== verification/Fec.thy ===== *)
theory Fec
  imports Packets
begin

text \<open>
  The validation boundary for untrusted FEC media (\<open>driver/av/fec.rs\<close>): parameters of an
  object, datagram parsing, admission budget, the object decoder and the packet readers.

  The RaptorQ codec is a crate outside the repository. The functions the code calls are
  fields of the parameter \<open>rq\<close>; the predicates \<open>partition_ok\<close> and \<open>decoder_ok\<close> state what its
  documentation promises.
\<close>

section \<open>RaptorQ\<close>

text \<open>
  Object transmission information and payload identifier, as their accessors show them.
\<close>

record oti =
  transfer_length :: u64
  symbol_size :: u16
  source_blocks :: u8
  sub_blocks :: u16
  symbol_alignment :: u8

record payload_id =
  source_block_number :: u8
  encoding_symbol_id :: u32

text \<open>
  \<open>partition\<close> splits \<open>i\<close> items into \<open>j\<close> parts: the sizes of large and small parts and how many
  there are of each. The constructor and the decoding routine may panic. The last four
  fields serve the senders: the parameters \<open>with_defaults\<close> chooses, all packets of an object
  with a number of repair symbols per block, the byte ranges of its source blocks, and its
  repair packets alone.
\<close>

record 'd raptorq =
  oti_deserialize :: "bytes \<Rightarrow> oti"
  oti_serialize :: "oti \<Rightarrow> bytes"
  payload_id_deserialize :: "bytes \<Rightarrow> payload_id"
  payload_id_serialize :: "payload_id \<Rightarrow> bytes"
  partition :: "nat \<Rightarrow> nat \<Rightarrow> nat \<times> nat \<times> nat \<times> nat"
  decoder_new :: "oti \<Rightarrow> 'd result"
  decoder_decode :: "'d \<Rightarrow> payload_id \<Rightarrow> bytes \<Rightarrow> ('d \<times> bytes option) result"
  oti_with_defaults :: "u64 \<Rightarrow> u16 \<Rightarrow> oti"
  encoded_packets :: "bytes \<Rightarrow> oti \<Rightarrow> nat \<Rightarrow> (payload_id \<times> bytes) list"
  block_offsets :: "bytes \<Rightarrow> oti \<Rightarrow> (nat \<times> nat) list"
  repair_packets :: "bytes \<Rightarrow> oti \<Rightarrow> nat \<Rightarrow> (payload_id \<times> bytes) list"

text \<open>RFC 6330, section 4.4.1.2: the partition function.\<close>

definition partition_ok :: "'d raptorq \<Rightarrow> bool" where
  "partition_ok rq \<longleftrightarrow>
     (\<forall>i j. 0 < j \<longrightarrow>
        partition rq i j = (div_ceil i j, i div j, i - i div j * j, j - (i - i div j * j)))"

section \<open>Limits and validation\<close>

definition MAX_VIDEO_PAYLOAD :: nat where "MAX_VIDEO_PAYLOAD = 64 * 1024 * 1024 + 16"
definition MAX_AUDIO_PAYLOAD :: nat where "MAX_AUDIO_PAYLOAD = 64 * 1024"
definition MAX_PENDING_OBJECTS :: nat where "MAX_PENDING_OBJECTS = 128"
definition MAX_PENDING_GROUPS :: nat where "MAX_PENDING_GROUPS = 32"
definition MAX_SOURCE_SYMBOLS :: nat where "MAX_SOURCE_SYMBOLS = 131072"
definition MAX_BLOCK_SYMBOLS :: nat where "MAX_BLOCK_SYMBOLS = 56403"
definition MEDIA_HEADER :: nat where "MEDIA_HEADER = SERIALIZED_SIZE"
definition MAX_CONFIG_PAYLOAD :: nat where "MAX_CONFIG_PAYLOAD = 1024 * 1024"

lemmas fec_limits = MAX_VIDEO_PAYLOAD_def MAX_AUDIO_PAYLOAD_def MAX_PENDING_OBJECTS_def
  MAX_PENDING_GROUPS_def MAX_SOURCE_SYMBOLS_def MAX_BLOCK_SYMBOLS_def MEDIA_HEADER_def
  MAX_CONFIG_PAYLOAD_def SERIALIZED_SIZE_def

definition invalid :: "string \<Rightarrow> fault" where
  "invalid reason = ProtocolError (''Invalid FEC media: '' @ reason)"

definition validate_oti :: "oti \<Rightarrow> nat \<Rightarrow> unit result" where
  "validate_oti oti max_payload =
     (let len = unat (transfer_length oti);
          symbol = unat (symbol_size oti);
          blocks = unat (source_blocks oti);
          alignment = unat (symbol_alignment oti);
          subs = unat (sub_blocks oti)
      in if \<not> (MEDIA_HEADER \<le> len \<and> len \<le> max_payload + MEDIA_HEADER)
         then Inl (invalid ''object length outside media limit'')
         else if symbol = 0 \<or> blocks = 0 \<or> alignment = 0 \<or> subs = 0
         then Inl (invalid ''zero RaptorQ partition parameter'')
         else if symbol mod alignment \<noteq> 0 \<or> subs > symbol div alignment
         then Inl (invalid ''invalid symbol alignment or sub-block partition'')
         else let symbols = div_ceil len symbol in
           if symbols > MAX_SOURCE_SYMBOLS \<or> blocks > symbols
              \<or> div_ceil symbols blocks > MAX_BLOCK_SYMBOLS
           then Inl (invalid ''source-symbol partition exceeds decoder bounds'')
           else Inr ())"

text \<open>
  The number of source symbols of an object. The callers divide only after
  \<open>validate_oti\<close>, which refuses a symbol size of zero.
\<close>

definition oti_symbols :: "oti \<Rightarrow> nat" where
  "oti_symbols oti = div_ceil (unat (transfer_length oti)) (unat (symbol_size oti))"

definition source_symbols_for_block :: "'d raptorq \<Rightarrow> oti \<Rightarrow> u8 \<Rightarrow> nat" where
  "source_symbols_for_block rq oti block =
     (case partition rq (oti_symbols oti mod 2 ^ 32) (unat (source_blocks oti)) of
        (large, small, large_blocks, _) \<Rightarrow> if unat block < large_blocks then large else small)"

definition validate_symbol :: "oti \<Rightarrow> payload_id \<Rightarrow> nat \<Rightarrow> unit result" where
  "validate_symbol oti pid sz =
     (if source_block_number pid \<ge> source_blocks oti
      then Inl (invalid ''source block outside object'')
      else if sz \<noteq> unat (symbol_size oti)
      then Inl (invalid ''symbol length does not match OTI'')
      else Inr ())"

text \<open>
  \<open>parse_datagram\<close>. The slice bounds hold because the header has at least 16 bytes in both
  media lanes and the datagram at least as many bytes as the header.
\<close>

definition parse_datagram ::
  "'d raptorq \<Rightarrow> bytes \<Rightarrow> nat \<Rightarrow> nat \<Rightarrow> (bytes \<times> oti \<times> payload_id) result" where
  "parse_datagram rq datagram header_size max_payload =
     (if length datagram < header_size then Inl (invalid ''truncated datagram header'')
      else if header_size < 16 then Inl (Panic ''attempt to subtract with overflow'')
      else
        let offset = header_size - 16;
            raw_oti = take 12 (drop offset datagram)
        in if raw_oti ! 5 \<noteq> 0 then Inl (invalid ''nonzero reserved OTI field'')
           else
             let oti = oti_deserialize rq raw_oti in
             and_then (validate_oti oti max_payload) (\<lambda>_.
             let pid = payload_id_deserialize rq (take 4 (drop (offset + 12) datagram)) in
             and_then (validate_symbol oti pid (length datagram - header_size)) (\<lambda>_.
             Inr (drop header_size datagram, oti, pid))))"

section \<open>Admission budget\<close>

definition reservation :: "oti \<Rightarrow> nat" where
  "reservation oti =
     3 * oti_symbols oti * unat (symbol_size oti) + 128 * oti_symbols oti
       + 4096 * unat (source_blocks oti)"

definition pending_limit :: "nat \<Rightarrow> nat" where
  "pending_limit max_payload =
     (if max_payload = MAX_VIDEO_PAYLOAD then 256 * 1024 * 1024 else 8 * 1024 * 1024)"

definition check_pending :: "nat \<Rightarrow> nat \<Rightarrow> nat \<Rightarrow> nat \<Rightarrow> unit result" where
  "check_pending objects bytes additional max_payload =
     (let limit = pending_limit max_payload in
      if objects \<ge> MAX_PENDING_OBJECTS \<or> additional > limit \<or> bytes > limit - additional
      then Inl (invalid (''pending receive budget exceeded (objects '' @ string_of_nat objects
             @ ''/'' @ string_of_nat MAX_PENDING_OBJECTS @ '', bytes '' @ string_of_nat bytes
             @ ''+'' @ string_of_nat additional @ ''/'' @ string_of_nat limit @ '')''))
      else Inr ())"

section \<open>Object decoder\<close>

record 'd object_decoder =
  od_oti :: oti
  od_decoder :: 'd
  received :: "(u8 \<times> u32) set"
  per_block :: "nat list"
  received_sources :: nat

definition object_decoder_new :: "'d raptorq \<Rightarrow> oti \<Rightarrow> nat \<Rightarrow> 'd object_decoder result" where
  "object_decoder_new rq oti max_payload =
     and_then (validate_oti oti max_payload) (\<lambda>_.
     and_then (decoder_new rq oti) (\<lambda>d.
     Inr \<lparr>od_oti = oti, od_decoder = d, received = {},
          per_block = replicate (unat (source_blocks oti)) 0, received_sources = 0\<rparr>))"

definition object_decode ::
  "'d raptorq \<Rightarrow> oti \<Rightarrow> payload_id \<Rightarrow> bytes \<Rightarrow> 'd object_decoder
     \<Rightarrow> (bytes option \<times> 'd object_decoder) result" where
  "object_decode rq oti pid data od =
     (if oti \<noteq> od_oti od then Inl (invalid ''OTI changed within one object'')
      else and_then (validate_symbol oti pid (length data)) (\<lambda>_.
        let key = (source_block_number pid, encoding_symbol_id pid) in
        if key \<in> received od then Inr (None, od)
        else
          let sources = source_symbols_for_block rq oti (source_block_number pid);
              b = unat (source_block_number pid)
          in if b \<ge> length (per_block od) then Inl (Panic ''index out of bounds'')
             else if per_block od ! b \<ge> 2 * sources + 32
             then Inl (invalid ''too many distinct symbols for one source block'')
             else
               let od' = od\<lparr>per_block := (per_block od)[b := per_block od ! b + 1],
                            received := insert key (received od),
                            received_sources := received_sources od
                              + (if unat (encoding_symbol_id pid) < sources then 1 else 0)\<rparr>
               in and_then (decoder_decode rq (od_decoder od') pid data) (\<lambda>(d, result).
                  Inr (result, od'\<lparr>od_decoder := d\<rparr>))))"

section \<open>Packets\<close>

definition media_packet :: "bytes \<Rightarrow> av_packet result" where
  "media_packet data =
     (if length data < MEDIA_HEADER \<or> data ! 0 AND 0x80 = 0
      then Inl (invalid ''reconstructed object is not a complete media packet'')
      else and_then (media_deserialize (take MEDIA_HEADER data)) (\<lambda>header.
        if is_config header \<or> unat (msize header) \<noteq> length data - MEDIA_HEADER
        then Inl (invalid ''reconstructed media type or length mismatch'')
        else Inr (Media header (drop MEDIA_HEADER data))))"

definition read_stream_packet :: "reader \<Rightarrow> nat \<Rightarrow> (av_packet \<times> reader) result" where
  "read_stream_packet stream max_payload =
     and_then (map_err protocol_error_new (read_exact MEDIA_HEADER stream)) (\<lambda>(raw, s1).
     if raw ! 0 AND 0x80 = 0 then
       if take 4 raw = [0, 0, 0, 0] then Inl (invalid ''unexpected hole record from sender'')
       else and_then (codec_deserialize raw) (\<lambda>h. Inr (Codec h, s1))
     else
       and_then (media_deserialize raw) (\<lambda>header.
       if \<not> is_config header \<or> unat (msize header) > min max_payload MAX_CONFIG_PAYLOAD
       then Inl (invalid ''invalid reliable config type or length'')
       else and_then (map_err protocol_error_new (read_exact (unat (msize header)) s1))
              (\<lambda>(payload, s2). Inr (Media header payload, s2))))"

section \<open>What validation establishes\<close>

text \<open>
  The parameters for which RFC 6330 defines a code; the decoder may panic on others.
\<close>

definition rfc_oti :: "oti \<Rightarrow> bool" where
  "rfc_oti oti \<longleftrightarrow>
     0 < unat (symbol_size oti) \<and> 0 < unat (source_blocks oti)
     \<and> 0 < unat (symbol_alignment oti) \<and> 0 < unat (sub_blocks oti)
     \<and> unat (symbol_alignment oti) dvd unat (symbol_size oti)
     \<and> unat (sub_blocks oti) \<le> unat (symbol_size oti) div unat (symbol_alignment oti)
     \<and> unat (source_blocks oti) \<le> oti_symbols oti
     \<and> div_ceil (oti_symbols oti) (unat (source_blocks oti)) \<le> 56403"

text \<open>
  The documented behaviour of the decoder: it accepts RFC parameters and, for an object it
  was made for (\<open>good\<close>), every symbol of the object's symbol size in one of its blocks.
\<close>

definition decoder_ok :: "'d raptorq \<Rightarrow> (oti \<Rightarrow> 'd \<Rightarrow> bool) \<Rightarrow> bool" where
  "decoder_ok rq good \<longleftrightarrow>
     (\<forall>oti. rfc_oti oti \<longrightarrow> (\<exists>d. decoder_new rq oti = Inr d \<and> good oti d))
     \<and> (\<forall>oti d pid data. good oti d \<and> source_block_number pid < source_blocks oti
          \<and> length data = unat (symbol_size oti) \<longrightarrow>
          (\<exists>d' res. decoder_decode rq d pid data = Inr (d', res) \<and> good oti d'))"

lemma validate_oti_iff:
  "validate_oti oti m = Inr () \<longleftrightarrow>
     rfc_oti oti \<and> 12 \<le> unat (transfer_length oti) \<and> unat (transfer_length oti) \<le> m + 12
     \<and> oti_symbols oti \<le> 131072"
  by (auto simp: validate_oti_def rfc_oti_def Let_def fec_limits oti_symbols_def mod_eq_0_iff_dvd
      split: if_splits)

lemma validate_oti_no_panic [simp]: "\<not> is_panic (validate_oti oti m)"
  by (simp add: validate_oti_def Let_def invalid_def)

lemma validate_symbol_no_panic [simp]: "\<not> is_panic (validate_symbol oti pid n)"
  by (simp add: validate_symbol_def invalid_def)

lemma validate_symbol_iff:
  "validate_symbol oti pid n = Inr () \<longleftrightarrow>
     source_block_number pid < source_blocks oti \<and> n = unat (symbol_size oti)"
  by (auto simp: validate_symbol_def)

lemma symbols_times_size:
  "rfc_oti oti \<Longrightarrow> oti_symbols oti * unat (symbol_size oti)
     < unat (transfer_length oti) + unat (symbol_size oti)"
proof -
  assume "rfc_oti oti"
  then have s: "0 < unat (symbol_size oti)" by (simp add: rfc_oti_def)
  let ?l = "unat (transfer_length oti)" and ?s = "unat (symbol_size oti)"
  have e: "?l = ?l div ?s * ?s + ?l mod ?s" by simp
  have "div_ceil ?l ?s * ?s < ?l + ?s"
  proof (cases "?l mod ?s = 0")
    case True
    then show ?thesis using s e by (simp add: div_ceil_def)
  next
    case False
    then have "div_ceil ?l ?s * ?s = ?l div ?s * ?s + ?s" by (simp add: div_ceil_def)
    with False e show ?thesis by linarith
  qed
  then show ?thesis by (simp add: oti_symbols_def)
qed

lemma reservation_bound:
  assumes "validate_oti oti MAX_VIDEO_PAYLOAD = Inr ()"
  shows "reservation oti < 256 * 1024 * 1024"
proof -
  have r: "rfc_oti oti" and l: "unat (transfer_length oti) \<le> 67108892"
    and n: "oti_symbols oti \<le> 131072"
    using assms by (auto simp: validate_oti_iff fec_limits)
  have s: "unat (symbol_size oti) < 65536" and b: "unat (source_blocks oti) < 256"
    using unsigned_less [of "symbol_size oti", where 'a = nat]
      unsigned_less [of "source_blocks oti", where 'a = nat] by simp_all
  have "oti_symbols oti * unat (symbol_size oti) < 67174428"
    using symbols_times_size [OF r] l s by linarith
  then show ?thesis using n b by (simp add: reservation_def)
qed

subsection \<open>Source symbols of a block\<close>

lemma partition_sum:
  assumes "0 < (J::nat)"
  shows "(\<Sum>b<J. if b < I - I div J * J then div_ceil I J else I div J) = I"
proof -
  define q r where "q = I div J" and "r = I mod J"
  have I: "I = q * J + r" and r: "r < J" using assms by (simp_all add: q_def r_def)
  have rr: "I - q * J = r" by (simp add: q_def r_def minus_div_mult_eq_mod)
  have "(\<Sum>b<J. if b < r then div_ceil I J else q) = (\<Sum>b<J. q + (if b < r then 1 else 0))"
    by (rule sum.cong) (auto simp: div_ceil_def q_def r_def)
  also have "\<dots> = J * q + card {b \<in> {..<J}. b < r}"
    by (simp add: sum.distrib sum.If_cases Int_def)
  also have "{b \<in> {..<J}. b < r} = {..<r}" using r by auto
  finally have sum: "(\<Sum>b<J. if b < r then div_ceil I J else q) = J * q + r" by simp
  have e: "J * q + r = I" using I by (metis mult.commute)
  show ?thesis unfolding q_def [symmetric] rr using sum e by (rule trans)
qed

lemma sources_sum:
  assumes "partition_ok rq" "validate_oti oti m = Inr ()"
  shows "(\<Sum>b<unat (source_blocks oti). source_symbols_for_block rq oti (of_nat b)) = oti_symbols oti"
proof -
  have J: "0 < unat (source_blocks oti)" and n: "oti_symbols oti \<le> 131072"
    using assms(2) by (auto simp: validate_oti_iff rfc_oti_def)
  have m: "oti_symbols oti mod 2 ^ 32 = oti_symbols oti" using n by simp
  have lt: "unat (source_blocks oti) < 256" by (rule unat_lt_256)
  have "source_symbols_for_block rq oti (of_nat b) =
      (if b < oti_symbols oti - oti_symbols oti div unat (source_blocks oti) * unat (source_blocks oti)
       then div_ceil (oti_symbols oti) (unat (source_blocks oti))
       else oti_symbols oti div unat (source_blocks oti))" if "b < unat (source_blocks oti)" for b
    unfolding source_symbols_for_block_def m
    using assms(1) J that lt by (simp add: partition_ok_def unat_of_nat)
  then show ?thesis using partition_sum [OF J, of "oti_symbols oti"] by simp
qed

lemma card_u32_below: "card {e :: u32. unat e < n} \<le> n"
proof -
  have "inj_on unat {e :: u32. unat e < n}" by (auto intro!: inj_onI unsigned_word_eqI)
  moreover have "unat ` {e :: u32. unat e < n} \<subseteq> {..<n}" by auto
  ultimately show ?thesis using card_inj_on_le [of unat _ "{..<n}"] by simp
qed

section \<open>Invariant of the object decoder\<close>

text \<open>
  The bookkeeping agrees with the set of symbols received: one counter per block, which
  counts the distinct symbols of the block and never passes the cap, and the number of
  distinct source symbols.
\<close>

definition source_key :: "'d raptorq \<Rightarrow> oti \<Rightarrow> u8 \<times> u32 \<Rightarrow> bool" where
  "source_key rq oti k \<longleftrightarrow> unat (snd k) < source_symbols_for_block rq oti (fst k)"

definition od_inv :: "'d raptorq \<Rightarrow> (oti \<Rightarrow> 'd \<Rightarrow> bool) \<Rightarrow> nat \<Rightarrow> 'd object_decoder \<Rightarrow> bool" where
  "od_inv rq good m od \<longleftrightarrow>
     validate_oti (od_oti od) m = Inr () \<and> good (od_oti od) (od_decoder od)
     \<and> length (per_block od) = unat (source_blocks (od_oti od)) \<and> finite (received od)
     \<and> (\<forall>k \<in> received od. fst k < source_blocks (od_oti od))
     \<and> (\<forall>b < length (per_block od).
          per_block od ! b = card {k \<in> received od. unat (fst k) = b}
          \<and> per_block od ! b \<le> 2 * source_symbols_for_block rq (od_oti od) (of_nat b) + 32)
     \<and> received_sources od = card {k \<in> received od. source_key rq (od_oti od) k}"

lemma object_decoder_new_inv:
  assumes "decoder_ok rq good" "object_decoder_new rq oti m = Inr od"
  shows "od_inv rq good m od" "od_oti od = oti"
proof -
  obtain d where v: "validate_oti oti m = Inr ()" and d: "decoder_new rq oti = Inr d"
    and od: "od = \<lparr>od_oti = oti, od_decoder = d, received = {},
          per_block = replicate (unat (source_blocks oti)) 0, received_sources = 0\<rparr>"
    using assms(2) by (auto simp: object_decoder_new_def and_then_eq_Inr)
  have "good oti d" using assms(1) v d by (auto simp: decoder_ok_def validate_oti_iff)
  with v od show "od_inv rq good m od" "od_oti od = oti" by (auto simp: od_inv_def)
qed

lemma object_decoder_new_no_panic:
  "decoder_ok rq good \<Longrightarrow> \<not> is_panic (object_decoder_new rq oti m)"
  by (auto simp: object_decoder_new_def is_panic_and_then decoder_ok_def validate_oti_iff)

lemma object_decode_no_panic:
  assumes "decoder_ok rq good" "od_inv rq good m od"
  shows "\<not> is_panic (object_decode rq oti pid data od)"
proof -
  have "\<not> is_panic (decoder_decode rq (od_decoder od) pid data)"
    if "oti = od_oti od" "validate_symbol oti pid (length data) = Inr ()"
  proof -
    from that assms(2) have "good (od_oti od) (od_decoder od)"
      "source_block_number pid < source_blocks (od_oti od)"
      "length data = unat (symbol_size (od_oti od))"
      by (auto simp: od_inv_def validate_symbol_iff)
    then obtain d' res where "decoder_decode rq (od_decoder od) pid data = Inr (d', res)"
      using assms(1) unfolding decoder_ok_def by blast
    then show ?thesis by simp
  qed
  moreover have "unat (source_block_number pid) < length (per_block od)"
    if "oti = od_oti od" "validate_symbol oti pid (length data) = Inr ()"
    using that assms(2) by (simp add: od_inv_def validate_symbol_iff word_less_nat_alt)
  ultimately show ?thesis
    by (auto simp: object_decode_def is_panic_and_then Let_def invalid_def not_le)
qed

lemma decoder_ok_decode:
  assumes "decoder_ok rq good" "good oti d" "source_block_number pid < source_blocks oti"
    "length data = unat (symbol_size oti)"
  shows "\<exists>d' res. decoder_decode rq d pid data = Inr (d', res) \<and> good oti d'"
  using assms unfolding decoder_ok_def by blast

lemma card_filter_insert:
  assumes "finite R" "key \<notin> R"
  shows "card {k. (k = key \<or> k \<in> R) \<and> P k} = card {k \<in> R. P k} + (if P key then 1 else 0)"
proof -
  have "{k. (k = key \<or> k \<in> R) \<and> P k} = (if P key then insert key {k \<in> R. P k} else {k \<in> R. P k})"
    by auto
  with assms show ?thesis by simp
qed

text \<open>A successful decode either saw a known symbol and did nothing, or recorded a new one.\<close>

lemma object_decode_cases:
  assumes "object_decode rq oti pid data od = Inr (res, od')"
  obtains (known) "oti = od_oti od" "res = None" "od' = od"
    "(source_block_number pid, encoding_symbol_id pid) \<in> received od"
  | (fresh) d where "oti = od_oti od" "validate_symbol oti pid (length data) = Inr ()"
    "(source_block_number pid, encoding_symbol_id pid) \<notin> received od"
    "unat (source_block_number pid) < length (per_block od)"
    "per_block od ! unat (source_block_number pid)
       < 2 * source_symbols_for_block rq oti (source_block_number pid) + 32"
    "decoder_decode rq (od_decoder od) pid data = Inr (d, res)"
    "od' = od\<lparr>od_decoder := d,
       per_block := (per_block od)[unat (source_block_number pid) :=
                      per_block od ! unat (source_block_number pid) + 1],
       received := insert (source_block_number pid, encoding_symbol_id pid) (received od),
       received_sources := received_sources od
         + (if source_key rq oti (source_block_number pid, encoding_symbol_id pid) then 1 else 0)\<rparr>"
proof -
  let ?key = "(source_block_number pid, encoding_symbol_id pid)"
  let ?b = "unat (source_block_number pid)"
  let ?src = "source_symbols_for_block rq oti (source_block_number pid)"
  have o: "oti = od_oti od" using assms by (auto simp: object_decode_def split: if_splits)
  have v: "validate_symbol oti pid (length data) = Inr ()"
    using assms o by (auto simp: object_decode_def and_then_eq_Inr)
  show thesis
  proof (cases "?key \<in> received od")
    case True
    with assms o v known show thesis by (simp add: object_decode_def Let_def)
  next
    case False
    have b: "?b < length (per_block od)"
      using assms o v False by (auto simp: object_decode_def Let_def split: if_splits)
    have c: "per_block od ! ?b < 2 * ?src + 32"
      using assms o v False b by (auto simp: object_decode_def Let_def split: if_splits)
    from assms o v False b c fresh [OF o v False b c] show thesis
      by (auto simp: object_decode_def Let_def and_then_eq_Inr source_key_def)
  qed
qed

lemma object_decode_inv:
  assumes "decoder_ok rq good" "od_inv rq good m od" "object_decode rq oti pid data od = Inr (res, od')"
  shows "od_inv rq good m od'" "od_oti od' = od_oti od"
proof -
  show "od_oti od' = od_oti od" by (rule object_decode_cases [OF assms(3)]) auto
  show "od_inv rq good m od'"
    using assms(3)
  proof (cases rule: object_decode_cases)
    case known
    with assms(2) show ?thesis by simp
  next
    case (fresh d)
    let ?key = "(source_block_number pid, encoding_symbol_id pid)"
    have sym: "source_block_number pid < source_blocks oti" "length data = unat (symbol_size oti)"
      using fresh(2) by (auto simp: validate_symbol_iff)
    have g: "good oti d"
      using decoder_ok_decode [OF assms(1) _ sym, of "od_decoder od"] assms(2) fresh(1,6)
      by (auto simp: od_inv_def)
    have fin: "finite (received od)" using assms(2) by (simp add: od_inv_def)
    note cnt = card_filter_insert [OF fin fresh(3)]
    have "per_block od' ! b = card {k \<in> received od'. unat (fst k) = b}
          \<and> per_block od' ! b \<le> 2 * source_symbols_for_block rq (od_oti od') (of_nat b) + 32"
      if "b < length (per_block od')" for b
    proof (cases "b = unat (source_block_number pid)")
      case True
      with that assms(2) fresh(1,5) show ?thesis
        by (simp add: fresh(7) cnt od_inv_def)
    next
      case False
      with that assms(2) fresh(1) show ?thesis by (auto simp: fresh(7) cnt od_inv_def)
    qed
    moreover have "received_sources od' = card {k \<in> received od'. source_key rq (od_oti od') k}"
      using assms(2) fresh(1) by (simp add: fresh(7) cnt od_inv_def)
    moreover have "validate_oti (od_oti od') m = Inr ()" "good (od_oti od') (od_decoder od')"
      "length (per_block od') = unat (source_blocks (od_oti od'))" "finite (received od')"
      "\<forall>k \<in> received od'. fst k < source_blocks (od_oti od')"
      using assms(2) fresh(1) g sym by (auto simp: od_inv_def fresh(7))
    ultimately show ?thesis unfolding od_inv_def by blast
  qed
qed

lemma received_sources_le:
  assumes "partition_ok rq" "od_inv rq good m od"
  shows "received_sources od \<le> oti_symbols (od_oti od)"
proof -
  let ?n = "unat (source_blocks (od_oti od))"
  let ?S = "\<lambda>b. source_symbols_for_block rq (od_oti od) (of_nat b)"
  have v: "validate_oti (od_oti od) m = Inr ()" using assms(2) by (simp add: od_inv_def)
  let ?A = "\<lambda>b. (\<lambda>e. (of_nat b :: u8, e)) ` {e :: u32. unat e < ?S b}"
  have fin: "finite (?A b)" for b by (rule finite_imageI) (rule finite_subset [OF subset_UNIV finite])
  have "{k \<in> received od. source_key rq (od_oti od) k} \<subseteq> (\<Union>b<?n. ?A b)"
  proof
    fix k assume k: "k \<in> {k \<in> received od. source_key rq (od_oti od) k}"
    then have "fst k < source_blocks (od_oti od)" using assms(2) by (auto simp: od_inv_def)
    then have "unat (fst k) < ?n" by (simp add: word_less_nat_alt)
    moreover have "k \<in> ?A (unat (fst k))"
      using k by (cases k) (auto simp: source_key_def)
    ultimately show "k \<in> (\<Union>b<?n. ?A b)" by blast
  qed
  then have "card {k \<in> received od. source_key rq (od_oti od) k} \<le> card (\<Union>b<?n. ?A b)"
    using fin by (intro card_mono) auto
  also have "\<dots> \<le> (\<Sum>b<?n. card (?A b))" by (rule card_UN_le) simp
  also have "\<dots> \<le> (\<Sum>b<?n. ?S b)"
  proof (rule sum_mono)
    fix b
    have "card (?A b) \<le> card {e :: u32. unat e < ?S b}"
      by (rule card_image_le) (rule finite_subset [OF subset_UNIV finite])
    then show "card (?A b) \<le> ?S b" using card_u32_below [of "?S b"] by simp
  qed
  also have "\<dots> = oti_symbols (od_oti od)" by (rule sources_sum [OF assms(1) v])
  finally show ?thesis using assms(2) by (simp add: od_inv_def)
qed

section \<open>Feeding a decoder\<close>

text \<open>The symbols of one object handed to its decoder, up to the first error.\<close>

fun decode_all ::
  "'d raptorq \<Rightarrow> (oti \<times> payload_id \<times> bytes) list \<Rightarrow> 'd object_decoder \<Rightarrow> 'd object_decoder result" where
  "decode_all rq [] od = Inr od"
| "decode_all rq ((oti, pid, data) # xs) od =
     and_then (object_decode rq oti pid data od) (\<lambda>(_, od'). decode_all rq xs od')"

lemma decode_all_inv:
  assumes "decoder_ok rq good" "od_inv rq good m od"
  shows "\<not> is_panic (decode_all rq xs od)"
    and "decode_all rq xs od = Inr od' \<Longrightarrow> od_inv rq good m od' \<and> od_oti od' = od_oti od"
proof -
  have main: "\<not> is_panic (decode_all rq xs od) \<and>
    (\<forall>od'. decode_all rq xs od = Inr od' \<longrightarrow> od_inv rq good m od' \<and> od_oti od' = od_oti od)"
    using assms(2)
  proof (induction xs arbitrary: od)
    case (Cons x xs)
    obtain oti pid data where x: "x = (oti, pid, data)" by (cases x)
    show ?case
    proof (cases "object_decode rq oti pid data od")
      case (Inl e)
      then show ?thesis
        using object_decode_no_panic [OF assms(1) Cons.prems, of oti pid data] x by simp
    next
      case (Inr y)
      obtain res od1 where y: "y = (res, od1)" by (cases y)
      have i: "od_inv rq good m od1" "od_oti od1 = od_oti od"
        using object_decode_inv [OF assms(1) Cons.prems] Inr y by auto
      have step: "decode_all rq (x # xs) od = decode_all rq xs od1" using Inr x y by simp
      show ?thesis unfolding step i(2) [symmetric] by (rule Cons.IH [OF i(1)])
    qed
  qed simp
  show "\<not> is_panic (decode_all rq xs od)" by (rule conjunct1 [OF main])
  show "decode_all rq xs od = Inr od' \<Longrightarrow> od_inv rq good m od' \<and> od_oti od' = od_oti od"
    by (rule conjunct2 [OF main, THEN spec, THEN mp])
qed

lemma card_received_le:
  assumes "partition_ok rq" "od_inv rq good m od"
  shows "card (received od) \<le> 2 * oti_symbols (od_oti od) + 32 * unat (source_blocks (od_oti od))"
proof -
  let ?n = "unat (source_blocks (od_oti od))"
  let ?S = "\<lambda>b. source_symbols_for_block rq (od_oti od) (of_nat b)"
  have v: "validate_oti (od_oti od) m = Inr ()" using assms(2) by (simp add: od_inv_def)
  have "received od = (\<Union>b<?n. {k \<in> received od. unat (fst k) = b})"
    using assms(2) by (auto simp: od_inv_def word_less_nat_alt)
  then have "card (received od) \<le> (\<Sum>b<?n. card {k \<in> received od. unat (fst k) = b})"
    using card_UN_le [of "{..<?n}" "\<lambda>b. {k \<in> received od. unat (fst k) = b}"] by simp
  also have "\<dots> \<le> (\<Sum>b<?n. 2 * ?S b + 32)"
  proof (rule sum_mono)
    fix b assume "b \<in> {..<?n}"
    then show "card {k \<in> received od. unat (fst k) = b} \<le> 2 * ?S b + 32"
      using assms(2) by (auto simp: od_inv_def)
  qed
  also have "\<dots> = 2 * oti_symbols (od_oti od) + 32 * ?n"
    using sources_sum [OF assms(1) v] by (simp add: sum.distrib sum_distrib_left [symmetric])
  finally show ?thesis .
qed

end
