(* ===== verification/Reference_Codec.thy ===== *)
theory Reference_Codec
  imports Fec
begin

text \<open>
  A small systematic codec that has the documented properties of the RaptorQ functions the
  drivers call: RFC 6330 wire layouts and partition, and a decoder that returns an object
  as soon as all its source symbols are there. It has no repair symbols. The witnesses of the
  properties about FEC instantiate the codec parameter with it.
\<close>

definition ref_partition :: "nat \<Rightarrow> nat \<Rightarrow> nat \<times> nat \<times> nat \<times> nat" where
  "ref_partition i j = (div_ceil i j, i div j, i - i div j * j, j - (i - i div j * j))"

text \<open>RFC 6330, sections 3.3.2 and 3.3.3: the object information on the wire.\<close>

definition ref_oti_serialize :: "oti \<Rightarrow> bytes" where
  "ref_oti_serialize oti =
     be_nat 5 (unat (transfer_length oti)) @ [0] @ put_u16 (symbol_size oti)
       @ [source_blocks oti] @ put_u16 (sub_blocks oti) @ [symbol_alignment oti]"

definition ref_oti_deserialize :: "bytes \<Rightarrow> oti" where
  "ref_oti_deserialize bs =
     \<lparr>transfer_length = of_nat (nat_be (take 5 bs)), symbol_size = get_u16 (take 2 (drop 6 bs)),
      source_blocks = bs ! 8, sub_blocks = get_u16 (take 2 (drop 9 bs)),
      symbol_alignment = bs ! 11\<rparr>"

definition ref_id_serialize :: "payload_id \<Rightarrow> bytes" where
  "ref_id_serialize pid = source_block_number pid # be_nat 3 (unat (encoding_symbol_id pid))"

definition ref_id_deserialize :: "bytes \<Rightarrow> payload_id" where
  "ref_id_deserialize bs =
     \<lparr>source_block_number = bs ! 0, encoding_symbol_id = of_nat (nat_be (take 3 (drop 1 bs)))\<rparr>"

text \<open>The decoder keeps what it received; the source symbols of all blocks make the object.\<close>

type_synonym ref_decoder = "oti \<times> ((u8 \<times> u32) \<times> bytes) list"

definition ref_keys :: "oti \<Rightarrow> (u8 \<times> u32) list" where
  "ref_keys oti =
     (case ref_partition (oti_symbols oti) (unat (source_blocks oti)) of
        (large, small, large_blocks, _) \<Rightarrow>
          concat (map (\<lambda>b. map (\<lambda>e. (of_nat b, of_nat e))
            [0..<(if b < large_blocks then large else small)]) [0..<unat (source_blocks oti)]))"

definition ref_decode ::
  "ref_decoder \<Rightarrow> payload_id \<Rightarrow> bytes \<Rightarrow> (ref_decoder \<times> bytes option) result" where
  "ref_decode d pid data =
     (let oti = fst d;
          got = ((source_block_number pid, encoding_symbol_id pid), data) # snd d
      in Inr ((oti, got),
        if list_all (\<lambda>k. map_of got k \<noteq> None) (ref_keys oti)
        then Some (take (unat (transfer_length oti)) (concat (map (\<lambda>k. the (map_of got k)) (ref_keys oti))))
        else None))"

text \<open>One source block; symbols of the given size, the last one padded with zeros.\<close>

definition ref_with_defaults :: "u64 \<Rightarrow> u16 \<Rightarrow> oti" where
  "ref_with_defaults len mtu =
     \<lparr>transfer_length = len, symbol_size = mtu, source_blocks = 1, sub_blocks = 1,
      symbol_alignment = 1\<rparr>"

definition ref_encoded_packets :: "bytes \<Rightarrow> oti \<Rightarrow> nat \<Rightarrow> (payload_id \<times> bytes) list" where
  "ref_encoded_packets data oti repairs =
     (let s = unat (symbol_size oti); n = div_ceil (length data) s;
          padded = data @ replicate (n * s - length data) 0
      in map (\<lambda>i. (\<lparr>source_block_number = 0, encoding_symbol_id = of_nat i\<rparr>,
                   take s (drop (i * s) padded))) [0..<n])"

definition ref_codec :: "ref_decoder raptorq" where
  "ref_codec =
     \<lparr>oti_deserialize = ref_oti_deserialize, oti_serialize = ref_oti_serialize,
      payload_id_deserialize = ref_id_deserialize, payload_id_serialize = ref_id_serialize,
      partition = ref_partition, decoder_new = (\<lambda>oti. Inr (oti, [])),
      decoder_decode = ref_decode, oti_with_defaults = ref_with_defaults,
      encoded_packets = ref_encoded_packets,
      block_offsets = (\<lambda>data oti. [(0, div_ceil (length data) (unat (symbol_size oti))
                                         * unat (symbol_size oti))]),
      repair_packets = (\<lambda>data oti n. [])\<rparr>"

lemma ref_codec_simps [simp]:
  "oti_deserialize ref_codec = ref_oti_deserialize" "oti_serialize ref_codec = ref_oti_serialize"
  "payload_id_deserialize ref_codec = ref_id_deserialize"
  "payload_id_serialize ref_codec = ref_id_serialize" "partition ref_codec = ref_partition"
  "decoder_new ref_codec oti = Inr (oti, [])" "decoder_decode ref_codec = ref_decode"
  "oti_with_defaults ref_codec = ref_with_defaults"
  "encoded_packets ref_codec = ref_encoded_packets"
  by (simp_all add: ref_codec_def)

lemma ref_partition_ok: "partition_ok ref_codec"
  by (simp add: partition_ok_def ref_partition_def)

lemma ref_decoder_ok: "decoder_ok ref_codec (\<lambda>oti d. fst d = oti)"
  by (auto simp: decoder_ok_def ref_decode_def Let_def)

section \<open>Properties of the validation boundary\<close>

text \<open>
  C8: Parsing a datagram of either media lane never panics, and a datagram that parses has
  parameters for which the code is defined, a length within the media limit, a symbol
  of one of its blocks and exactly one symbol of payload. So no decoder is constructed and
  nothing is allocated from unchecked parameters.
\<close>

theorem parse_datagram_boundary:
  assumes "16 \<le> h"
  shows "\<not> is_panic (parse_datagram rq dg h m)
       \<and> (parse_datagram rq dg h m = Inr (data, oti, pid) \<longrightarrow>
            rfc_oti oti \<and> unat (transfer_length oti) \<le> m + 12 \<and> oti_symbols oti \<le> 131072
            \<and> source_block_number pid < source_blocks oti
            \<and> length data = unat (symbol_size oti) \<and> dg = take h dg @ data)"
  using assms
  by (auto simp: parse_datagram_def Let_def is_panic_and_then and_then_eq_Inr validate_oti_iff
      validate_symbol_iff invalid_def split: if_splits)

definition sample_oti :: oti where
  "sample_oti = \<lparr>transfer_length = 13, symbol_size = 16, source_blocks = 1, sub_blocks = 1,
     symbol_alignment = 1\<rparr>"

lemma sample_oti_valid: "validate_oti sample_oti MAX_VIDEO_PAYLOAD = Inr ()"
  by (simp add: validate_oti_iff rfc_oti_def sample_oti_def oti_symbols_def div_ceil_def fec_limits)

definition sample_datagram :: bytes where
  "sample_datagram = replicate 10 0 @ ref_oti_serialize sample_oti
     @ ref_id_serialize \<lparr>source_block_number = 0, encoding_symbol_id = 0\<rparr> @ replicate 16 7"

lemma sample_datagram_bytes:
  "sample_datagram = [0, 0, 0, 0, 0, 0, 0, 0, 0, 0,
     0, 0, 0, 0, 13, 0, 0, 16, 1, 0, 1, 1, 0, 0, 0, 0] @ replicate 16 7"
  by (simp add: sample_datagram_def ref_oti_serialize_def sample_oti_def put_u16_def
      ref_id_serialize_def be_nat_numeral replicate_numeral)

lemma sample_datagram_parses:
  "parse_datagram ref_codec sample_datagram 26 MAX_VIDEO_PAYLOAD
   = Inr (replicate 16 7, sample_oti, \<lparr>source_block_number = 0, encoding_symbol_id = 0\<rparr>)"
proof -
  have "oti_deserialize ref_codec [0, 0, 0, 0, 13, 0, 0, 16, 1, 0, 1, 1] = sample_oti"
    by (simp add: ref_oti_deserialize_def nat_be_def get_u16_def sample_oti_def)
  moreover have "payload_id_deserialize ref_codec [0, 0, 0, 0]
    = \<lparr>source_block_number = 0, encoding_symbol_id = 0\<rparr>"
    by (simp add: ref_id_deserialize_def nat_be_def)
  moreover have "validate_symbol sample_oti \<lparr>source_block_number = 0, encoding_symbol_id = 0\<rparr> 16 = Inr ()"
    by (simp add: validate_symbol_def sample_oti_def)
  moreover have "length sample_datagram = 42" "sample_datagram ! 15 = 0" "drop 26 sample_datagram = replicate 16 7"
    "take 12 (drop 10 sample_datagram) = [0, 0, 0, 0, 13, 0, 0, 16, 1, 0, 1, 1]"
    "take 4 (drop 22 sample_datagram) = [0, 0, 0, 0]"
    by (simp_all add: sample_datagram_bytes replicate_numeral)
  ultimately show ?thesis
    by (simp add: parse_datagram_def sample_oti_valid Let_def)
qed
theorem parse_datagram_boundary_witness:
  "parse_datagram ref_codec sample_datagram 26 MAX_VIDEO_PAYLOAD
     = Inr (replicate 16 7, sample_oti, \<lparr>source_block_number = 0, encoding_symbol_id = 0\<rparr>)
   \<and> rfc_oti sample_oti"
  using parse_datagram_boundary [of 26 ref_codec sample_datagram MAX_VIDEO_PAYLOAD]
    sample_datagram_parses by simp

text \<open>
  C9: However many symbols of an object arrive, and whatever they contain, its decoder never
  panics; the distinct symbols it keeps are bounded by twice the source symbols plus 32 per
  block, and the distinct source symbols it counts never exceed those of the object, of
  which there are at most 131072.
\<close>

theorem object_decoder_bounded:
  assumes "partition_ok rq" "decoder_ok rq good"
  shows "\<not> is_panic (and_then (object_decoder_new rq oti m) (decode_all rq xs))
       \<and> (and_then (object_decoder_new rq oti m) (decode_all rq xs) = Inr od \<longrightarrow>
            card (received od) \<le> 2 * oti_symbols oti + 32 * unat (source_blocks oti)
            \<and> received_sources od \<le> oti_symbols oti \<and> oti_symbols oti \<le> 131072)"
proof (cases "object_decoder_new rq oti m")
  case (Inl e)
  then show ?thesis using object_decoder_new_no_panic [OF assms(2), of oti m] by simp
next
  case (Inr od0)
  note i = object_decoder_new_inv [OF assms(2) Inr]
  have "card (received od) \<le> 2 * oti_symbols oti + 32 * unat (source_blocks oti)
      \<and> received_sources od \<le> oti_symbols oti \<and> oti_symbols oti \<le> 131072"
    if "decode_all rq xs od0 = Inr od"
  proof -
    have j: "od_inv rq good m od" "od_oti od = oti"
      using decode_all_inv(2) [OF assms(2) i(1) that] i(2) by simp_all
    have "oti_symbols oti \<le> 131072" using j by (simp add: od_inv_def validate_oti_iff)
    with card_received_le [OF assms(1) j(1)] received_sources_le [OF assms(1) j(1)] j(2)
    show ?thesis by simp
  qed
  with decode_all_inv(1) [OF assms(2) i(1)] Inr show ?thesis by simp
qed

theorem object_decoder_bounded_witness:
  "\<exists>od. and_then (object_decoder_new ref_codec sample_oti MAX_VIDEO_PAYLOAD)
         (decode_all ref_codec [(sample_oti, \<lparr>source_block_number = 0, encoding_symbol_id = 0\<rparr>,
                                 replicate 16 7)]) = Inr od
     \<and> received_sources od = 1 \<and> oti_symbols sample_oti = 1 \<and> received_sources od \<le> 1"
proof -
  let ?pid = "\<lparr>source_block_number = 0, encoding_symbol_id = 0\<rparr>"
  have sym: "oti_symbols sample_oti = 1"
    by (simp add: oti_symbols_def sample_oti_def div_ceil_def)
  have src: "source_symbols_for_block ref_codec sample_oti 0 = 1"
    unfolding source_symbols_for_block_def sym
    by (simp add: ref_partition_def sample_oti_def div_ceil_def)
  have v: "validate_symbol sample_oti ?pid 16 = Inr ()"
    by (simp add: validate_symbol_def sample_oti_def)
  have b: "unat (source_blocks sample_oti) = 1" by (simp add: sample_oti_def)
  obtain od where od: "and_then (object_decoder_new ref_codec sample_oti MAX_VIDEO_PAYLOAD)
         (decode_all ref_codec [(sample_oti, ?pid, replicate 16 7)]) = Inr od"
    and n: "received_sources od = 1"
    by (simp add: object_decoder_new_def sample_oti_valid object_decode_def Let_def v src b
        ref_decode_def)
  from object_decoder_bounded [OF ref_partition_ok ref_decoder_ok, of sample_oti MAX_VIDEO_PAYLOAD
      "[(sample_oti, ?pid, replicate 16 7)]" od] od n sym
  show ?thesis by auto
qed

section \<open>A sample object\<close>

text \<open>One media packet of one byte, in one symbol, and the config packet before it.\<close>

definition sample_pid :: payload_id where
  "sample_pid = \<lparr>source_block_number = 0, encoding_symbol_id = 0\<rparr>"
definition sample_config :: av_packet where
  "sample_config = Media \<lparr>is_config = True, is_key = False, pts = 0, msize = 0\<rparr> []"
definition sample_media :: av_packet where
  "sample_media = Media \<lparr>is_config = False, is_key = False, pts = 0, msize = 1\<rparr> [7]"
definition sample_symbol :: bytes where
  "sample_symbol = [0x80, 0, 0, 0, 0, 0, 0, 0, 0, 0, 0, 1, 7, 0, 0, 0]"

lemma sample_symbols: "oti_symbols sample_oti = 1"
  by (simp add: oti_symbols_def sample_oti_def div_ceil_def)

lemma sample_sources: "source_symbols_for_block ref_codec sample_oti 0 = 1"
  unfolding source_symbols_for_block_def sample_symbols
  by (simp add: ref_partition_def sample_oti_def div_ceil_def)

lemma sample_reservation: "reservation sample_oti = 4272"
  unfolding reservation_def sample_symbols by (simp add: sample_oti_def)

lemma sample_oti_blocks: "unat (source_blocks sample_oti) = 1"
  by (simp add: sample_oti_def)

lemma sample_media_packet: "media_packet (take 13 sample_symbol) = Inr sample_media"
  by (simp add: media_packet_def sample_symbol_def sample_media_def media_deserialize_def fec_limits
      Let_def get_u64_def get_u32_def nat_be_def push_bit_eq_mult)

lemma sample_decode:
  "object_decode ref_codec sample_oti sample_pid sample_symbol
     \<lparr>od_oti = sample_oti, od_decoder = (sample_oti, []), received = {}, per_block = [0], received_sources = 0\<rparr>
   = Inr (Some (take 13 sample_symbol),
      \<lparr>od_oti = sample_oti, od_decoder = (sample_oti, [((0, 0), sample_symbol)]), received = {(0, 0)},
       per_block = [1], received_sources = 1\<rparr>)"
proof -
  have v: "validate_symbol sample_oti sample_pid (length sample_symbol) = Inr ()"
    by (simp add: validate_symbol_def sample_oti_def sample_pid_def sample_symbol_def)
  have k: "ref_keys sample_oti = [(0, 0)]"
    unfolding ref_keys_def sample_symbols by (simp add: ref_partition_def div_ceil_def sample_oti_def)
  have l: "unat (transfer_length sample_oti) = 13" by (simp add: sample_oti_def)
  show ?thesis
    using v by (simp add: object_decode_def Let_def sample_pid_def sample_sources ref_decode_def k l)
qed

end
