(* ===== verification/Receiver.thy ===== *)
theory Receiver
  imports Packets
begin

text \<open>
  What the processing loops of the unreliable receivers have in common: a loop that takes one
  event at a time (a message, an error, the end of the channel, a timer), forwards packets to
  the client and goes on, finishes or fails; the statistics it updates; and three contracts,
  \<open>receiver\<close> (an invariant that no event breaks, and no panic), \<open>emitting_receiver\<close> (a property
  of everything forwarded) and \<open>ordered_receiver\<close> (the sequence numbers of forwarded packets
  ascend and the gaps are counted). The drivers'
  theories interpret them.
\<close>

section \<open>Loops driven by events\<close>

datatype 's status = Running 's | Finished | Failed fault

fun run :: "('e \<Rightarrow> 's \<Rightarrow> 'o list \<times> 's status) \<Rightarrow> 'e list \<Rightarrow> 's \<Rightarrow> 'o list \<times> 's status" where
  "run step [] s = ([], Running s)"
| "run step (e # es) s =
     (case step e s of
        (os, Running s') \<Rightarrow> (case run step es s' of (os', st) \<Rightarrow> (os @ os', st))
      | (os, st) \<Rightarrow> (os, st))"

text \<open>Every event is admissible in the state in which it happens.\<close>

fun run_ok :: "('e \<Rightarrow> 's \<Rightarrow> bool) \<Rightarrow> ('e \<Rightarrow> 's \<Rightarrow> 'o list \<times> 's status) \<Rightarrow> 'e list \<Rightarrow> 's \<Rightarrow> bool" where
  "run_ok ok step [] s = True"
| "run_ok ok step (e # es) s =
     (ok e s \<and> (case step e s of (_, Running s') \<Rightarrow> run_ok ok step es s' | _ \<Rightarrow> True))"

lemma run_ok_all: "(\<And>e s. e \<in> set es \<Longrightarrow> ok e s) \<Longrightarrow> run_ok ok step es s"
  by (induction es arbitrary: s) (auto split: status.splits)

text \<open>
  What a processing loop can be woken by: a message of a reader task, an error of one, the end
  of the channel, or its timer.
\<close>

datatype 'm wakeup = Msg 'm | MsgErr fault | Closed | Timer

text \<open>
  An event is a wake-up with the readings of the clock while it is handled: the first is
  taken when the message is inserted, the following ones by the iterations of the loop that
  forwards packets.
\<close>

type_synonym 'm event = "(nat \<Rightarrow> instant) \<times> 'm wakeup"

section \<open>Statistics and the client side\<close>

record protocol_stats =
  dropped_packets :: "nat option"
  video_fec_source_symbols :: "nat option"
  video_fec_source_symbols_missing :: "nat option"
  video_fec_source_symbols_unrecovered :: "nat option"

definition stats_new :: protocol_stats where
  "stats_new = \<lparr>dropped_packets = None, video_fec_source_symbols = None,
     video_fec_source_symbols_missing = None, video_fec_source_symbols_unrecovered = None\<rparr>"

definition unwrap_or_default :: "nat option \<Rightarrow> nat" where
  "unwrap_or_default x = (case x of None \<Rightarrow> 0 | Some n \<Rightarrow> n)"

definition add_opt :: "nat option \<Rightarrow> nat \<Rightarrow> nat option" where
  "add_opt x n = Some (unwrap_or_default x + n)"

lemma unwrap_add_opt [simp]: "unwrap_or_default (add_opt x n) = unwrap_or_default x + n"
  by (simp add: add_opt_def unwrap_or_default_def)

lemma unwrap_None [simp]: "unwrap_or_default None = 0"
  by (simp add: unwrap_or_default_def)

text \<open>
  A forwarded packet with its sequence number, or a packet that passes through without one
  (codec packets and holes).
\<close>

type_synonym emission = "u64 option \<times> av_packet"

definition output_seqs :: "emission list \<Rightarrow> u64 list" where
  "output_seqs os = List.map_filter fst os"

lemma output_seqs_simps [simp]:
  "output_seqs [] = []" "output_seqs ((Some k, p) # os) = k # output_seqs os"
  "output_seqs ((None, p) # os) = output_seqs os" "output_seqs (xs @ ys) = output_seqs xs @ output_seqs ys"
  by (simp_all add: output_seqs_def map_filter_def)

text \<open>A config packet is missing, ready with its sequence number, or already sent.\<close>

datatype config_packet = CNone | CReady av_packet u64 | CSent

fun config_is_none :: "config_packet \<Rightarrow> bool" where
  "config_is_none CNone = True"
| "config_is_none c = False"

fun config_is_ready :: "config_packet \<Rightarrow> bool" where
  "config_is_ready (CReady p k) = True"
| "config_is_ready c = False"

text \<open>
  The client end of a driver: the results queued for it, and the handles of the three tasks.
  After an error the FEC drivers cancel all tasks; dropping a driver cancels them too.
\<close>

record recv_driver =
  rx_client :: "av_packet result list"
  live_tasks :: "string list"

definition driver_started :: "av_packet result list \<Rightarrow> recv_driver" where
  "driver_started queue =
     \<lparr>rx_client = queue, live_tasks = [''recv_stream_packets'', ''recv_datagrams'', ''process'']\<rparr>"

definition client_queue :: "emission list \<times> 's status \<Rightarrow> av_packet result list" where
  "client_queue r =
     map (\<lambda>o1. Inr (snd o1)) (fst r) @ (case snd r of Failed e \<Rightarrow> [Inl e] | _ \<Rightarrow> [])"

definition fec_driver_recv :: "recv_driver \<Rightarrow> av_packet option result \<times> recv_driver" where
  "fec_driver_recv d =
     (case rx_client d of
        [] \<Rightarrow> (Inr None, d)
      | Inr p # q \<Rightarrow> (Inr (Some p), d\<lparr>rx_client := q\<rparr>)
      | Inl e # q \<Rightarrow> (Inl e, d\<lparr>rx_client := q, live_tasks := []\<rparr>))"

definition driver_recv :: "recv_driver \<Rightarrow> av_packet option result \<times> recv_driver" where
  "driver_recv d =
     (case rx_client d of
        [] \<Rightarrow> (Inr None, d)
      | Inr p # q \<Rightarrow> (Inr (Some p), d\<lparr>rx_client := q\<rparr>)
      | Inl e # q \<Rightarrow> (Inl e, d\<lparr>rx_client := q\<rparr>))"

definition driver_drop :: "recv_driver \<Rightarrow> recv_driver" where
  "driver_drop d = d\<lparr>live_tasks := []\<rparr>"

section \<open>Ascending sequence numbers\<close>

text \<open>
  \<open>ascends a ks b\<close>: starting with \<open>a\<close> as the next expected number, the packets \<open>ks\<close> are
  forwarded one after the other and \<open>b\<close> is expected next. \<open>gaps\<close> counts the numbers passed over.
\<close>

fun ascends :: "u64 \<Rightarrow> u64 list \<Rightarrow> u64 \<Rightarrow> bool" where
  "ascends a [] b = (a = b)"
| "ascends a (k # ks) b = (a \<le> k \<and> k \<noteq> - 1 \<and> ascends (k + 1) ks b)"

fun gaps :: "u64 \<Rightarrow> u64 list \<Rightarrow> nat" where
  "gaps a [] = 0"
| "gaps a (k # ks) = unat k - unat a + gaps (k + 1) ks"

lemma ascends_append:
  "ascends a xs b \<Longrightarrow> ascends b ys c \<Longrightarrow> ascends a (xs @ ys) c"
  by (induction xs arbitrary: a) auto

lemma gaps_append: "ascends a xs b \<Longrightarrow> gaps a (xs @ ys) = gaps a xs + gaps b ys"
  by (induction xs arbitrary: a) auto

lemma ascends_lower: "ascends a ks b \<Longrightarrow> k \<in> set ks \<Longrightarrow> a \<le> k"
proof (induction ks arbitrary: a)
  case (Cons x ks)
  then have asc: "a \<le> x" "x < x + 1" "ascends (x + 1) ks b" by (simp_all add: word_lt_plus1)
  show ?case
  proof (cases "k = x")
    case False
    then have "x + 1 \<le> k" using Cons.IH [OF asc(3)] Cons.prems by simp
    with asc show ?thesis by (meson order_le_less_trans order_less_imp_le order_less_le_trans)
  qed (use asc in simp)
qed simp

lemma ascends_sorted: "ascends a ks b \<Longrightarrow> sorted_wrt (<) ks"
proof (induction ks arbitrary: a)
  case (Cons x ks)
  then have lt: "x < x + 1" and asc: "ascends (x + 1) ks b" by (simp_all add: word_lt_plus1)
  have "\<forall>y \<in> set ks. x < y"
    using ascends_lower [OF asc] order_less_le_trans [OF lt] by blast
  with Cons.IH [OF asc] show ?case by simp
qed simp

lemma unat_plus1: "(k::u64) \<noteq> - 1 \<Longrightarrow> unat (k + 1) = Suc (unat k)"
  using unatSuc [of k] by (simp add: add.commute add_eq_0_iff)

lemma ascends_account: "ascends a ks b \<Longrightarrow> unat b = unat a + length ks + gaps a ks"
proof (induction ks arbitrary: a)
  case (Cons k ks)
  then have "unat b = unat (k + 1) + length ks + gaps (k + 1) ks" by simp
  moreover have "unat a \<le> unat k" "unat (k + 1) = Suc (unat k)"
    using Cons.prems by (simp_all add: word_le_nat_alt unat_plus1)
  ultimately show ?case by simp
qed simp

section \<open>Contracts\<close>

locale receiver =
  fixes step :: "'e \<Rightarrow> 's \<Rightarrow> emission list \<times> 's status"
    and inv :: "'s \<Rightarrow> bool" and ok :: "'e \<Rightarrow> 's \<Rightarrow> bool"
  assumes step_inv: "inv s \<Longrightarrow> ok e s \<Longrightarrow> step e s = (os, Running s') \<Longrightarrow> inv s'"
    and step_no_panic: "inv s \<Longrightarrow> ok e s \<Longrightarrow> step e s = (os, Failed f) \<Longrightarrow> \<not> panics f"
begin

lemma run_inv:
  "inv s \<Longrightarrow> run_ok ok step es s \<Longrightarrow> run step es s = (os, Running s') \<Longrightarrow> inv s'"
proof (induction es arbitrary: s os)
  case (Cons e es)
  obtain o1 st where st: "step e s = (o1, st)" by (cases "step e s")
  with Cons step_inv [of s e o1] show ?case
    by (cases st) (auto split: prod.splits)
qed simp

lemma run_no_panic:
  "inv s \<Longrightarrow> run_ok ok step es s \<Longrightarrow> run step es s = (os, Failed f) \<Longrightarrow> \<not> panics f"
proof (induction es arbitrary: s os)
  case (Cons e es)
  obtain o1 st where st: "step e s = (o1, st)" by (cases "step e s")
  with Cons step_inv [of s e o1] step_no_panic [of s e o1 f] show ?case
    by (cases st) (auto split: prod.splits)
qed simp

text \<open>What the invariant adds to an admissible event holds along the run.\<close>

lemma run_ok_strengthen:
  assumes "inv s" "run_ok ok step es s" "\<And>e s. inv s \<Longrightarrow> ok e s \<Longrightarrow> ok' e s"
  shows "run_ok ok' step es s"
  using assms(1,2)
proof (induction es arbitrary: s)
  case (Cons e es)
  obtain o1 st where st: "step e s = (o1, st)" by (cases "step e s")
  with Cons step_inv [of s e o1] assms(3) show ?case by (cases st) auto
qed simp

end

text \<open>A receiver all of whose output has a property.\<close>

locale emitting_receiver = receiver +
  fixes emits :: "emission \<Rightarrow> bool"
  assumes step_emits: "inv s \<Longrightarrow> ok e s \<Longrightarrow> step e s = (os, st) \<Longrightarrow> x \<in> set os \<Longrightarrow> emits x"
begin

lemma run_emits:
  "inv s \<Longrightarrow> run_ok ok step es s \<Longrightarrow> run step es s = (os, st) \<Longrightarrow> x \<in> set os \<Longrightarrow> emits x"
proof (induction es arbitrary: s os)
  case (Cons e es)
  obtain o1 st1 where st: "step e s = (o1, st1)" by (cases "step e s")
  with Cons step_inv [of s e o1] step_emits [of s e o1 st1 x] show ?case
    by (cases st1) (auto split: prod.splits)
qed simp

end

locale ordered_receiver = receiver +
  fixes nxt :: "'s \<Rightarrow> u64" and dropped :: "'s \<Rightarrow> nat"
  assumes step_ascends: "inv s \<Longrightarrow> ok e s \<Longrightarrow> step e s = (os, st)
      \<Longrightarrow> \<exists>b. ascends (nxt s) (output_seqs os) b
             \<and> (\<forall>s'. st = Running s' \<longrightarrow> b = nxt s' \<and> dropped s' = dropped s + gaps (nxt s) (output_seqs os))"
begin

lemma run_ascends:
  assumes "inv s" "run_ok ok step es s" "run step es s = (os, st)"
  shows "\<exists>b. ascends (nxt s) (output_seqs os) b
           \<and> (\<forall>s'. st = Running s' \<longrightarrow> b = nxt s' \<and> dropped s' = dropped s + gaps (nxt s) (output_seqs os))"
  using assms
proof (induction es arbitrary: s os)
  case Nil
  then show ?case by auto
next
  case (Cons e es)
  obtain o1 st1 where st1: "step e s = (o1, st1)" by (cases "step e s")
  have ok: "ok e s" using Cons.prems by simp
  show ?case
  proof (cases st1)
    case (Running s1)
    obtain o2 st2 where r: "run step es s1 = (o2, st2)" by (cases "run step es s1")
    have os: "os = o1 @ o2" "st = st2" using Cons.prems st1 Running r by auto
    have asc1: "ascends (nxt s) (output_seqs o1) (nxt s1)"
      and d1: "dropped s1 = dropped s + gaps (nxt s) (output_seqs o1)"
      using step_ascends [OF Cons.prems(1) ok st1] Running by auto
    have "inv s1" using step_inv Cons.prems(1) ok st1 Running by blast
    moreover have "run_ok ok step es s1" using Cons.prems(2) st1 Running by simp
    ultimately obtain b where b: "ascends (nxt s1) (output_seqs o2) b"
      and d2: "\<forall>s'. st2 = Running s' \<longrightarrow> b = nxt s' \<and> dropped s' = dropped s1 + gaps (nxt s1) (output_seqs o2)"
      using Cons.IH [of s1 o2] r os(2) by auto
    have "ascends (nxt s) (output_seqs os) b" using ascends_append [OF asc1 b] os(1) by simp
    moreover have "gaps (nxt s) (output_seqs os)
        = gaps (nxt s) (output_seqs o1) + gaps (nxt s1) (output_seqs o2)"
      using gaps_append [OF asc1] os(1) by simp
    ultimately show ?thesis using d1 d2 os(2) by (intro exI [of _ b]) simp
  next
    case Finished
    then show ?thesis using step_ascends [OF Cons.prems(1) ok st1] Cons.prems st1 by auto
  next
    case (Failed f)
    then show ?thesis using step_ascends [OF Cons.prems(1) ok st1] Cons.prems st1 by auto
  qed
qed

text \<open>Forwarded packets are in strictly ascending order, none before the expected one.\<close>

lemma run_order:
  assumes "inv s" "run_ok ok step es s" "run step es s = (os, st)"
  shows "sorted_wrt (<) (output_seqs os) \<and> (\<forall>k \<in> set (output_seqs os). nxt s \<le> k)"
proof -
  obtain b where "ascends (nxt s) (output_seqs os) b" using run_ascends [OF assms] by auto
  then show ?thesis by (simp add: ascends_sorted ascends_lower)
qed

text \<open>Every number below the next expected one was forwarded or counted as dropped.\<close>

lemma run_account:
  assumes "inv s" "run_ok ok step es s" "run step es s = (os, Running s')"
  shows "unat (nxt s') + dropped s = unat (nxt s) + length (output_seqs os) + dropped s'"
proof -
  have "ascends (nxt s) (output_seqs os) (nxt s')"
    and d: "dropped s' = dropped s + gaps (nxt s) (output_seqs os)"
    using run_ascends [OF assms] by auto
  from ascends_account [OF this(1)] d show ?thesis by simp
qed

end

end
