(* ===== verification/VideoFec.thy ===== *)
theory VideoFec
  imports Seq Receiver Reference_Codec
begin

text \<open>
  The receiver of the unreliable video protocol with forward error correction
  (\<open>driver/av/video_unreliable_fec.rs\<close>): pending groups with their config packet, completed
  datagrams and objects still being decoded, the admission budget with retirement, and the
  processing loop that forwards packets in order.

  \<open>Instant::now()\<close> is an argument of every operation that reads the clock. An operation that
  returns an error ends the processing loop, so no state is modelled behind an error.
\<close>

section \<open>Data\<close>

record fec_stats =
  fs_source :: nat
  fs_missing :: nat
  fs_unrecovered :: nat

definition fs_zero :: fec_stats where
  "fs_zero = \<lparr>fs_source = 0, fs_missing = 0, fs_unrecovered = 0\<rparr>"

definition fs_accumulate :: "fec_stats \<Rightarrow> fec_stats \<Rightarrow> fec_stats" where
  "fs_accumulate a b =
     \<lparr>fs_source = fs_source a + fs_source b, fs_missing = fs_missing a + fs_missing b,
      fs_unrecovered = fs_unrecovered a + fs_unrecovered b\<rparr>"

record datagram_packet =
  dp_oti :: oti
  dp_packet :: av_packet
  dp_seq :: u64
  dp_instant :: instant
  dp_stats :: fec_stats

record 'd datagram_segments =
  ds_seq :: u64
  ds_decoder :: "'d object_decoder"
  ds_assembled :: "bytes option"
  ds_created :: instant

record 'd pending_group =
  group_seq :: u64
  config_packet :: config_packet
  datagrams :: "datagram_packet list"
  segments :: "'d datagram_segments list"

record 'd pending_groups =
  groups :: "'d pending_group list"
  retired_through :: "u64 option"
  retired_stats :: fec_stats

text \<open>A reference to the next packet is the index of its group and whether it is the config.\<close>

datatype next_packet = NNone | NReady nat bool | NDeadline instant

datatype vf_action = APacket u64 av_packet fec_stats | ADeadline instant | ANone

text \<open>\<open>MAX_BUFFERING\<close>: 50 milliseconds.\<close>

definition vf_MAX_BUFFERING :: nat where "vf_MAX_BUFFERING = 50000"

section \<open>Objects being decoded\<close>

definition vf_segments_new ::
  "'d raptorq \<Rightarrow> instant \<Rightarrow> u64 \<Rightarrow> oti \<Rightarrow> 'd datagram_segments result" where
  "vf_segments_new rq now k oti =
     and_then (object_decoder_new rq oti MAX_VIDEO_PAYLOAD) (\<lambda>od.
     Inr \<lparr>ds_seq = k, ds_decoder = od, ds_assembled = None, ds_created = now\<rparr>)"

definition vf_add_packet ::
  "'d raptorq \<Rightarrow> oti \<Rightarrow> payload_id \<Rightarrow> bytes \<Rightarrow> 'd datagram_segments \<Rightarrow> 'd datagram_segments result" where
  "vf_add_packet rq oti pid data s =
     and_then (object_decode rq oti pid data (ds_decoder s)) (\<lambda>(res, od).
     Inr (s\<lparr>ds_decoder := od, ds_assembled := res\<rparr>))"

definition vf_is_complete :: "'d datagram_segments \<Rightarrow> bool" where
  "vf_is_complete s = (ds_assembled s \<noteq> None)"

definition vf_fec_stats :: "'d datagram_segments \<Rightarrow> fec_stats" where
  "vf_fec_stats s =
     (let total = oti_symbols (od_oti (ds_decoder s));
          missing = total - received_sources (ds_decoder s)
      in \<lparr>fs_source = total, fs_missing = missing,
          fs_unrecovered = (if vf_is_complete s then 0 else missing)\<rparr>)"

definition vf_assemble :: "instant \<Rightarrow> 'd datagram_segments \<Rightarrow> datagram_packet result" where
  "vf_assemble now s =
     (case ds_assembled s of
        None \<Rightarrow> Inl (invalid ''incomplete video object'')
      | Some data \<Rightarrow>
          and_then (media_packet data) (\<lambda>packet.
          Inr \<lparr>dp_oti = od_oti (ds_decoder s), dp_packet = packet, dp_seq = ds_seq s,
               dp_instant = now, dp_stats = vf_fec_stats s\<rparr>))"

section \<open>One group\<close>

definition vf_group_new :: "u64 \<Rightarrow> 'd pending_group" where
  "vf_group_new g = \<lparr>group_seq = g, config_packet = CNone, datagrams = [], segments = []\<rparr>"

definition vf_contains :: "u64 \<Rightarrow> 'd pending_group \<Rightarrow> bool" where
  "vf_contains k g =
     ((case binary_search_by_key ds_seq k (segments g) of Inr _ \<Rightarrow> True | Inl _ \<Rightarrow> False)
      \<or> (case binary_search_by_key dp_seq k (datagrams g) of Inr _ \<Rightarrow> True | Inl _ \<Rightarrow> False))"

definition vf_usage :: "'d pending_group \<Rightarrow> nat \<times> nat" where
  "vf_usage g =
     (let objects = length (segments g) + length (datagrams g);
          bytes = sum_list (map (\<lambda>s. reservation (od_oti (ds_decoder s))) (segments g))
                + sum_list (map (\<lambda>d. reservation (dp_oti d)) (datagrams g))
      in case config_packet g of
           CReady (Media h payload) _ \<Rightarrow> (objects + 1, bytes + length payload)
         | _ \<Rightarrow> (objects, bytes))"

definition vf_prepare_segments ::
  "'d raptorq \<Rightarrow> instant \<Rightarrow> u64 \<Rightarrow> oti \<Rightarrow> 'd pending_group \<Rightarrow> (nat \<times> 'd pending_group) result" where
  "vf_prepare_segments rq now k oti g =
     (case binary_search_by_key ds_seq k (segments g) of
        Inr i \<Rightarrow> Inr (i, g)
      | Inl i \<Rightarrow>
          and_then (vf_segments_new rq now k oti) (\<lambda>s.
          Inr (i, g\<lparr>segments := insert_at i s (segments g)\<rparr>)))"

definition vf_insert_datagram_packet :: "datagram_packet \<Rightarrow> 'd pending_group \<Rightarrow> 'd pending_group" where
  "vf_insert_datagram_packet d g =
     (case binary_search_by_key dp_seq (dp_seq d) (datagrams g) of
        Inl i \<Rightarrow> g\<lparr>datagrams := insert_at i d (datagrams g)\<rparr>
      | Inr _ \<Rightarrow> g)"

definition vf_group_insert ::
  "'d raptorq \<Rightarrow> instant \<Rightarrow> u64 \<Rightarrow> oti \<Rightarrow> payload_id \<Rightarrow> bytes \<Rightarrow> 'd pending_group
     \<Rightarrow> 'd pending_group result" where
  "vf_group_insert rq now k oti pid data g =
     (case binary_search_by_key dp_seq k (datagrams g) of
        Inl _ \<Rightarrow>
          and_then (vf_prepare_segments rq now k oti g) (\<lambda>(i, g1).
          and_then (vf_add_packet rq oti pid data (segments g1 ! i)) (\<lambda>s.
          if vf_is_complete s
          then and_then (vf_assemble now s) (\<lambda>d.
               Inr (vf_insert_datagram_packet d (g1\<lparr>segments := remove_at i (segments g1)\<rparr>)))
          else Inr (g1\<lparr>segments := (segments g1)[i := s]\<rparr>)))
      | Inr i \<Rightarrow>
          if dp_oti (datagrams g ! i) \<noteq> oti
          then Inl (invalid ''OTI changed for completed video object'')
          else Inr g)"

definition vf_sum_stats :: "fec_stats list \<Rightarrow> fec_stats" where
  "vf_sum_stats xs = foldl fs_accumulate fs_zero xs"

definition vf_drop_expired_segments :: "u64 \<Rightarrow> 'd pending_group \<Rightarrow> fec_stats \<times> 'd pending_group" where
  "vf_drop_expired_segments k g =
     (let i = (case binary_search_by_key ds_seq k (segments g) of Inr i \<Rightarrow> i | Inl i \<Rightarrow> i)
      in (vf_sum_stats (map vf_fec_stats (take i (segments g))),
          g\<lparr>segments := drop i (segments g)\<rparr>))"

definition vf_discarded_stats :: "'d pending_group \<Rightarrow> fec_stats" where
  "vf_discarded_stats g =
     vf_sum_stats (map dp_stats (datagrams g) @ map vf_fec_stats (segments g))"

section \<open>All groups\<close>

definition vf_groups_new :: "'d pending_groups" where
  "vf_groups_new = \<lparr>groups = [], retired_through = None, retired_stats = fs_zero\<rparr>"

definition vf_prepare_group :: "u64 \<Rightarrow> 'd pending_groups \<Rightarrow> (nat \<times> 'd pending_groups) result" where
  "vf_prepare_group gs p =
     (case binary_search_by_key group_seq gs (groups p) of
        Inr i \<Rightarrow> Inr (i, p)
      | Inl i \<Rightarrow>
          if length (groups p) \<ge> MAX_PENDING_GROUPS
          then Inl (invalid ''too many pending video groups'')
          else Inr (i, p\<lparr>groups := insert_at i (vf_group_new gs) (groups p)\<rparr>))"

definition vf_check_capacity :: "nat \<Rightarrow> 'd pending_groups \<Rightarrow> unit result" where
  "vf_check_capacity additional p =
     (let (objects, bytes) = foldl (\<lambda>(n, b) g. case vf_usage g of (c, r) \<Rightarrow> (n + c, b + r))
                               (0, 0) (groups p)
      in check_pending objects bytes additional MAX_VIDEO_PAYLOAD)"

text \<open>
  \<open>retire_oldest_media\<close>: every group offers its first unfinished object and its first
  completed datagram; the lowest sequence number of all is the candidate. The entry is
  (group index, is it a datagram, sequence number, instant).
\<close>

type_synonym candidate = "nat \<times> bool \<times> u64 \<times> instant"

definition vf_offers :: "nat \<Rightarrow> 'd pending_group \<Rightarrow> candidate list" where
  "vf_offers i g =
     (case segments g of [] \<Rightarrow> [] | s # _ \<Rightarrow> [(i, False, ds_seq s, ds_created s)])
     @ (case datagrams g of [] \<Rightarrow> [] | d # _ \<Rightarrow> [(i, True, dp_seq d, dp_instant d)])"

fun vf_older :: "candidate option \<Rightarrow> candidate \<Rightarrow> candidate option" where
  "vf_older None c = Some c"
| "vf_older (Some (i, d, k, t)) (i', d', k', t') =
     (if k' < k then Some (i', d', k', t') else Some (i, d, k, t))"

fun vf_all_offers :: "nat \<Rightarrow> 'd pending_group list \<Rightarrow> candidate list" where
  "vf_all_offers i [] = []"
| "vf_all_offers i (g # gs) = vf_offers i g @ vf_all_offers (Suc i) gs"

definition vf_oldest :: "'d pending_group list \<Rightarrow> candidate option" where
  "vf_oldest gs = foldl vf_older None (vf_all_offers 0 gs)"

definition vf_retire_oldest :: "instant \<Rightarrow> 'd pending_groups \<Rightarrow> bool \<times> 'd pending_groups" where
  "vf_retire_oldest now p =
     (case vf_oldest (groups p) of
        None \<Rightarrow> (False, p)
      | Some (i, is_datagram, k, t) \<Rightarrow>
          if t + vf_MAX_BUFFERING > now then (False, p)
          else
            let g = groups p ! i;
                (stats, g') =
                  (if is_datagram
                   then (dp_stats (hd (datagrams g)), g\<lparr>datagrams := tl (datagrams g)\<rparr>)
                   else (vf_fec_stats (hd (segments g)), g\<lparr>segments := remove_at 0 (segments g)\<rparr>));
                gs = (if config_is_none (config_packet g') \<and> segments g' = [] \<and> datagrams g' = []
                      then remove_at i (groups p) else (groups p)[i := g'])
            in (True,
                \<lparr>groups = gs,
                 retired_through = Some (case retired_through p of None \<Rightarrow> k | Some r \<Rightarrow> max r k),
                 retired_stats = fs_accumulate (retired_stats p) stats\<rparr>))"

subsection \<open>Retirement makes progress\<close>

definition media_count :: "'d pending_groups \<Rightarrow> nat" where
  "media_count p = sum_list (map (\<lambda>g. length (segments g) + length (datagrams g)) (groups p))"

text \<open>What it means that an entry describes the head of a queue of its group.\<close>

definition vf_offered :: "'d pending_group list \<Rightarrow> candidate \<Rightarrow> bool" where
  "vf_offered gs c \<longleftrightarrow>
     (case c of (i, is_datagram, k, t) \<Rightarrow>
        i < length gs \<and>
        (if is_datagram
         then \<exists>d ds. datagrams (gs ! i) = d # ds \<and> dp_seq d = k \<and> dp_instant d = t
         else \<exists>s ss. segments (gs ! i) = s # ss \<and> ds_seq s = k \<and> ds_created s = t))"

lemma vf_all_offers_sound:
  "(i, d, k, t) \<in> set (vf_all_offers n gs) \<Longrightarrow> n \<le> i \<and> vf_offered gs (i - n, d, k, t)"
proof (induction gs arbitrary: n)
  case (Cons g gs)
  from Cons.prems consider "(i, d, k, t) \<in> set (vf_offers n g)"
    | "(i, d, k, t) \<in> set (vf_all_offers (Suc n) gs)" by auto
  then show ?case
  proof cases
    case 1
    then show ?thesis
      by (cases "segments g"; cases "datagrams g") (auto simp: vf_offers_def vf_offered_def)
  next
    case 2
    from Cons.IH [OF this] have "Suc n \<le> i" "vf_offered gs (i - Suc n, d, k, t)" by auto
    then show ?thesis by (auto simp: vf_offered_def Suc_diff_Suc nth_Cons' split: if_splits)
  qed
qed simp

lemma foldl_vf_older:
  "foldl vf_older acc cs = Some c \<Longrightarrow> acc = Some c \<or> c \<in> set cs"
proof (induction cs arbitrary: acc)
  case (Cons x cs)
  have "vf_older acc x = acc \<or> vf_older acc x = Some x" by (cases "(acc, x)" rule: vf_older.cases) auto
  with Cons.IH [of "vf_older acc x"] Cons.prems show ?case by auto
qed simp

lemma vf_oldest_offered: "vf_oldest gs = Some c \<Longrightarrow> vf_offered gs c"
  using foldl_vf_older [of None "vf_all_offers 0 gs" c] vf_all_offers_sound [of _ _ _ _ 0 gs]
  by (cases c) (auto simp: vf_oldest_def)

text \<open>
  A successful retirement replaces one group by the same group without the head of one of
  its queues, or removes that group when nothing is left in it.
\<close>

lemma vf_retire_oldest_cases:
  assumes "vf_retire_oldest now p = (True, p')"
  obtains i d k t g stats g' where
    "vf_oldest (groups p) = Some (i, d, k, t)" "t + vf_MAX_BUFFERING \<le> now"
    "i < length (groups p)" "g = groups p ! i"
    "if d then (\<exists>x xs. datagrams g = x # xs \<and> dp_seq x = k \<and> stats = dp_stats x
                 \<and> g' = g\<lparr>datagrams := xs\<rparr>)
     else (\<exists>x xs. segments g = x # xs \<and> ds_seq x = k \<and> stats = vf_fec_stats x
                 \<and> g' = g\<lparr>segments := xs\<rparr>)"
    "groups p' = (if config_is_none (config_packet g') \<and> segments g' = [] \<and> datagrams g' = []
                  then remove_at i (groups p) else (groups p)[i := g'])"
    "retired_through p' = Some (case retired_through p of None \<Rightarrow> k | Some r \<Rightarrow> max r k)"
    "retired_stats p' = fs_accumulate (retired_stats p) stats"
proof -
  obtain i d k t where c: "vf_oldest (groups p) = Some (i, d, k, t)"
    using assms by (auto simp: vf_retire_oldest_def split: option.splits)
  have t: "t + vf_MAX_BUFFERING \<le> now"
    using assms c by (auto simp: vf_retire_oldest_def split: if_splits)
  have o: "vf_offered (groups p) (i, d, k, t)" by (rule vf_oldest_offered [OF c])
  show thesis
  proof (cases d)
    case True
    then obtain x xs where "datagrams (groups p ! i) = x # xs" "dp_seq x = k" "i < length (groups p)"
      using o by (auto simp: vf_offered_def)
    then show thesis
      using assms c t True
      by (intro that [of i d k t "groups p ! i" "dp_stats x" "(groups p ! i)\<lparr>datagrams := xs\<rparr>"])
         (auto simp: vf_retire_oldest_def Let_def)
  next
    case False
    then obtain x xs where "segments (groups p ! i) = x # xs" "ds_seq x = k" "i < length (groups p)"
      using o by (auto simp: vf_offered_def)
    then show thesis
      using assms c t False
      by (intro that [of i d k t "groups p ! i" "vf_fec_stats x" "(groups p ! i)\<lparr>segments := xs\<rparr>"])
         (auto simp: vf_retire_oldest_def Let_def remove_at_def)
  qed
qed

lemma sum_list_update_nat:
  "i < length xs \<Longrightarrow> sum_list (map f (xs[i := x])) + f (xs ! i) = sum_list (map f xs) + (f x :: nat)"
proof -
  assume i: "i < length xs"
  have a: "xs = take i xs @ xs ! i # drop (Suc i) xs" by (rule id_take_nth_drop [OF i])
  have b: "xs[i := x] = take i xs @ x # drop (Suc i) xs" by (rule upd_conv_take_nth_drop [OF i])
  have "sum_list (map f xs) = sum_list (map f (take i xs)) + (f (xs ! i) + sum_list (map f (drop (Suc i) xs)))"
    by (subst a) simp
  then show ?thesis by (simp add: b)
qed

lemma sum_list_remove_at:
  "i < length xs \<Longrightarrow> sum_list (map f (remove_at i xs)) + f (xs ! i) = (sum_list (map f xs) :: nat)"
proof -
  assume i: "i < length xs"
  have a: "xs = take i xs @ xs ! i # drop (Suc i) xs" by (rule id_take_nth_drop [OF i])
  have "sum_list (map f xs) = sum_list (map f (take i xs)) + (f (xs ! i) + sum_list (map f (drop (Suc i) xs)))"
    by (subst a) simp
  then show ?thesis by (simp add: remove_at_def)
qed

lemma vf_retire_decreases:
  assumes "vf_retire_oldest now p = (True, p')"
  shows "media_count p' < media_count p"
proof -
  obtain i d k t g stats g' where r: "i < length (groups p)" "g = groups p ! i"
    "if d then (\<exists>x xs. datagrams g = x # xs \<and> dp_seq x = k \<and> stats = dp_stats x
                 \<and> g' = g\<lparr>datagrams := xs\<rparr>)
     else (\<exists>x xs. segments g = x # xs \<and> ds_seq x = k \<and> stats = vf_fec_stats x
                 \<and> g' = g\<lparr>segments := xs\<rparr>)"
    "groups p' = (if config_is_none (config_packet g') \<and> segments g' = [] \<and> datagrams g' = []
                  then remove_at i (groups p) else (groups p)[i := g'])"
    by (rule vf_retire_oldest_cases [OF assms])
  let ?f = "\<lambda>g. length (segments g) + length (datagrams g)"
  have lt: "?f g' < ?f g" using r(3) by (auto split: if_splits)
  show ?thesis
    using sum_list_update_nat [OF r(1), of ?f g'] sum_list_remove_at [OF r(1), of ?f] lt r(2,4)
    by (auto simp: media_count_def)
qed

subsection \<open>Admission and insertion\<close>

function vf_admit :: "instant \<Rightarrow> nat \<Rightarrow> 'd pending_groups \<Rightarrow> 'd pending_groups result" where
  "vf_admit now additional p =
     (case vf_check_capacity additional p of
        Inr _ \<Rightarrow> Inr p
      | Inl e \<Rightarrow>
          (case vf_retire_oldest now p of
             (True, p') \<Rightarrow> vf_admit now additional p'
           | (False, p') \<Rightarrow> Inl e))"
  by pat_completeness auto
termination
  by (relation "measure (\<lambda>(now, additional, p). media_count p)")
     (auto simp: vf_retire_decreases)

declare vf_admit.simps [simp del]

definition vf_insert_stream_packet ::
  "instant \<Rightarrow> u64 \<Rightarrow> u64 \<Rightarrow> av_packet \<Rightarrow> 'd pending_groups \<Rightarrow> 'd pending_groups result" where
  "vf_insert_stream_packet now gs k packet p =
     (case packet of
        Media h payload \<Rightarrow>
          if \<not> is_config h then Inl (invalid ''expected video config'')
          else and_then (vf_admit now (length payload) p) (\<lambda>p1.
            and_then (vf_prepare_group gs p1) (\<lambda>(i, p2).
            let g = groups p2 ! i in
            if \<not> config_is_none (config_packet g) then Inl (invalid ''duplicate video group config'')
            else Inr (p2\<lparr>groups := (groups p2)[i := g\<lparr>config_packet := CReady packet k\<rparr>]\<rparr>)))
      | _ \<Rightarrow> Inl (invalid ''expected video config''))"

definition vf_is_retired :: "u64 \<Rightarrow> 'd pending_groups \<Rightarrow> bool" where
  "vf_is_retired k p = (case retired_through p of None \<Rightarrow> False | Some r \<Rightarrow> k \<le> r)"

definition vf_insert_datagram ::
  "'d raptorq \<Rightarrow> instant \<Rightarrow> u64 \<Rightarrow> u64 \<Rightarrow> oti \<Rightarrow> payload_id \<Rightarrow> bytes \<Rightarrow> 'd pending_groups
     \<Rightarrow> 'd pending_groups result" where
  "vf_insert_datagram rq now gs k oti pid data p =
     and_then (validate_oti oti MAX_VIDEO_PAYLOAD) (\<lambda>_.
     if vf_is_retired k p then Inr p
     else if list_ex (\<lambda>g. group_seq g \<noteq> gs \<and> vf_contains k g) (groups p)
     then Inl (invalid ''object changed video group'')
     else
       let already_pending = list_ex (\<lambda>g. group_seq g = gs \<and> vf_contains k g) (groups p) in
       and_then (if already_pending then Inr p else vf_admit now (reservation oti) p) (\<lambda>p1.
       if \<not> already_pending \<and> vf_is_retired k p1 then Inr p1
       else and_then (vf_prepare_group gs p1) (\<lambda>(i, p2).
         and_then (vf_group_insert rq now k oti pid data (groups p2 ! i)) (\<lambda>g.
         Inr (p2\<lparr>groups := (groups p2)[i := g]\<rparr>)))))"

section \<open>Choosing the next packet\<close>

definition list_min :: "instant list \<Rightarrow> instant option" where
  "list_min xs = (case xs of [] \<Rightarrow> None | y # ys \<Rightarrow> Some (foldl min y ys))"

definition vf_min_instant :: "'d pending_group list \<Rightarrow> instant option" where
  "vf_min_instant gs =
     list_min (List.map_filter (\<lambda>g. list_min (map dp_instant (datagrams g))) gs)"

text \<open>
  The loop of \<open>next_packet\<close>: \<open>all\<close> are all groups, \<open>i\<close> the index of the first group of the rest,
  and \<open>cached\<close> the minimum once it was computed.
\<close>

fun vf_next_loop ::
  "'d pending_group list \<Rightarrow> instant \<Rightarrow> u64 \<Rightarrow> nat \<Rightarrow> 'd pending_group list \<Rightarrow> instant option option
     \<Rightarrow> next_packet" where
  "vf_next_loop all now nxt i [] cached = NNone"
| "vf_next_loop all now nxt i (g # gs) cached =
     (if config_is_none (config_packet g) then vf_next_loop all now nxt (Suc i) gs cached
      else if (case config_packet g of CReady _ k \<Rightarrow> k = nxt | _ \<Rightarrow> False) then NReady i True
      else case datagrams g of
        [] \<Rightarrow> vf_next_loop all now nxt (Suc i) gs cached
      | d # _ \<Rightarrow>
          if dp_seq d = nxt then NReady i (config_is_ready (config_packet g))
          else
            let m = (case cached of Some c \<Rightarrow> c | None \<Rightarrow> vf_min_instant all) in
            (case m of
               None \<Rightarrow> vf_next_loop all now nxt (Suc i) gs (Some m)
             | Some t \<Rightarrow>
                 if t + vf_MAX_BUFFERING \<le> now then NReady i (config_is_ready (config_packet g))
                 else NDeadline (t + vf_MAX_BUFFERING)))"

definition vf_next_packet :: "instant \<Rightarrow> u64 \<Rightarrow> 'd pending_groups \<Rightarrow> next_packet" where
  "vf_next_packet now nxt p = vf_next_loop (groups p) now nxt 0 (groups p) None"

fun vf_consume :: "config_packet \<Rightarrow> (av_packet \<times> u64) result" where
  "vf_consume (CReady packet k) = Inr (packet, k)"
| "vf_consume c = Inl (Panic ''self.is_ready()'')"

definition vf_take_next_packet ::
  "instant \<Rightarrow> u64 \<Rightarrow> 'd pending_groups \<Rightarrow> (vf_action \<times> 'd pending_groups) result" where
  "vf_take_next_packet now nxt p =
     (case vf_next_packet now nxt p of
        NNone \<Rightarrow> Inr (ANone, p)
      | NDeadline t \<Rightarrow> Inr (ADeadline t, p)
      | NReady i is_cfg \<Rightarrow>
          let stats = foldl (\<lambda>a g. fs_accumulate a (vf_discarded_stats g)) (retired_stats p)
                        (take i (groups p));
              gs = drop i (groups p)
          in (case gs of
                [] \<Rightarrow> Inl (Panic ''index out of bounds'')
              | g # rest \<Rightarrow>
                  and_then (assert_that (\<not> config_is_none (config_packet g)) ''config_packet.is_none()'') (\<lambda>_.
                  if is_cfg then
                    and_then (vf_consume (config_packet g)) (\<lambda>(packet, k).
                    Inr (APacket k packet stats,
                         p\<lparr>groups := g\<lparr>config_packet := CSent\<rparr> # rest, retired_stats := fs_zero\<rparr>))
                  else
                    (case datagrams g of
                       [] \<Rightarrow> Inl (Panic ''Expected a pending datagram'')
                     | d # ds \<Rightarrow>
                         let (expired, g') = vf_drop_expired_segments (dp_seq d) (g\<lparr>datagrams := ds\<rparr>)
                         in Inr (APacket (dp_seq d) (dp_packet d)
                                   (fs_accumulate (fs_accumulate stats expired) (dp_stats d)),
                                 p\<lparr>groups := g' # rest, retired_stats := fs_zero\<rparr>)))))"

text \<open>Packets that could be forwarded: configs not sent yet and completed datagrams.\<close>

definition ready_count :: "'d pending_group list \<Rightarrow> nat" where
  "ready_count gs =
     sum_list (map (\<lambda>g. length (datagrams g) + (if config_is_ready (config_packet g) then 1 else 0)) gs)"

text \<open>The possible outcomes of taking a packet.\<close>

lemma vf_take_packet_cases:
  assumes "vf_take_next_packet now nxt p = Inr (APacket k packet stats, p')"
  obtains (config) i g rest where "vf_next_packet now nxt p = NReady i True"
      "drop i (groups p) = g # rest" "config_packet g = CReady packet k"
      "p' = p\<lparr>groups := g\<lparr>config_packet := CSent\<rparr> # rest, retired_stats := fs_zero\<rparr>"
      "stats = foldl (\<lambda>a g. fs_accumulate a (vf_discarded_stats g)) (retired_stats p)
                 (take i (groups p))"
  | (datagram) i g rest d ds expired g' where "vf_next_packet now nxt p = NReady i False"
      "drop i (groups p) = g # rest" "\<not> config_is_none (config_packet g)"
      "datagrams g = d # ds" "k = dp_seq d" "packet = dp_packet d"
      "vf_drop_expired_segments (dp_seq d) (g\<lparr>datagrams := ds\<rparr>) = (expired, g')"
      "p' = p\<lparr>groups := g' # rest, retired_stats := fs_zero\<rparr>"
      "stats = fs_accumulate (fs_accumulate (foldl (\<lambda>a g. fs_accumulate a (vf_discarded_stats g))
                 (retired_stats p) (take i (groups p))) expired) (dp_stats d)"
proof -
  obtain i is_cfg where n: "vf_next_packet now nxt p = NReady i is_cfg"
    using assms by (auto simp: vf_take_next_packet_def split: next_packet.splits)
  obtain g rest where g: "drop i (groups p) = g # rest"
    using assms n by (auto simp: vf_take_next_packet_def Let_def split: list.splits)
  have nn: "\<not> config_is_none (config_packet g)"
    using assms n g by (auto simp: vf_take_next_packet_def Let_def and_then_eq_Inr)
  show thesis
  proof (cases is_cfg)
    case True
    with assms n g nn show thesis
      by (cases "config_packet g") (auto simp: vf_take_next_packet_def Let_def intro: config)
  next
    case False
    obtain d ds where d: "datagrams g = d # ds"
      using assms n g nn False
      by (auto simp: vf_take_next_packet_def Let_def split: list.splits)
    obtain expired g' where e: "vf_drop_expired_segments (dp_seq d) (g\<lparr>datagrams := ds\<rparr>) = (expired, g')"
      by (cases "vf_drop_expired_segments (dp_seq d) (g\<lparr>datagrams := ds\<rparr>)")
    show thesis
      using assms n g nn False d e
      by (intro datagram [of i g rest d ds expired g']) (auto simp: vf_take_next_packet_def Let_def)
  qed
qed

lemma vf_drop_expired_simps:
  assumes "vf_drop_expired_segments k g = (st, g')"
  shows "datagrams g' = datagrams g" "config_packet g' = config_packet g" "group_seq g' = group_seq g"
  using assms by (auto simp: vf_drop_expired_segments_def Let_def)

lemma vf_take_decreases:
  assumes "vf_take_next_packet now nxt p = Inr (APacket k packet stats, p')"
  shows "ready_count (groups p') < ready_count (groups p)"
proof -
  have split: "ready_count (groups p) = ready_count (take i (groups p)) + ready_count (drop i (groups p))" for i
    by (simp add: ready_count_def sum_list_append [symmetric] map_append [symmetric] del: map_append sum_list_append)
  show ?thesis using assms
  proof (cases rule: vf_take_packet_cases)
    case (config i g rest)
    with split [of i] show ?thesis by (simp add: ready_count_def)
  next
    case (datagram i g rest d ds expired g')
    with split [of i] vf_drop_expired_simps [OF datagram(7)] show ?thesis by (simp add: ready_count_def)
  qed
qed

section \<open>The processing loop\<close>

datatype vf_msg = StreamMsg av_packet u32 u32 | DatagramMsg bytes u32 u32 oti payload_id

record 'd vf_state =
  vf_gseq :: sequencer
  vf_kseq :: sequencer
  vf_pending :: "'d pending_groups"
  vf_next :: u64
  vf_deadline :: "instant option"
  vf_stats :: protocol_stats

definition vf_init :: "'d vf_state" where
  "vf_init = \<lparr>vf_gseq = sequencer_new, vf_kseq = sequencer_new, vf_pending = vf_groups_new,
     vf_next = 0, vf_deadline = None, vf_stats = stats_new\<rparr>"

text \<open>The statistics and the next expected number after a packet was taken.\<close>

definition vf_account :: "u64 \<Rightarrow> fec_stats \<Rightarrow> 'd vf_state \<Rightarrow> 'd vf_state" where
  "vf_account k st s =
     (let p1 = (if fs_source st \<noteq> 0
                then (vf_stats s)\<lparr>
                  video_fec_source_symbols :=
                    add_opt (video_fec_source_symbols (vf_stats s)) (fs_source st),
                  video_fec_source_symbols_missing :=
                    add_opt (video_fec_source_symbols_missing (vf_stats s)) (fs_missing st),
                  video_fec_source_symbols_unrecovered :=
                    add_opt (video_fec_source_symbols_unrecovered (vf_stats s)) (fs_unrecovered st)\<rparr>
                else vf_stats s);
          p2 = (if k > vf_next s
                then p1\<lparr>dropped_packets := add_opt (dropped_packets p1) (unat (k - vf_next s))\<rparr>
                else p1)
      in s\<lparr>vf_stats := p2, vf_next := k + 1\<rparr>)"

lemma vf_account_pending [simp]: "vf_pending (vf_account k st s) = vf_pending s"
  by (simp add: vf_account_def Let_def)

text \<open>The inner loop forwards everything that is ready; iteration \<open>i\<close> reads the clock at \<open>ts i\<close>.\<close>

function vf_drain ::
  "(nat \<Rightarrow> instant) \<Rightarrow> nat \<Rightarrow> 'd vf_state \<Rightarrow> emission list \<times> 'd vf_state status" where
  "vf_drain ts i s =
     (case vf_take_next_packet (ts i) (vf_next s) (vf_pending s) of
        Inl e \<Rightarrow> ([], Failed e)
      | Inr (ANone, p) \<Rightarrow> ([], Running (s\<lparr>vf_pending := p, vf_deadline := None\<rparr>))
      | Inr (ADeadline t, p) \<Rightarrow> ([], Running (s\<lparr>vf_pending := p, vf_deadline := Some t\<rparr>))
      | Inr (APacket k packet st, p) \<Rightarrow>
          (case vf_drain ts (Suc i) (vf_account k st (s\<lparr>vf_pending := p\<rparr>)) of
             (os, r) \<Rightarrow> ((Some k, packet) # os, r)))"
  by pat_completeness auto
termination
  by (relation "measure (\<lambda>(ts, i, s). ready_count (groups (vf_pending s)))")
     (auto simp: vf_take_decreases)

declare vf_drain.simps [simp del]

definition vf_step ::
  "'d raptorq \<Rightarrow> vf_msg event \<Rightarrow> 'd vf_state \<Rightarrow> emission list \<times> 'd vf_state status" where
  "vf_step rq ev s =
     (let ts = fst ev in
      case snd ev of
        Closed \<Rightarrow> ([], Finished)
      | MsgErr e \<Rightarrow> ([], Failed e)
      | Timer \<Rightarrow>
          (case vf_deadline s of
             Some t \<Rightarrow> if t \<le> ts 0 then vf_drain ts 1 s else ([], Running s)
           | None \<Rightarrow> ([], Running s))
      | Msg (StreamMsg packet raw_k raw_g) \<Rightarrow>
          (case packet of
             Codec h \<Rightarrow> ([(None, packet)], Running s)
           | _ \<Rightarrow>
             let (k, kq) = seq_u32 (vf_kseq s) raw_k;
                 (g, gq) = seq_u32 (vf_gseq s) raw_g;
                 s1 = s\<lparr>vf_kseq := kq, vf_gseq := gq\<rparr>
             in if k \<ge> vf_next s
                then (case vf_insert_stream_packet (ts 0) g k packet (vf_pending s) of
                        Inl e \<Rightarrow> ([], Failed e)
                      | Inr p \<Rightarrow> vf_drain ts 1 (s1\<lparr>vf_pending := p\<rparr>))
                else vf_drain ts 1 s1)
      | Msg (DatagramMsg data raw_k raw_g oti pid) \<Rightarrow>
          let (k, kq) = seq_u32 (vf_kseq s) raw_k;
              (g, gq) = seq_u32 (vf_gseq s) raw_g;
              s1 = s\<lparr>vf_kseq := kq, vf_gseq := gq\<rparr>
          in if k < vf_next s then ([], Running s1)
             else (case vf_insert_datagram rq (ts 0) g k oti pid data (vf_pending s) of
                     Inl e \<Rightarrow> ([], Failed e)
                   | Inr p \<Rightarrow> vf_drain ts 1 (s1\<lparr>vf_pending := p\<rparr>)))"

section \<open>The reader tasks\<close>

definition vf_DATAGRAM_HEADER_SIZE :: nat where "vf_DATAGRAM_HEADER_SIZE = 26"

definition vf_parse :: "'d raptorq \<Rightarrow> bytes \<Rightarrow> vf_msg result" where
  "vf_parse rq datagram =
     and_then (parse_datagram rq datagram vf_DATAGRAM_HEADER_SIZE MAX_VIDEO_PAYLOAD) (\<lambda>(data, oti, pid).
     Inr (DatagramMsg data (get_u32 (take 4 (drop 2 datagram))) (get_u32 (take 4 (drop 6 datagram)))
            oti pid))"

text \<open>\<open>recv_datagrams\<close>: messages until the channel or a datagram is in error.\<close>

fun vf_recv_datagrams :: "'d raptorq \<Rightarrow> bytes result list \<Rightarrow> vf_msg result list" where
  "vf_recv_datagrams rq [] = []"
| "vf_recv_datagrams rq (dg # dgs) =
     (case and_then (map_err protocol_error_new dg) (vf_parse rq) of
        Inl e \<Rightarrow> [Inl e]
      | Inr m \<Rightarrow> Inr m # vf_recv_datagrams rq dgs)"

text \<open>One message of the stream, and \<open>recv_stream_packets\<close>.\<close>

definition vf_read_stream_msg :: "reader \<Rightarrow> (vf_msg \<times> reader) result" where
  "vf_read_stream_msg r =
     and_then (map_err protocol_error_new (read_exact 8 r)) (\<lambda>(seqs, r1).
     and_then (read_stream_packet r1 MAX_VIDEO_PAYLOAD) (\<lambda>(packet, r2).
     Inr (StreamMsg packet (get_u32 (take 4 seqs)) (get_u32 (drop 4 seqs)), r2)))"

lemma read_stream_packet_progress:
  assumes "read_stream_packet r m = Inr (packet, r')"
  shows "length (rbuf r') \<le> length (rbuf r)"
proof -
  obtain raw r1 where r1: "length raw = 12" "rbuf r = raw @ rbuf r1"
    and rest: "(if raw ! 0 AND 0x80 = 0 then
       if take 4 raw = [0, 0, 0, 0] then Inl (invalid ''unexpected hole record from sender'')
       else and_then (codec_deserialize raw) (\<lambda>h. Inr (Codec h, r1))
     else
       and_then (media_deserialize raw) (\<lambda>header.
       if \<not> is_config header \<or> unat (msize header) > min m MAX_CONFIG_PAYLOAD
       then Inl (invalid ''invalid reliable config type or length'')
       else and_then (map_err protocol_error_new (read_exact (unat (msize header)) r1))
              (\<lambda>(payload, s2). Inr (Media header payload, s2)))) = Inr (packet, r')"
    using assms
    by (auto simp: read_stream_packet_def and_then_eq_Inr read_exact_eq_Inr fec_limits)
  have "length (rbuf r') \<le> length (rbuf r1)"
    using rest by (auto simp: and_then_eq_Inr read_exact_eq_Inr split: if_splits)
  with r1 show ?thesis by simp
qed

function vf_recv_stream_packets :: "reader \<Rightarrow> vf_msg result list" where
  "vf_recv_stream_packets r =
     (case vf_read_stream_msg r of
        Inl e \<Rightarrow> [Inl e]
      | Inr (m, r') \<Rightarrow> Inr m # vf_recv_stream_packets r')"
  by pat_completeness auto
termination
proof (relation "measure (\<lambda>r. length (rbuf r))", goal_cases)
  case (2 r y m r')
  then obtain seqs r1 packet where "length seqs = 8" "rbuf r = seqs @ rbuf r1"
    "read_stream_packet r1 MAX_VIDEO_PAYLOAD = Inr (packet, r')"
    by (auto simp: vf_read_stream_msg_def and_then_eq_Inr read_exact_eq_Inr)
  then show ?case using read_stream_packet_progress [of r1 MAX_VIDEO_PAYLOAD packet r'] by simp
qed simp

end
