(* ===== verification/VideoFec_Inv.thy ===== *)
theory VideoFec_Inv
  imports VideoFec
begin

text \<open>
  The invariant of the pending groups of the FEC video receiver: queues ordered by sequence
  number, every pending object validated, decoder bookkeeping consistent, and the admission
  budget respected. Every operation preserves it and none of them panics, whatever a peer
  sends.
\<close>

section \<open>Invariants\<close>

definition vf_group_inv :: "'d raptorq \<Rightarrow> (oti \<Rightarrow> 'd \<Rightarrow> bool) \<Rightarrow> 'd pending_group \<Rightarrow> bool" where
  "vf_group_inv rq good g \<longleftrightarrow>
     sorted_key dp_seq (datagrams g) \<and> sorted_key ds_seq (segments g)
     \<and> dp_seq ` set (datagrams g) \<inter> ds_seq ` set (segments g) = {}
     \<and> (\<forall>s \<in> set (segments g). od_inv rq good MAX_VIDEO_PAYLOAD (ds_decoder s) \<and> ds_assembled s = None)
     \<and> (\<forall>d \<in> set (datagrams g). validate_oti (dp_oti d) MAX_VIDEO_PAYLOAD = Inr ())
     \<and> (\<forall>p k. config_packet g = CReady p k \<longrightarrow> (\<exists>h payload. p = Media h payload \<and> is_config h))"

definition vf_objects :: "'d pending_group list \<Rightarrow> nat" where
  "vf_objects gs = sum_list (map (\<lambda>g. fst (vf_usage g)) gs)"

definition vf_bytes :: "'d pending_group list \<Rightarrow> nat" where
  "vf_bytes gs = sum_list (map (\<lambda>g. snd (vf_usage g)) gs)"

definition vf_inv :: "'d raptorq \<Rightarrow> (oti \<Rightarrow> 'd \<Rightarrow> bool) \<Rightarrow> 'd pending_groups \<Rightarrow> bool" where
  "vf_inv rq good p \<longleftrightarrow>
     sorted_key group_seq (groups p) \<and> length (groups p) \<le> 32
     \<and> (\<forall>g \<in> set (groups p). vf_group_inv rq good g)
     \<and> vf_objects (groups p) \<le> 128 \<and> vf_bytes (groups p) \<le> 256 * 1024 * 1024"

lemma vf_groups_new_inv: "vf_inv rq good vf_groups_new"
  by (simp add: vf_inv_def vf_groups_new_def vf_objects_def vf_bytes_def)

lemma vf_group_new_inv [simp]: "vf_group_inv rq good (vf_group_new gs)"
  by (simp add: vf_group_inv_def vf_group_new_def)

lemma vf_usage_new [simp]: "vf_usage (vf_group_new gs) = (0, 0)"
  by (simp add: vf_usage_def vf_group_new_def)

lemma vf_usage_simps:
  "vf_objects (xs @ ys) = vf_objects xs + vf_objects ys" "vf_objects (g # xs) = fst (vf_usage g) + vf_objects xs"
  "vf_bytes (xs @ ys) = vf_bytes xs + vf_bytes ys" "vf_bytes (g # xs) = snd (vf_usage g) + vf_bytes xs"
  "vf_objects [] = 0" "vf_bytes [] = 0"
  by (simp_all add: vf_objects_def vf_bytes_def)

lemma vf_usage_config:
  "vf_usage g =
     (length (segments g) + length (datagrams g)
        + (case config_packet g of CReady (Media h payload) k \<Rightarrow> 1 | _ \<Rightarrow> 0),
      sum_list (map (\<lambda>s. reservation (od_oti (ds_decoder s))) (segments g))
        + sum_list (map (\<lambda>d. reservation (dp_oti d)) (datagrams g))
        + (case config_packet g of CReady (Media h payload) k \<Rightarrow> length payload | _ \<Rightarrow> 0))"
  by (auto simp: vf_usage_def Let_def split: config_packet.splits av_packet.splits)

section \<open>Capacity\<close>

lemma vf_capacity_fold:
  "foldl (\<lambda>(n, b) g. case vf_usage g of (c, r) \<Rightarrow> (n + c, b + r)) (x, y) gs
   = (x + vf_objects gs, y + vf_bytes gs)"
  by (induction gs arbitrary: x y) (auto simp: vf_usage_simps split: prod.splits)

lemma vf_check_capacity_iff:
  "vf_check_capacity a p = Inr () \<longleftrightarrow>
     vf_objects (groups p) < 128 \<and> vf_bytes (groups p) + a \<le> 256 * 1024 * 1024"
proof -
  have v: "pending_limit MAX_VIDEO_PAYLOAD = 268435456" by (simp add: pending_limit_def)
  show ?thesis
    by (auto simp: vf_check_capacity_def vf_capacity_fold check_pending_def Let_def v
        MAX_PENDING_OBJECTS_def)
qed

lemma vf_check_capacity_no_panic [simp]: "\<not> is_panic (vf_check_capacity a p)"
  by (simp add: vf_check_capacity_def check_pending_def Let_def invalid_def split: prod.splits)

section \<open>Retirement and admission\<close>

text \<open>Dropping the head of a queue keeps the invariant and lowers the usage.\<close>

lemma vf_group_inv_tl:
  assumes "vf_group_inv rq good g"
  shows "datagrams g = x # xs \<Longrightarrow> vf_group_inv rq good (g\<lparr>datagrams := xs\<rparr>)"
    and "segments g = y # ys \<Longrightarrow> vf_group_inv rq good (g\<lparr>segments := ys\<rparr>)"
  using assms by (auto simp: vf_group_inv_def)

lemma vf_inv_update:
  assumes "vf_inv rq good p" "i < length (groups p)" "vf_group_inv rq good g'"
    and "group_seq g' = group_seq (groups p ! i)"
    and "fst (vf_usage g') \<le> fst (vf_usage (groups p ! i))" "snd (vf_usage g') \<le> snd (vf_usage (groups p ! i))"
  shows "vf_inv rq good (p\<lparr>groups := (groups p)[i := g']\<rparr>)"
proof -
  have "map group_seq ((groups p)[i := g']) = map group_seq (groups p)"
    using assms(2,4) by (simp add: map_update) (metis list_update_id nth_map)
  then have "sorted_key group_seq ((groups p)[i := g'])"
    using assms(1) by (simp add: vf_inv_def sorted_key_def)
  moreover have "\<forall>g \<in> set ((groups p)[i := g']). vf_group_inv rq good g"
    using assms(1,3) set_update_subset_insert [of "groups p" i g'] by (auto simp: vf_inv_def)
  moreover have "vf_objects ((groups p)[i := g']) \<le> vf_objects (groups p)"
    using sum_list_update_nat [OF assms(2), of "\<lambda>g. fst (vf_usage g)" g'] assms(5)
    by (simp add: vf_objects_def)
  moreover have "vf_bytes ((groups p)[i := g']) \<le> vf_bytes (groups p)"
    using sum_list_update_nat [OF assms(2), of "\<lambda>g. snd (vf_usage g)" g'] assms(6)
    by (simp add: vf_bytes_def)
  ultimately show ?thesis using assms(1) by (simp add: vf_inv_def)
qed

lemma vf_inv_remove:
  assumes "vf_inv rq good p" "i < length (groups p)"
  shows "vf_inv rq good (p\<lparr>groups := remove_at i (groups p)\<rparr>)"
proof -
  have a: "groups p = take i (groups p) @ groups p ! i # drop (Suc i) (groups p)"
    by (rule id_take_nth_drop [OF assms(2)])
  have "sorted_key group_seq (take i (groups p) @ groups p ! i # drop (Suc i) (groups p))"
    using assms(1) a by (simp add: vf_inv_def)
  then have "sorted_key group_seq (remove_at i (groups p))"
    by (simp add: remove_at_def sorted_key_append)
  moreover have "set (remove_at i (groups p)) \<subseteq> set (groups p)"
    by (auto simp: remove_at_def dest: in_set_takeD in_set_dropD)
  moreover have "vf_objects (remove_at i (groups p)) \<le> vf_objects (groups p)"
    "vf_bytes (remove_at i (groups p)) \<le> vf_bytes (groups p)"
    using sum_list_remove_at [OF assms(2), of "\<lambda>g. fst (vf_usage g)"]
      sum_list_remove_at [OF assms(2), of "\<lambda>g. snd (vf_usage g)"]
    by (simp_all add: vf_objects_def vf_bytes_def)
  moreover have "length (remove_at i (groups p)) \<le> length (groups p)"
    by (simp add: remove_at_def)
  ultimately show ?thesis using assms(1) by (auto simp: vf_inv_def)
qed

lemma vf_inv_retired:
  "vf_inv rq good (p\<lparr>groups := gs, retired_through := r, retired_stats := st\<rparr>)
   \<longleftrightarrow> vf_inv rq good (p\<lparr>groups := gs\<rparr>)"
  by (simp add: vf_inv_def)

lemma vf_retire_inv:
  assumes "vf_inv rq good p" "vf_retire_oldest now p = (True, p')"
  shows "vf_inv rq good p'"
proof -
  obtain i d k t g stats g' where r: "i < length (groups p)" "g = groups p ! i"
    "if d then (\<exists>x xs. datagrams g = x # xs \<and> dp_seq x = k \<and> stats = dp_stats x
                 \<and> g' = g\<lparr>datagrams := xs\<rparr>)
     else (\<exists>x xs. segments g = x # xs \<and> ds_seq x = k \<and> stats = vf_fec_stats x
                 \<and> g' = g\<lparr>segments := xs\<rparr>)"
    "groups p' = (if config_is_none (config_packet g') \<and> segments g' = [] \<and> datagrams g' = []
                  then remove_at i (groups p) else (groups p)[i := g'])"
    by (rule vf_retire_oldest_cases [OF assms(2)])
  have gi: "vf_group_inv rq good g" using assms(1) r(1,2) by (simp add: vf_inv_def)
  have "vf_group_inv rq good g'"
    using r(3) vf_group_inv_tl [OF gi] by (auto split: if_splits)
  moreover have "fst (vf_usage g') \<le> fst (vf_usage g)" "snd (vf_usage g') \<le> snd (vf_usage g)"
    "group_seq g' = group_seq g"
    using r(3) by (auto simp: vf_usage_config split: if_splits)
  ultimately have "vf_inv rq good (p\<lparr>groups := (groups p)[i := g']\<rparr>)"
    using vf_inv_update [OF assms(1) r(1)] r(2) by simp
  then show ?thesis
    using vf_inv_remove [OF assms(1) r(1)] r(4) by (auto simp: vf_inv_def split: if_splits)
qed

text \<open>
  Admission is a sequence of retirements, after which the new object fits.
\<close>

lemma vf_admit_cases:
  assumes "vf_admit now a p = Inr p'"
  obtains (fits) "vf_check_capacity a p = Inr ()" "p' = p"
  | (retires) p1 where "vf_retire_oldest now p = (True, p1)" "vf_admit now a p1 = Inr p'"
  using assms
  by (subst (asm) vf_admit.simps) (auto split: sum.splits prod.splits bool.splits)

lemma vf_admit_preserves:
  assumes "vf_admit now a p = Inr p'" "P p"
    and "\<And>p p1. P p \<Longrightarrow> vf_retire_oldest now p = (True, p1) \<Longrightarrow> P p1"
  shows "P p'" "vf_check_capacity a p' = Inr ()"
proof -
  have "P p' \<and> vf_check_capacity a p' = Inr ()"
    using assms(1,2)
  proof (induction "media_count p" arbitrary: p rule: less_induct)
    case less
    from less.prems(1) show ?case
    proof (cases rule: vf_admit_cases)
      case fits
      with less.prems show ?thesis by simp
    next
      case (retires p1)
      then show ?thesis
        using less.hyps [OF vf_retire_decreases [OF retires(1)] retires(2)] assms(3) less.prems(2) by blast
    qed
  qed
  then show "P p'" "vf_check_capacity a p' = Inr ()" by simp_all
qed

lemma vf_admit_inv:
  assumes "vf_inv rq good p" "vf_admit now a p = Inr p'"
  shows "vf_inv rq good p'" "vf_check_capacity a p' = Inr ()"
  using vf_admit_preserves [OF assms(2), of "vf_inv rq good"] assms(1) vf_retire_inv by blast+

lemma vf_admit_no_panic: "\<not> is_panic (vf_admit now a p)"
proof (induction "media_count p" arbitrary: p rule: less_induct)
  case less
  show ?case
  proof (cases "vf_check_capacity a p")
    case (Inl e)
    then have e: "\<not> panics e" using vf_check_capacity_no_panic [of a p] by simp
    obtain b p1 where r: "vf_retire_oldest now p = (b, p1)" by (cases "vf_retire_oldest now p")
    then show ?thesis
      using less [of p1] vf_retire_decreases [of now p p1] Inl e
      by (cases b) (simp_all add: vf_admit.simps [of now a p])
  next
    case (Inr u)
    then show ?thesis by (simp add: vf_admit.simps [of now a p])
  qed
qed

lemma vf_admit_fits:
  "vf_objects (groups p) < 128 \<Longrightarrow> vf_bytes (groups p) + a \<le> 256 * 1024 * 1024 \<Longrightarrow> vf_admit now a p = Inr p"
  using vf_check_capacity_iff [of a p] by (simp add: vf_admit.simps [of now a p])

section \<open>Insertion\<close>

text \<open>Preparing a group finds it or creates it in its place.\<close>

lemma vf_prepare_group_cases:
  assumes "sorted_key group_seq (groups p)" "vf_prepare_group gs p = Inr (i, p')"
  obtains ys g zs where "groups p' = ys @ g # zs" "i = length ys" "group_seq g = gs"
    "\<forall>y \<in> set ys. group_seq y < gs" "\<forall>z \<in> set zs. gs < group_seq z"
    "(groups p = ys @ g # zs \<and> p' = p)
     \<or> (groups p = ys @ zs \<and> g = vf_group_new gs \<and> length (groups p) < 32
        \<and> p' = p\<lparr>groups := ys @ g # zs\<rparr>)"
proof (cases "binary_search_by_key group_seq gs (groups p)")
  case (Inr j)
  obtain ys g zs where s: "groups p = ys @ g # zs" "j = length ys" "group_seq g = gs"
    "\<forall>y \<in> set ys. group_seq y < gs" "\<forall>z \<in> set zs. gs < group_seq z"
    by (rule binary_search_Ok [OF assms(1) Inr])
  with assms(2) Inr show thesis by (intro that [of ys g zs]) (auto simp: vf_prepare_group_def)
next
  case (Inl j)
  obtain ys zs where s: "groups p = ys @ zs" "j = length ys"
    "\<forall>y \<in> set ys. group_seq y < gs" "\<forall>z \<in> set zs. gs < group_seq z"
    by (rule binary_search_Err [OF assms(1) Inl])
  with assms(2) Inl show thesis
    by (intro that [of ys "vf_group_new gs" zs])
       (auto simp: vf_prepare_group_def MAX_PENDING_GROUPS_def insert_at_mid vf_group_new_def
         split: if_splits)
qed

lemma vf_prepare_group_no_panic [simp]: "\<not> is_panic (vf_prepare_group gs p)"
  by (simp add: vf_prepare_group_def invalid_def split: sum.splits)

lemma vf_prepare_group_inv:
  assumes "vf_inv rq good p" "vf_prepare_group gs p = Inr (i, p')"
  shows "vf_inv rq good p'" "vf_objects (groups p') = vf_objects (groups p)"
    "vf_bytes (groups p') = vf_bytes (groups p)"
proof -
  have so: "sorted_key group_seq (groups p)" using assms(1) by (simp add: vf_inv_def)
  obtain ys g zs where s: "groups p' = ys @ g # zs" "i = length ys" "group_seq g = gs"
    "\<forall>y \<in> set ys. group_seq y < gs" "\<forall>z \<in> set zs. gs < group_seq z"
    "(groups p = ys @ g # zs \<and> p' = p)
     \<or> (groups p = ys @ zs \<and> g = vf_group_new gs \<and> length (groups p) < 32
        \<and> p' = p\<lparr>groups := ys @ g # zs\<rparr>)"
    by (rule vf_prepare_group_cases [OF so assms(2)])
  show "vf_objects (groups p') = vf_objects (groups p)" "vf_bytes (groups p') = vf_bytes (groups p)"
    using s(6) by (auto simp: vf_usage_simps)
  show "vf_inv rq good p'"
    using s(6)
  proof
    assume new: "groups p = ys @ zs \<and> g = vf_group_new gs \<and> length (groups p) < 32
        \<and> p' = p\<lparr>groups := ys @ g # zs\<rparr>"
    then show ?thesis
      using assms(1) s(3-5) by (auto simp: vf_inv_def sorted_key_append vf_usage_simps)
  qed (use assms(1) in simp)
qed

subsection \<open>One symbol into a group\<close>

text \<open>Preparing the decoder of an object finds it or creates it in its place.\<close>

lemma vf_prepare_segments_cases:
  assumes ok: "decoder_ok rq good" and inv: "vf_group_inv rq good g"
    and g1: "vf_prepare_segments rq now k oti g = Inr (j, g1)"
  obtains ys old zs s0 where "segments g = ys @ old @ zs" "j = length ys"
    "g1 = g\<lparr>segments := ys @ s0 # zs\<rparr>"
    "old = [s0] \<or> old = [] \<and> object_decoder_new rq oti MAX_VIDEO_PAYLOAD = Inr (ds_decoder s0)"
    "\<forall>y \<in> set ys. ds_seq y < k" "\<forall>z \<in> set zs. k < ds_seq z"
    "ds_seq s0 = k" "od_inv rq good MAX_VIDEO_PAYLOAD (ds_decoder s0)"
proof -
  have ss: "sorted_key ds_seq (segments g)" using inv by (simp add: vf_group_inv_def)
  show thesis
  proof (cases "binary_search_by_key ds_seq k (segments g)")
    case (Inr l)
    obtain ys x zs where x: "segments g = ys @ x # zs" "l = length ys" "ds_seq x = k"
      "\<forall>y \<in> set ys. ds_seq y < k" "\<forall>z \<in> set zs. k < ds_seq z"
      by (rule binary_search_Ok [OF ss Inr])
    with g1 Inr inv show thesis
      by (intro that [of ys "[x]" zs x]) (auto simp: vf_prepare_segments_def vf_group_inv_def)
  next
    case (Inl l)
    obtain ys zs where x: "segments g = ys @ zs" "l = length ys"
      "\<forall>y \<in> set ys. ds_seq y < k" "\<forall>z \<in> set zs. k < ds_seq z"
      by (rule binary_search_Err [OF ss Inl])
    obtain od where od: "object_decoder_new rq oti MAX_VIDEO_PAYLOAD = Inr od"
      and n: "g1 = g\<lparr>segments := ys @ \<lparr>ds_seq = k, ds_decoder = od, ds_assembled = None,
                                      ds_created = now\<rparr> # zs\<rparr>" "j = length ys"
      using g1 Inl x
      by (auto simp: vf_prepare_segments_def vf_segments_new_def and_then_eq_Inr insert_at_mid)
    from object_decoder_new_inv [OF ok od] n x show thesis
      by (intro that [of ys "[]" zs]) (auto simp: od)
  qed
qed

text \<open>Statistics are consistent: symbols not recovered are missing, missing ones exist.\<close>

definition fs_ok :: "fec_stats \<Rightarrow> bool" where
  "fs_ok st \<longleftrightarrow> fs_unrecovered st \<le> fs_missing st \<and> fs_missing st \<le> fs_source st"

lemma vf_fec_stats_ok [simp]:
  "fs_ok (vf_fec_stats s)" "fs_source (vf_fec_stats s) = oti_symbols (od_oti (ds_decoder s))"
  by (simp_all add: fs_ok_def vf_fec_stats_def Let_def)

text \<open>
  Three things can happen to a group: the object is already complete and nothing changes;
  its decoder takes the symbol; or the symbol completes it and it moves to the datagrams.
\<close>

lemma vf_group_insert_cases:
  assumes ok: "decoder_ok rq good" and inv: "vf_group_inv rq good g"
    and ins: "vf_group_insert rq now k oti pid data g = Inr g'"
  obtains (known) "g' = g" "k \<in> dp_seq ` set (datagrams g)"
  | (symbol) ys old zs s od where "k \<notin> dp_seq ` set (datagrams g)" "segments g = ys @ old @ zs"
      "old = [] \<or> (\<exists>s0. old = [s0] \<and> ds_seq s0 = k \<and> od_oti (ds_decoder s0) = oti)"
      "\<forall>y \<in> set ys. ds_seq y < k" "\<forall>z \<in> set zs. k < ds_seq z"
      "g' = g\<lparr>segments := ys @ s # zs\<rparr>" "ds_seq s = k" "od_oti (ds_decoder s) = oti"
      "od_inv rq good MAX_VIDEO_PAYLOAD (ds_decoder s)" "ds_assembled s = None"
      "map ds_decoder old = [od] \<or> old = [] \<and> object_decoder_new rq oti MAX_VIDEO_PAYLOAD = Inr od"
      "object_decode rq oti pid data od = Inr (None, ds_decoder s)"
  | (complete) ys old zs as d bs od od' bytes where "k \<notin> dp_seq ` set (datagrams g)"
      "segments g = ys @ old @ zs"
      "old = [] \<or> (\<exists>s0. old = [s0] \<and> ds_seq s0 = k \<and> od_oti (ds_decoder s0) = oti)"
      "\<forall>y \<in> set ys. ds_seq y < k" "\<forall>z \<in> set zs. k < ds_seq z"
      "datagrams g = as @ bs" "\<forall>a \<in> set as. dp_seq a < k" "\<forall>b \<in> set bs. k < dp_seq b"
      "g' = g\<lparr>segments := ys @ zs, datagrams := as @ d # bs\<rparr>" "dp_seq d = k" "dp_oti d = oti"
      "validate_oti oti MAX_VIDEO_PAYLOAD = Inr ()"
      "fs_ok (dp_stats d)" "fs_source (dp_stats d) = oti_symbols oti"
      "map ds_decoder old = [od] \<or> old = [] \<and> object_decoder_new rq oti MAX_VIDEO_PAYLOAD = Inr od"
      "object_decode rq oti pid data od = Inr (Some bytes, od')" "media_packet bytes = Inr (dp_packet d)"
proof -
  have sd: "sorted_key dp_seq (datagrams g)" and ss: "sorted_key ds_seq (segments g)"
    using inv by (auto simp: vf_group_inv_def)
  show thesis
  proof (cases "binary_search_by_key dp_seq k (datagrams g)")
    case (Inr i)
    obtain as x bs where "datagrams g = as @ x # bs" "i = length as" "dp_seq x = k"
      "\<forall>a \<in> set as. dp_seq a < k" "\<forall>b \<in> set bs. k < dp_seq b"
      by (rule binary_search_Ok [OF sd Inr])
    with Inr ins show thesis by (intro known) (auto simp: vf_group_insert_def split: if_splits)
  next
    case (Inl i)
    obtain as bs where ab: "datagrams g = as @ bs" "i = length as"
      "\<forall>a \<in> set as. dp_seq a < k" "\<forall>b \<in> set bs. k < dp_seq b"
      by (rule binary_search_Err [OF sd Inl])
    have nk: "k \<notin> dp_seq ` set (datagrams g)" using ab by auto
    obtain j g1 s0 s where g1: "vf_prepare_segments rq now k oti g = Inr (j, g1)"
      and s0: "s0 = segments g1 ! j" and s: "vf_add_packet rq oti pid data s0 = Inr s"
      and fin: "(if vf_is_complete s
          then and_then (vf_assemble now s) (\<lambda>d.
               Inr (vf_insert_datagram_packet d (g1\<lparr>segments := remove_at j (segments g1)\<rparr>)))
          else Inr (g1\<lparr>segments := (segments g1)[j := s]\<rparr>)) = Inr g'"
      using ins Inl by (auto simp: vf_group_insert_def and_then_eq_Inr)
    obtain ys old zs s1 where sp: "segments g = ys @ old @ zs" "j = length ys"
      "g1 = g\<lparr>segments := ys @ s1 # zs\<rparr>"
      "old = [s1] \<or> old = [] \<and> object_decoder_new rq oti MAX_VIDEO_PAYLOAD = Inr (ds_decoder s1)"
      "\<forall>y \<in> set ys. ds_seq y < k" "\<forall>z \<in> set zs. k < ds_seq z"
      "ds_seq s1 = k" "od_inv rq good MAX_VIDEO_PAYLOAD (ds_decoder s1)"
      by (rule vf_prepare_segments_cases [OF ok inv g1])
    have s01: "s0 = s1" using s0 sp(2,3) by simp
    note split = sp [folded s01]
    obtain res od where od: "object_decode rq oti pid data (ds_decoder s0) = Inr (res, od)"
      and se: "s = s0\<lparr>ds_decoder := od, ds_assembled := res\<rparr>"
      using s by (auto simp: vf_add_packet_def and_then_eq_Inr)
    have oti: "od_oti (ds_decoder s0) = oti"
      using od by (auto simp: object_decode_def split: if_splits)
    have odi: "od_inv rq good MAX_VIDEO_PAYLOAD od" "od_oti od = oti"
      using object_decode_inv [OF ok split(8) od] oti by simp_all
    have old: "old = [] \<or> (\<exists>s0. old = [s0] \<and> ds_seq s0 = k \<and> od_oti (ds_decoder s0) = oti)"
      using split(4,7) oti by auto
    have dec: "map ds_decoder old = [ds_decoder s0]
        \<or> old = [] \<and> object_decoder_new rq oti MAX_VIDEO_PAYLOAD = Inr (ds_decoder s0)"
      using split(4) by auto
    show thesis
    proof (cases res)
      case None
      then have "g' = g\<lparr>segments := ys @ s # zs\<rparr>"
        using fin split(2,3) se by (simp add: vf_is_complete_def)
      with None old odi se nk split dec od show thesis
        by (intro symbol [of ys old zs s "ds_decoder s0"]) auto
    next
      case (Some bytes)
      then obtain d where d: "vf_assemble now s = Inr d"
        and g': "g' = vf_insert_datagram_packet d (g1\<lparr>segments := remove_at j (segments g1)\<rparr>)"
        using fin se by (auto simp: and_then_eq_Inr vf_is_complete_def)
      have dk: "dp_seq d = k" "dp_oti d = oti" "dp_stats d = vf_fec_stats s"
        "media_packet bytes = Inr (dp_packet d)"
        using d se odi(2) split(7) Some by (auto simp: vf_assemble_def and_then_eq_Inr)
      have ds: "od_oti (ds_decoder s) = oti" using se odi(2) by simp
      have g2: "g' = g\<lparr>segments := ys @ zs, datagrams := as @ d # bs\<rparr>"
        using g' split(2,3) Inl ab dk
        by (simp add: vf_insert_datagram_packet_def remove_at_mid insert_at_mid)
      have v: "validate_oti oti MAX_VIDEO_PAYLOAD = Inr ()" using odi by (simp add: od_inv_def)
      from dk(3) ds have st: "fs_ok (dp_stats d)" "fs_source (dp_stats d) = oti_symbols oti" by simp_all
      from complete [OF nk split(1) old split(5,6) ab(1,3,4) g2 dk(1,2) v st dec od [unfolded Some] dk(4)]
      show thesis .
    qed
  qed
qed

definition group_keys :: "'d pending_group \<Rightarrow> u64 set" where
  "group_keys g = dp_seq ` set (datagrams g) \<union> ds_seq ` set (segments g)"

text \<open>A retirement changes one group, by removing one of its objects.\<close>

lemma vf_retire_group:
  assumes "vf_retire_oldest now p = (True, p')"
  obtains g g' where "g \<in> set (groups p)" "set (groups p') \<subseteq> insert g' (set (groups p))"
    "group_seq g' = group_seq g" "config_packet g' = config_packet g" "group_keys g' \<subseteq> group_keys g"
    "set (datagrams g') \<subseteq> set (datagrams g)"
proof -
  obtain i d k t g stats g' where r: "i < length (groups p)" "g = groups p ! i"
    "if d then (\<exists>x xs. datagrams g = x # xs \<and> dp_seq x = k \<and> stats = dp_stats x
                 \<and> g' = g\<lparr>datagrams := xs\<rparr>)
     else (\<exists>x xs. segments g = x # xs \<and> ds_seq x = k \<and> stats = vf_fec_stats x
                 \<and> g' = g\<lparr>segments := xs\<rparr>)"
    "groups p' = (if config_is_none (config_packet g') \<and> segments g' = [] \<and> datagrams g' = []
                  then remove_at i (groups p) else (groups p)[i := g'])"
    by (rule vf_retire_oldest_cases [OF assms])
  have "set (groups p') \<subseteq> insert g' (set (groups p))"
    using r(4) set_update_subset_insert [of "groups p" i g']
    by (auto simp: remove_at_def dest: in_set_takeD in_set_dropD split: if_splits)
  moreover have "group_seq g' = group_seq g" "config_packet g' = config_packet g"
    "group_keys g' \<subseteq> group_keys g" "set (datagrams g') \<subseteq> set (datagrams g)"
    using r(3) by (auto simp: group_keys_def split: if_splits)
  ultimately show thesis using r(1,2) by (intro that [of g g']) auto
qed

lemma vf_group_insert_frame:
  assumes "decoder_ok rq good" "vf_group_inv rq good g" "vf_group_insert rq now k oti pid data g = Inr g'"
  shows "group_seq g' = group_seq g" "config_packet g' = config_packet g"
    "group_keys g' = insert k (group_keys g)"
  by (rule vf_group_insert_cases [OF assms]; auto simp: group_keys_def)+

lemma vf_group_insert_inv:
  assumes "decoder_ok rq good" "vf_group_inv rq good g" "vf_group_insert rq now k oti pid data g = Inr g'"
  shows "vf_group_inv rq good g'"
  using assms
proof (cases rule: vf_group_insert_cases)
  case known
  with assms(2) show ?thesis by simp
next
  case (symbol ys old zs s od)
  have so: "sorted_key ds_seq (ys @ s # zs)"
    using assms(2) symbol(2,4,5,7) by (auto simp: vf_group_inv_def sorted_key_append)
  have "ds_seq ` set (ys @ s # zs) \<subseteq> insert k (ds_seq ` set (segments g))"
    using symbol(2,7) by auto
  moreover have "dp_seq ` set (datagrams g) \<inter> ds_seq ` set (segments g) = {}"
    using assms(2) by (simp add: vf_group_inv_def)
  ultimately have "dp_seq ` set (datagrams g) \<inter> ds_seq ` set (ys @ s # zs) = {}"
    using symbol(1) by blast
  with so assms(2) symbol show ?thesis by (simp add: vf_group_inv_def ball_Un)
next
  case (complete ys old zs as d bs od od' bytes)
  have so: "sorted_key ds_seq (ys @ zs)" "sorted_key dp_seq (as @ d # bs)"
    using assms(2) complete(2,6,7,8,10) by (auto simp: vf_group_inv_def sorted_key_append)
  have "k \<notin> ds_seq ` set (ys @ zs)" using complete(4,5) by auto
  then have "dp_seq ` set (as @ d # bs) \<inter> ds_seq ` set (ys @ zs) = {}"
    using assms(2) complete(2,6,10) by (auto simp: vf_group_inv_def)
  with so assms(2) complete show ?thesis by (simp add: vf_group_inv_def ball_Un)
qed

lemma vf_group_insert_usage:
  assumes "decoder_ok rq good" "vf_group_inv rq good g" "vf_group_insert rq now k oti pid data g = Inr g'"
  shows "vf_usage g' = (if k \<in> group_keys g then vf_usage g
                        else (fst (vf_usage g) + 1, snd (vf_usage g) + reservation oti))"
  using assms
proof (cases rule: vf_group_insert_cases)
  case known
  then show ?thesis by (simp add: group_keys_def)
next
  case (symbol ys old zs s od)
  have "k \<in> group_keys g \<longleftrightarrow> old \<noteq> []"
    using symbol(1,2,3,4,5) by (auto simp: group_keys_def)
  with symbol(2,3,6,8) show ?thesis by (auto simp: vf_usage_config)
next
  case (complete ys old zs as d bs od od' bytes)
  have "k \<in> group_keys g \<longleftrightarrow> old \<noteq> []"
    using complete(1-5) by (auto simp: group_keys_def)
  with complete(2,3,6,9,11) show ?thesis by (auto simp: vf_usage_config)
qed

lemma vf_contains_iff:
  "vf_group_inv rq good g \<Longrightarrow> vf_contains k g \<longleftrightarrow> k \<in> group_keys g"
  using binary_search_found_iff [of ds_seq "segments g" k] binary_search_found_iff [of dp_seq "datagrams g" k]
  by (auto simp: vf_contains_def group_keys_def vf_group_inv_def split: sum.splits)

subsection \<open>Whole insertions\<close>

lemma vf_insert_stream_cases:
  assumes "vf_insert_stream_packet now gs k packet p = Inr p'"
  obtains h payload p1 i p2 where "packet = Media h payload" "is_config h"
    "vf_admit now (length payload) p = Inr p1" "vf_prepare_group gs p1 = Inr (i, p2)"
    "config_packet (groups p2 ! i) = CNone"
    "p' = p2\<lparr>groups := (groups p2)[i := (groups p2 ! i)\<lparr>config_packet := CReady packet k\<rparr>]\<rparr>"
proof -
  obtain h payload where m: "packet = Media h payload"
    using assms by (cases packet) (auto simp: vf_insert_stream_packet_def)
  have c: "is_config h" using assms m by (auto simp: vf_insert_stream_packet_def split: if_splits)
  obtain p1 i p2 where a: "vf_admit now (length payload) p = Inr p1"
    "vf_prepare_group gs p1 = Inr (i, p2)"
    and r: "(if \<not> config_is_none (config_packet (groups p2 ! i))
             then Inl (invalid ''duplicate video group config'')
             else Inr (p2\<lparr>groups := (groups p2)[i := (groups p2 ! i)\<lparr>config_packet := CReady packet k\<rparr>]\<rparr>))
            = Inr p'"
    using assms m c by (auto simp: vf_insert_stream_packet_def and_then_eq_Inr Let_def)
  have "config_packet (groups p2 ! i) = CNone"
    using r by (cases "config_packet (groups p2 ! i)") auto
  with m c a r show thesis by (intro that) auto
qed

lemma vf_insert_datagram_cases:
  assumes "vf_insert_datagram rq now gs k oti pid data p = Inr p'"
  obtains (retired) "vf_is_retired k p" "p' = p"
  | (obsolete) "vf_admit now (reservation oti) p = Inr p'" "vf_is_retired k p'"
      "\<forall>g \<in> set (groups p). \<not> vf_contains k g"
  | (inserted) p1 i p2 g' where "validate_oti oti MAX_VIDEO_PAYLOAD = Inr ()"
      "\<not> vf_is_retired k p" "\<not> vf_is_retired k p1"
      "\<forall>g \<in> set (groups p). group_seq g \<noteq> gs \<longrightarrow> \<not> vf_contains k g"
      "p1 = p \<and> (\<exists>g \<in> set (groups p). group_seq g = gs \<and> vf_contains k g)
       \<or> (\<forall>g \<in> set (groups p). \<not> vf_contains k g) \<and> vf_admit now (reservation oti) p = Inr p1"
      "vf_prepare_group gs p1 = Inr (i, p2)"
      "vf_group_insert rq now k oti pid data (groups p2 ! i) = Inr g'"
      "p' = p2\<lparr>groups := (groups p2)[i := g']\<rparr>"
proof (cases "vf_is_retired k p")
  case True
  have "p' = p"
    using assms True by (cases "validate_oti oti MAX_VIDEO_PAYLOAD") (simp_all add: vf_insert_datagram_def)
  with True show thesis by (rule retired)
next
  case False
  define already where "already = list_ex (\<lambda>g. group_seq g = gs \<and> vf_contains k g) (groups p)"
  have v: "validate_oti oti MAX_VIDEO_PAYLOAD = Inr ()"
    using assms by (cases "validate_oti oti MAX_VIDEO_PAYLOAD") (simp_all add: vf_insert_datagram_def)
  have other: "\<not> list_ex (\<lambda>g. group_seq g \<noteq> gs \<and> vf_contains k g) (groups p)"
    using assms v False by (simp add: vf_insert_datagram_def split: if_splits)
  obtain p1 where p1: "(if already then Inr p else vf_admit now (reservation oti) p) = Inr p1"
    and r: "(if \<not> already \<and> vf_is_retired k p1 then Inr p1
       else and_then (vf_prepare_group gs p1) (\<lambda>(i, p2).
         and_then (vf_group_insert rq now k oti pid data (groups p2 ! i)) (\<lambda>g.
         Inr (p2\<lparr>groups := (groups p2)[i := g]\<rparr>)))) = Inr p'"
    using assms v False other
    unfolding vf_insert_datagram_def already_def [symmetric] Let_def v and_then_Inr
    by (simp only: if_False
        and_then_eq_Inr [of "if already then Inr p else vf_admit now (reservation oti) p"]) blast
  show thesis
  proof (cases "\<not> already \<and> vf_is_retired k p1")
    case True
    moreover have "\<forall>g \<in> set (groups p). \<not> vf_contains k g"
      using True other by (auto simp: already_def list_ex_iff)
    ultimately show thesis using p1 r by (intro obsolete) simp_all
  next
    case keep: False
    then have nr: "\<not> vf_is_retired k p1" using p1 False by (auto split: if_splits)
    obtain i p2 g' where "vf_prepare_group gs p1 = Inr (i, p2)"
      "vf_group_insert rq now k oti pid data (groups p2 ! i) = Inr g'"
      "p' = p2\<lparr>groups := (groups p2)[i := g']\<rparr>"
      using r keep by (auto simp: and_then_eq_Inr)
    moreover have "p1 = p \<and> (\<exists>g \<in> set (groups p). group_seq g = gs \<and> vf_contains k g)
       \<or> (\<forall>g \<in> set (groups p). \<not> vf_contains k g) \<and> vf_admit now (reservation oti) p = Inr p1"
      using p1 other by (auto simp: already_def list_ex_iff split: if_splits)
    ultimately show thesis
      using v False nr other by (intro inserted) (auto simp: list_ex_iff)
  qed
qed

text \<open>Replacing a prepared group keeps the invariant if the budget still holds.\<close>

lemma vf_inv_replace:
  assumes "vf_inv rq good p" "i < length (groups p)" "vf_group_inv rq good g'"
    and "group_seq g' = group_seq (groups p ! i)"
    and "fst (vf_usage g') \<le> fst (vf_usage (groups p ! i)) + a" "vf_objects (groups p) + a \<le> 128"
    and "snd (vf_usage g') \<le> snd (vf_usage (groups p ! i)) + b" "vf_bytes (groups p) + b \<le> 256 * 1024 * 1024"
  shows "vf_inv rq good (p\<lparr>groups := (groups p)[i := g']\<rparr>)"
proof -
  have "map group_seq ((groups p)[i := g']) = map group_seq (groups p)"
    using assms(2,4) by (simp add: map_update) (metis list_update_id nth_map)
  then have "sorted_key group_seq ((groups p)[i := g'])"
    using assms(1) by (simp add: vf_inv_def sorted_key_def)
  moreover have "\<forall>g \<in> set ((groups p)[i := g']). vf_group_inv rq good g"
    using assms(1,3) set_update_subset_insert [of "groups p" i g'] by (auto simp: vf_inv_def)
  moreover have "vf_objects ((groups p)[i := g']) \<le> 128"
    using sum_list_update_nat [OF assms(2), of "\<lambda>g. fst (vf_usage g)" g'] assms(5,6)
    by (simp add: vf_objects_def)
  moreover have "vf_bytes ((groups p)[i := g']) \<le> 256 * 1024 * 1024"
    using sum_list_update_nat [OF assms(2), of "\<lambda>g. snd (vf_usage g)" g'] assms(7,8)
    by (simp add: vf_bytes_def)
  ultimately show ?thesis using assms(1) by (simp add: vf_inv_def)
qed

lemma vf_prepare_group_index:
  assumes "vf_inv rq good p" "vf_prepare_group gs p = Inr (i, p')"
  shows "i < length (groups p')" "group_seq (groups p' ! i) = gs" "groups p' ! i \<in> set (groups p')"
proof -
  have so: "sorted_key group_seq (groups p)" using assms(1) by (simp add: vf_inv_def)
  show "i < length (groups p')" "group_seq (groups p' ! i) = gs" "groups p' ! i \<in> set (groups p')"
    by (rule vf_prepare_group_cases [OF so assms(2)]; simp)+
qed

lemma vf_insert_stream_inv:
  assumes "vf_inv rq good p" "vf_insert_stream_packet now gs k packet p = Inr p'"
  shows "vf_inv rq good p'"
  using assms(2)
proof (cases rule: vf_insert_stream_cases)
  case (1 h payload p1 i p2)
  have p1: "vf_inv rq good p1" "vf_check_capacity (length payload) p1 = Inr ()"
    using vf_admit_inv [OF assms(1) 1(3)] by simp_all
  have p2: "vf_inv rq good p2" using vf_prepare_group_inv(1) [OF p1(1) 1(4)] .
  have tot: "vf_objects (groups p2) + 1 \<le> 128" "vf_bytes (groups p2) + length payload \<le> 256 * 1024 * 1024"
    using vf_prepare_group_inv(2,3) [OF p1(1) 1(4)] p1(2) by (simp_all add: vf_check_capacity_iff)
  note ix = vf_prepare_group_index [OF p1(1) 1(4)]
  have g: "vf_group_inv rq good (groups p2 ! i)" using p2 ix(3) by (simp add: vf_inv_def)
  show ?thesis
    unfolding 1(6) using 1(1,2,5) g
    by (intro vf_inv_replace [OF p2 ix(1) _ _ _ tot(1) _ tot(2)])
       (simp_all add: vf_group_inv_def vf_usage_config)
qed

lemma vf_prepare_group_same:
  assumes "vf_inv rq good p" "vf_prepare_group gs p = Inr (i, p')" "g0 \<in> set (groups p)" "group_seq g0 = gs"
  shows "p' = p" "groups p ! i = g0"
proof -
  have so: "sorted_key group_seq (groups p)" using assms(1) by (simp add: vf_inv_def)
  obtain ys g zs where s: "groups p' = ys @ g # zs" "i = length ys" "group_seq g = gs"
    "\<forall>y \<in> set ys. group_seq y < gs" "\<forall>z \<in> set zs. gs < group_seq z"
    "(groups p = ys @ g # zs \<and> p' = p)
     \<or> (groups p = ys @ zs \<and> g = vf_group_new gs \<and> length (groups p) < 32
        \<and> p' = p\<lparr>groups := ys @ g # zs\<rparr>)"
    by (rule vf_prepare_group_cases [OF so assms(2)])
  have "g0 \<notin> set ys" "g0 \<notin> set zs" using s(4,5) assms(4) by auto
  with s(6) assms(3) have "groups p = ys @ g # zs \<and> p' = p" by auto
  with s(2) assms(3) \<open>g0 \<notin> set ys\<close> \<open>g0 \<notin> set zs\<close> show "p' = p" "groups p ! i = g0" by auto
qed

lemma vf_insert_datagram_inv:
  assumes "decoder_ok rq good" "vf_inv rq good p" "vf_insert_datagram rq now gs k oti pid data p = Inr p'"
  shows "vf_inv rq good p'"
  using assms(3)
proof (cases rule: vf_insert_datagram_cases)
  case retired
  with assms(2) show ?thesis by simp
next
  case obsolete
  with vf_admit_inv(1) [OF assms(2)] show ?thesis by blast
next
  case (inserted p1 i p2 g')
  have p1: "vf_inv rq good p1" using inserted(5) assms(2) vf_admit_inv(1) [OF assms(2)] by auto
  have p2: "vf_inv rq good p2" using vf_prepare_group_inv(1) [OF p1 inserted(6)] .
  note ix = vf_prepare_group_index [OF p1 inserted(6)]
  have g: "vf_group_inv rq good (groups p2 ! i)" using p2 ix(3) by (simp add: vf_inv_def)
  note gi = vf_group_insert_inv [OF assms(1) g inserted(7)]
    and fr = vf_group_insert_frame(1) [OF assms(1) g inserted(7)]
    and us = vf_group_insert_usage [OF assms(1) g inserted(7)]
  from inserted(5) show ?thesis
  proof
    assume old: "p1 = p \<and> (\<exists>g \<in> set (groups p). group_seq g = gs \<and> vf_contains k g)"
    then obtain g0 where g0: "g0 \<in> set (groups p)" "group_seq g0 = gs" "vf_contains k g0" "p1 = p" by auto
    then have "p2 = p" "groups p2 ! i = g0"
      using vf_prepare_group_same [OF p1 inserted(6)] by auto
    then have "k \<in> group_keys (groups p2 ! i)"
      using g0(3) vf_contains_iff [OF g] by simp
    with us have "vf_usage g' = vf_usage (groups p2 ! i)" by simp
    then show ?thesis unfolding inserted(8)
      using p2 by (intro vf_inv_update [OF p2 ix(1) gi fr]) simp_all
  next
    assume "(\<forall>g \<in> set (groups p). \<not> vf_contains k g) \<and> vf_admit now (reservation oti) p = Inr p1"
    then have new: "vf_admit now (reservation oti) p = Inr p1" by simp
    have "vf_objects (groups p2) + 1 \<le> 128" "vf_bytes (groups p2) + reservation oti \<le> 256 * 1024 * 1024"
      using vf_prepare_group_inv(2,3) [OF p1 inserted(6)] vf_admit_inv(2) [OF assms(2) new]
      by (simp_all add: vf_check_capacity_iff)
    then show ?thesis unfolding inserted(8)
      using us by (intro vf_inv_replace [OF p2 ix(1) gi fr]) auto
  qed
qed

subsection \<open>No panic\<close>

lemma media_packet_no_panic [simp]: "\<not> is_panic (media_packet data)"
proof -
  have "\<not> is_panic (media_deserialize (take 12 data))" if "12 \<le> length data" "data ! 0 AND 0x80 \<noteq> 0"
    using that by (simp add: media_deserialize_def Let_def SERIALIZED_SIZE_def)
  then show ?thesis
    by (auto simp: media_packet_def invalid_def is_panic_and_then fec_limits not_less)
qed

lemma vf_group_insert_no_panic:
  assumes "decoder_ok rq good" "vf_group_inv rq good g"
  shows "\<not> is_panic (vf_group_insert rq now k oti pid data g)"
proof -
  have "\<not> is_panic (vf_prepare_segments rq now k oti g)"
    using object_decoder_new_no_panic [OF assms(1)]
    by (auto simp: vf_prepare_segments_def vf_segments_new_def is_panic_and_then split: sum.splits)
  moreover have "\<not> is_panic (vf_add_packet rq oti pid data (segments g1 ! j))"
    if "vf_prepare_segments rq now k oti g = Inr (j, g1)" for j g1
  proof -
    have "od_inv rq good MAX_VIDEO_PAYLOAD (ds_decoder (segments g1 ! j))"
      by (rule vf_prepare_segments_cases [OF assms that]) simp
    from object_decode_no_panic [OF assms(1) this] show ?thesis
      by (auto simp: vf_add_packet_def is_panic_and_then)
  qed
  moreover have "\<not> is_panic (vf_assemble now s)" for s :: "'a datagram_segments"
    by (simp add: vf_assemble_def invalid_def is_panic_and_then split: option.splits)
  ultimately show ?thesis
    by (auto simp: vf_group_insert_def is_panic_and_then invalid_def split: sum.splits)
qed

lemma vf_insert_datagram_no_panic:
  assumes "decoder_ok rq good" "vf_inv rq good p"
  shows "\<not> is_panic (vf_insert_datagram rq now gs k oti pid data p)"
proof -
  have "\<not> is_panic (and_then (vf_prepare_group gs p1) (\<lambda>(i, p2).
         and_then (vf_group_insert rq now k oti pid data (groups p2 ! i)) (\<lambda>g.
         Inr (p2\<lparr>groups := (groups p2)[i := g]\<rparr>))))" if "vf_inv rq good p1" for p1
  proof -
    have "\<not> is_panic (vf_group_insert rq now k oti pid data (groups p2 ! i))"
      if "vf_prepare_group gs p1 = Inr (i, p2)" for i p2
      using vf_prepare_group_index(3) [OF \<open>vf_inv rq good p1\<close> that]
        vf_prepare_group_inv(1) [OF \<open>vf_inv rq good p1\<close> that]
      by (intro vf_group_insert_no_panic [OF assms(1)]) (simp add: vf_inv_def)
    then show ?thesis by (auto simp: is_panic_and_then)
  qed
  then show ?thesis
    using assms(2) vf_admit_inv(1) [OF assms(2)] vf_admit_no_panic [of now "reservation oti" p]
    by (auto simp: vf_insert_datagram_def is_panic_and_then invalid_def Let_def)
qed

lemma vf_insert_stream_no_panic: "\<not> is_panic (vf_insert_stream_packet now gs k packet p)"
  using vf_admit_no_panic [of now _ p]
  by (auto simp: vf_insert_stream_packet_def is_panic_and_then invalid_def Let_def
      split: av_packet.splits)

section \<open>Forwarding\<close>

definition vf_sendable :: "bool \<Rightarrow> 'd pending_group \<Rightarrow> bool" where
  "vf_sendable b g \<longleftrightarrow> \<not> config_is_none (config_packet g) \<and> b = config_is_ready (config_packet g)
     \<and> (b \<or> datagrams g \<noteq> [])"

lemma index_shift:
  "Suc n \<le> i \<and> i - Suc n < length gs \<and> Q (gs ! (i - Suc n))
   \<Longrightarrow> n \<le> i \<and> i - n < length (g # gs) \<and> Q ((g # gs) ! (i - n))"
proof -
  assume a: "Suc n \<le> i \<and> i - Suc n < length gs \<and> Q (gs ! (i - Suc n))"
  then have "i - n = Suc (i - Suc n)" by (simp add: Suc_diff_Suc)
  with a show ?thesis by simp
qed

lemma vf_next_loop_ready:
  "vf_next_loop all now nxt n gs cached = NReady i b \<Longrightarrow>
     n \<le> i \<and> i - n < length gs \<and> vf_sendable b (gs ! (i - n))"
proof (induction all now nxt n gs cached rule: vf_next_loop.induct)
  case (2 all now nxt n g gs cached)
  have here: "n \<le> n \<and> n - n < length (g # gs) \<and> vf_sendable c ((g # gs) ! (n - n))"
    if "\<not> config_is_none (config_packet g)" "c = config_is_ready (config_packet g)"
      "c \<or> datagrams g \<noteq> []" for c
    using that by (simp add: vf_sendable_def)
  show ?case
  proof (cases "config_is_none (config_packet g)")
    case True
    with "2.prems" show ?thesis using "2.IH"(1) [OF True] by (intro index_shift) simp
  next
    case cfg: False
    show ?thesis
    proof (cases "case config_packet g of CReady _ k \<Rightarrow> k = nxt | _ \<Rightarrow> False")
      case True
      with cfg "2.prems" here [of True] show ?thesis by (cases "config_packet g") auto
    next
      case False
      note nrec = "2.IH"(2,3) [OF cfg False]
      show ?thesis
      proof (cases "datagrams g")
        case Nil
        with cfg False "2.prems" nrec(1) show ?thesis by (intro index_shift) simp
      next
        case (Cons d ds)
        show ?thesis
        proof (cases "dp_seq d = nxt")
          case True
          with cfg False Cons "2.prems" here [of "config_is_ready (config_packet g)"]
          show ?thesis by simp
        next
          case nd: False
          show ?thesis
          proof (cases "case cached of Some c \<Rightarrow> c | None \<Rightarrow> vf_min_instant all")
            case None
            with cfg False Cons nd "2.prems" nrec(2) [OF Cons nd refl None]
            show ?thesis by (intro index_shift) simp
          next
            case (Some t)
            with cfg False Cons nd "2.prems" here [of "config_is_ready (config_packet g)"]
            show ?thesis by (simp add: Let_def split: if_splits)
          qed
        qed
      qed
    qed
  qed
qed simp

lemma vf_next_packet_ready:
  assumes "vf_next_packet now nxt p = NReady i b"
  obtains g rest where "drop i (groups p) = g # rest" "i < length (groups p)" "g = groups p ! i"
    "\<not> config_is_none (config_packet g)" "b = config_is_ready (config_packet g)" "b \<or> datagrams g \<noteq> []"
proof -
  have "i < length (groups p) \<and> vf_sendable b (groups p ! i)"
    using vf_next_loop_ready [OF assms [unfolded vf_next_packet_def]] by simp
  then have "i < length (groups p)" "\<not> config_is_none (config_packet (groups p ! i))"
    "b = config_is_ready (config_packet (groups p ! i))" "b \<or> datagrams (groups p ! i) \<noteq> []"
    unfolding vf_sendable_def by blast+
  moreover from this(1) have "drop i (groups p) = groups p ! i # drop (Suc i) (groups p)"
    by (simp add: Cons_nth_drop_Suc)
  ultimately show thesis by (intro that [of "groups p ! i"]) auto
qed

text \<open>Taking a packet always succeeds: the assertions on its way hold.\<close>

lemma vf_take_total: "\<exists>a p'. vf_take_next_packet now nxt p = Inr (a, p')"
proof (cases "vf_next_packet now nxt p")
  case (NReady i b)
  obtain g rest where g: "drop i (groups p) = g # rest" "i < length (groups p)" "g = groups p ! i"
    "\<not> config_is_none (config_packet g)" "b = config_is_ready (config_packet g)" "b \<or> datagrams g \<noteq> []"
    by (rule vf_next_packet_ready [OF NReady])
  show ?thesis
  proof (cases b)
    case True
    with g(5) obtain q k where "config_packet g = CReady q k" by (cases "config_packet g") auto
    with NReady g(1) True show ?thesis by (simp add: vf_take_next_packet_def)
  next
    case False
    with g(6) obtain d ds where "datagrams g = d # ds" by (cases "datagrams g") auto
    with NReady g(1,4) False show ?thesis
      by (simp add: vf_take_next_packet_def Let_def split: prod.splits)
  qed
qed (simp_all add: vf_take_next_packet_def)

text \<open>The expired objects of a group are those below the forwarded packet.\<close>

lemma vf_drop_expired_spec:
  assumes "sorted_key ds_seq (segments g)" "vf_drop_expired_segments k g = (st, g')"
  obtains ys where "segments g = ys @ segments g'" "\<forall>y \<in> set ys. ds_seq y < k"
    "\<forall>z \<in> set (segments g'). k \<le> ds_seq z" "g' = g\<lparr>segments := segments g'\<rparr>"
    "st = vf_sum_stats (map vf_fec_stats ys)"
proof (cases "binary_search_by_key ds_seq k (segments g)")
  case (Inl i)
  obtain ys zs where s: "segments g = ys @ zs" "i = length ys"
    "\<forall>y \<in> set ys. ds_seq y < k" "\<forall>z \<in> set zs. k < ds_seq z"
    by (rule binary_search_Err [OF assms(1) Inl])
  with assms(2) Inl show thesis
    by (intro that [of ys]) (auto simp: vf_drop_expired_segments_def Let_def less_imp_le)
next
  case (Inr i)
  obtain ys x zs where s: "segments g = ys @ x # zs" "i = length ys" "ds_seq x = k"
    "\<forall>y \<in> set ys. ds_seq y < k" "\<forall>z \<in> set zs. k < ds_seq z"
    by (rule binary_search_Ok [OF assms(1) Inr])
  with assms(2) Inr show thesis
    by (intro that [of ys]) (auto simp: vf_drop_expired_segments_def Let_def less_imp_le)
qed

lemma vf_inv_drop:
  assumes "vf_inv rq good p" "drop i (groups p) = g # rest" "vf_group_inv rq good g'"
    and "group_seq g' = group_seq g"
    and "fst (vf_usage g') \<le> fst (vf_usage g)" "snd (vf_usage g') \<le> snd (vf_usage g)"
  shows "vf_inv rq good (p\<lparr>groups := g' # rest, retired_stats := st\<rparr>)"
proof -
  have a: "groups p = take i (groups p) @ g # rest" using assms(2) append_take_drop_id [of i "groups p"] by simp
  have so: "sorted_key group_seq (g # rest)"
    using assms(1,2) sorted_key_drop [of group_seq "groups p" i] by (simp add: vf_inv_def)
  have obj: "vf_objects (groups p) = vf_objects (take i (groups p)) + fst (vf_usage g) + vf_objects rest"
    and byt: "vf_bytes (groups p) = vf_bytes (take i (groups p)) + snd (vf_usage g) + vf_bytes rest"
    by (subst a, simp add: vf_usage_simps)+
  have len: "length (g' # rest) \<le> length (groups p)" by (subst a) simp
  have sub: "set rest \<subseteq> set (groups p)" by (subst a) auto
  have "sorted_key group_seq (g' # rest)" using so assms(4) by simp
  moreover have "length (g' # rest) \<le> 32" using len assms(1) by (simp add: vf_inv_def)
  moreover have "\<forall>x \<in> set (g' # rest). vf_group_inv rq good x"
    using sub assms(1,3) by (auto simp: vf_inv_def)
  moreover have "vf_objects (g' # rest) \<le> 128"
    using obj assms(1,5) by (simp add: vf_inv_def vf_usage_simps)
  moreover have "vf_bytes (g' # rest) \<le> 256 * 1024 * 1024"
    using byt assms(1,6) by (simp add: vf_inv_def vf_usage_simps)
  ultimately show ?thesis by (simp add: vf_inv_def)
qed

lemma vf_inv_member: "vf_inv rq good p \<Longrightarrow> drop i (groups p) = g # rest \<Longrightarrow> vf_group_inv rq good g"
  using in_set_dropD [of g i "groups p"] by (simp add: vf_inv_def)

lemma vf_take_inv:
  assumes "vf_inv rq good p" "vf_take_next_packet now nxt p = Inr (a, p')"
  shows "vf_inv rq good p'"
proof (cases a)
  case (APacket k packet stats)
  from assms(2) [unfolded APacket] show ?thesis
  proof (cases rule: vf_take_packet_cases)
    case (config i g rest)
    have "vf_group_inv rq good g" using vf_inv_member [OF assms(1) config(2)] .
    then show ?thesis
      unfolding config(4) using config(3)
      by (intro vf_inv_drop [OF assms(1) config(2)])
         (auto simp: vf_group_inv_def vf_usage_config split: av_packet.splits)
  next
    case (datagram i g rest d ds expired g')
    have gi: "vf_group_inv rq good g" using vf_inv_member [OF assms(1) datagram(2)] .
    have gi': "vf_group_inv rq good (g\<lparr>datagrams := ds\<rparr>)" using vf_group_inv_tl(1) [OF gi datagram(4)] .
    then have so: "sorted_key ds_seq (segments (g\<lparr>datagrams := ds\<rparr>))" by (simp add: vf_group_inv_def)
    obtain ys where ys: "segments (g\<lparr>datagrams := ds\<rparr>) = ys @ segments g'"
      "\<forall>y \<in> set ys. ds_seq y < dp_seq d" "\<forall>z \<in> set (segments g'). dp_seq d \<le> ds_seq z"
      "g' = g\<lparr>datagrams := ds\<rparr>\<lparr>segments := segments g'\<rparr>"
      "expired = vf_sum_stats (map vf_fec_stats ys)"
      by (rule vf_drop_expired_spec [OF so datagram(7)])
    note eq = vf_drop_expired_simps [OF datagram(7)]
    have "vf_group_inv rq good g'"
      using gi' ys(1) eq by (auto simp: vf_group_inv_def sorted_key_append)
    then show ?thesis
      unfolding datagram(8) using ys(1) datagram(4) eq
      by (intro vf_inv_drop [OF assms(1) datagram(2)]) (simp_all add: vf_usage_config)
  qed
qed (use assms in \<open>auto simp: vf_take_next_packet_def Let_def and_then_eq_Inr
       split: next_packet.splits list.splits if_splits prod.splits\<close>)

section \<open>The loop\<close>

text \<open>One round of the inner loop, by the action taken.\<close>

lemma vf_drain_cases:
  obtains (stops) a p dl where "vf_take_next_packet (ts i) (vf_next s) (vf_pending s) = Inr (a, p)"
      "\<forall>k packet st. a \<noteq> APacket k packet st"
      "vf_drain ts i s = ([], Running (s\<lparr>vf_pending := p, vf_deadline := dl\<rparr>))"
      "dl = (case a of ADeadline t \<Rightarrow> Some t | _ \<Rightarrow> None)"
  | (takes) k packet st p os r where
      "vf_take_next_packet (ts i) (vf_next s) (vf_pending s) = Inr (APacket k packet st, p)"
      "vf_drain ts (Suc i) (vf_account k st (s\<lparr>vf_pending := p\<rparr>)) = (os, r)"
      "vf_drain ts i s = ((Some k, packet) # os, r)"
proof -
  obtain a p where ap: "vf_take_next_packet (ts i) (vf_next s) (vf_pending s) = Inr (a, p)"
    using vf_take_total by blast
  show thesis
  proof (cases a)
    case (APacket k packet st)
    obtain os r where "vf_drain ts (Suc i) (vf_account k st (s\<lparr>vf_pending := p\<rparr>)) = (os, r)"
      by (cases "vf_drain ts (Suc i) (vf_account k st (s\<lparr>vf_pending := p\<rparr>))")
    with ap APacket show thesis by (intro takes) (auto simp: vf_drain.simps [of ts i s])
  next
    case (ADeadline t)
    with ap show thesis by (intro stops [of a p "Some t"]) (auto simp: vf_drain.simps [of ts i s])
  next
    case ANone
    with ap show thesis by (intro stops [of a p None]) (auto simp: vf_drain.simps [of ts i s])
  qed
qed

lemma vf_drain_induct [case_names stops takes]:
  assumes "\<And>ts i s a p dl. vf_take_next_packet (ts i) (vf_next s) (vf_pending s) = Inr (a, p)
      \<Longrightarrow> \<forall>k packet st. a \<noteq> APacket k packet st \<Longrightarrow> dl = (case a of ADeadline t \<Rightarrow> Some t | _ \<Rightarrow> None)
      \<Longrightarrow> P ts i s [] (s\<lparr>vf_pending := p, vf_deadline := dl\<rparr>)"
    and "\<And>ts i s k packet st p os s'.
      vf_take_next_packet (ts i) (vf_next s) (vf_pending s) = Inr (APacket k packet st, p)
      \<Longrightarrow> P ts (Suc i) (vf_account k st (s\<lparr>vf_pending := p\<rparr>)) os s'
      \<Longrightarrow> P ts i s ((Some k, packet) # os) s'"
  shows "\<exists>os s'. vf_drain ts i s = (os, Running s') \<and> P ts i s os s'"
proof (induction "ready_count (groups (vf_pending s))" arbitrary: i s rule: less_induct)
  case less
  show ?case
  proof (cases rule: vf_drain_cases [of ts i s])
    case (stops a p dl)
    with assms(1) [of ts i s a p dl, OF stops(1,2,4)] show ?thesis by blast
  next
    case (takes k packet st p os r)
    let ?s1 = "vf_account k st (s\<lparr>vf_pending := p\<rparr>)"
    have "ready_count (groups (vf_pending ?s1)) < ready_count (groups (vf_pending s))"
      using vf_take_decreases [OF takes(1)] by simp
    from less [OF this] obtain os1 s1 where "vf_drain ts (Suc i) ?s1 = (os1, Running s1)"
      "P ts (Suc i) ?s1 os1 s1" by blast
    with takes assms(2) [of ts i s k packet st p os1 s1, OF takes(1)] show ?thesis by auto
  qed
qed

lemma vf_drain_preserves:
  assumes "P (vf_pending s)"
    and "\<And>now nxt p a p'. P p \<Longrightarrow> vf_take_next_packet now nxt p = Inr (a, p') \<Longrightarrow> P p'"
  shows "\<exists>os s'. vf_drain ts i s = (os, Running s') \<and> P (vf_pending s')"
proof -
  have "\<exists>os s'. vf_drain ts i s = (os, Running s') \<and> (P (vf_pending s) \<longrightarrow> P (vf_pending s'))"
  proof (rule vf_drain_induct, goal_cases)
    case (1 ts i s a p dl)
    with assms(2) show ?case by auto
  next
    case (2 ts i s k packet st p os s')
    with assms(2) show ?case by auto
  qed
  with assms(1) show ?thesis by blast
qed

text \<open>The whole step: messages of any content keep the invariant and never panic.\<close>

definition vf_sinv :: "'d raptorq \<Rightarrow> (oti \<Rightarrow> 'd \<Rightarrow> bool) \<Rightarrow> 'd vf_state \<Rightarrow> bool" where
  "vf_sinv rq good s \<longleftrightarrow> decoder_ok rq good \<and> vf_inv rq good (vf_pending s)"

definition errors_are_errors :: "'m event \<Rightarrow> 's \<Rightarrow> bool" where
  "errors_are_errors ev s = (case snd ev of MsgErr e \<Rightarrow> \<not> panics e | _ \<Rightarrow> True)"

lemma vf_drain_inv:
  "vf_sinv rq good s \<Longrightarrow> \<exists>os s'. vf_drain ts i s = (os, Running s') \<and> vf_sinv rq good s'"
  using vf_drain_preserves [of "\<lambda>p. decoder_ok rq good \<and> vf_inv rq good p" s ts i] vf_take_inv
  by (fastforce simp: vf_sinv_def)

text \<open>
  What a step does, by its outcome. The unrolled numbers of a message are those the
  sequencers give in the state in which it arrives.
\<close>

definition vf_unroll_k :: "u32 \<Rightarrow> 'd vf_state \<Rightarrow> u64" where
  "vf_unroll_k raw s = fst (seq_u32 (vf_kseq s) raw)"

definition vf_unroll_g :: "u32 \<Rightarrow> 'd vf_state \<Rightarrow> u64" where
  "vf_unroll_g raw s = fst (seq_u32 (vf_gseq s) raw)"

definition vf_inserted :: "'d raptorq \<Rightarrow> vf_msg event \<Rightarrow> 'd vf_state \<Rightarrow> 'd pending_groups result \<Rightarrow> bool" where
  "vf_inserted rq ev s r \<longleftrightarrow>
     (\<exists>packet raw_k raw_g. snd ev = Msg (StreamMsg packet raw_k raw_g) \<and> vf_unroll_k raw_k s \<ge> vf_next s
        \<and> r = vf_insert_stream_packet (fst ev 0) (vf_unroll_g raw_g s) (vf_unroll_k raw_k s) packet (vf_pending s))
     \<or> (\<exists>data raw_k raw_g oti pid. snd ev = Msg (DatagramMsg data raw_k raw_g oti pid)
        \<and> vf_unroll_k raw_k s \<ge> vf_next s
        \<and> r = vf_insert_datagram rq (fst ev 0) (vf_unroll_g raw_g s) (vf_unroll_k raw_k s) oti pid data (vf_pending s))"

definition vf_sequenced :: "u32 \<Rightarrow> u32 \<Rightarrow> 'd vf_state \<Rightarrow> 'd vf_state" where
  "vf_sequenced raw_k raw_g s =
     s\<lparr>vf_kseq := snd (seq_u32 (vf_kseq s) raw_k), vf_gseq := snd (seq_u32 (vf_gseq s) raw_g)\<rparr>"

lemma vf_sequenced_simps [simp]:
  "vf_pending (vf_sequenced a b s) = vf_pending s" "vf_next (vf_sequenced a b s) = vf_next s"
  "vf_stats (vf_sequenced a b s) = vf_stats s" "vf_deadline (vf_sequenced a b s) = vf_deadline s"
  by (simp_all add: vf_sequenced_def)

lemma vf_step_datagram:
  assumes "snd ev = Msg (DatagramMsg data raw_k raw_g oti pid)"
  shows "vf_step rq ev s =
     (if vf_unroll_k raw_k s < vf_next s then ([], Running (vf_sequenced raw_k raw_g s))
      else case vf_insert_datagram rq (fst ev 0) (vf_unroll_g raw_g s) (vf_unroll_k raw_k s) oti pid data
                  (vf_pending s) of
             Inl e \<Rightarrow> ([], Failed e)
           | Inr p \<Rightarrow> vf_drain (fst ev) 1 ((vf_sequenced raw_k raw_g s)\<lparr>vf_pending := p\<rparr>))"
  using assms
  by (simp add: vf_step_def Let_def vf_unroll_k_def vf_unroll_g_def vf_sequenced_def
      split: prod.splits sum.splits)

lemma vf_step_stream:
  assumes "snd ev = Msg (StreamMsg packet raw_k raw_g)" "\<forall>h. packet \<noteq> Codec h"
  shows "vf_step rq ev s =
     (if vf_unroll_k raw_k s \<ge> vf_next s
      then case vf_insert_stream_packet (fst ev 0) (vf_unroll_g raw_g s) (vf_unroll_k raw_k s) packet
                  (vf_pending s) of
             Inl e \<Rightarrow> ([], Failed e)
           | Inr p \<Rightarrow> vf_drain (fst ev) 1 ((vf_sequenced raw_k raw_g s)\<lparr>vf_pending := p\<rparr>)
      else vf_drain (fst ev) 1 (vf_sequenced raw_k raw_g s))"
  using assms
  by (cases packet)
     (simp_all add: vf_step_def Let_def vf_unroll_k_def vf_unroll_g_def vf_sequenced_def
      split: prod.splits sum.splits)

lemma vf_step_simple [simp]:
  "vf_step rq (ts, Closed) s = ([], Finished)" "vf_step rq (ts, MsgErr e) s = ([], Failed e)"
  "vf_step rq (ts, Msg (StreamMsg (Codec h) i j)) s = ([(None, Codec h)], Running s)"
  "vf_step rq (ts, Timer) s =
     (case vf_deadline s of
        Some t \<Rightarrow> if t \<le> ts 0 then vf_drain ts 1 s else ([], Running s)
      | None \<Rightarrow> ([], Running s))"
  by (simp_all add: vf_step_def)

lemma vf_step_cases:
  assumes "vf_step rq ev s = (os, st)"
  obtains (closed) "os = []" "st = Finished"
  | (error) e where "snd ev = MsgErr e" "os = []" "st = Failed e"
  | (codec) h where "os = [(None, Codec h)]" "st = Running s"
  | (idle) s1 where "os = []" "st = Running s1" "vf_pending s1 = vf_pending s" "vf_next s1 = vf_next s"
      "vf_stats s1 = vf_stats s" "vf_deadline s1 = vf_deadline s"
  | (refused) e where "vf_inserted rq ev s (Inl e)" "os = []" "st = Failed e"
  | (drained) s1 where "vf_drain (fst ev) 1 s1 = (os, st)" "vf_next s1 = vf_next s"
      "vf_stats s1 = vf_stats s" "vf_pending s1 = vf_pending s \<or> vf_inserted rq ev s (Inr (vf_pending s1))"
proof (cases "snd ev")
  case (Msg m)
  show thesis
  proof (cases m)
    case (DatagramMsg data raw_k raw_g oti pid)
    note step = vf_step_datagram [OF Msg [unfolded DatagramMsg], of rq s]
    let ?ins = "vf_insert_datagram rq (fst ev 0) (vf_unroll_g raw_g s) (vf_unroll_k raw_k s) oti pid data (vf_pending s)"
    have "vf_unroll_k raw_k s \<ge> vf_next s \<Longrightarrow> vf_inserted rq ev s ?ins"
      using Msg DatagramMsg by (auto simp: vf_inserted_def)
    with assms step idle [of "vf_sequenced raw_k raw_g s"] refused
      drained [of "(vf_sequenced raw_k raw_g s)\<lparr>vf_pending := projr ?ins\<rparr>"]
    show thesis by (cases ?ins; cases "vf_unroll_k raw_k s < vf_next s") (simp_all add: not_less)
  next
    case (StreamMsg packet raw_k raw_g)
    let ?ins = "vf_insert_stream_packet (fst ev 0) (vf_unroll_g raw_g s) (vf_unroll_k raw_k s) packet (vf_pending s)"
    show thesis
    proof (cases "\<exists>h. packet = Codec h")
      case True
      with assms Msg StreamMsg codec show thesis by (auto simp: vf_step_def)
    next
      case False
      note step = vf_step_stream [OF Msg [unfolded StreamMsg], of rq s]
      have "vf_unroll_k raw_k s \<ge> vf_next s \<Longrightarrow> vf_inserted rq ev s ?ins"
        using Msg StreamMsg by (auto simp: vf_inserted_def)
      with assms step False refused drained [of "vf_sequenced raw_k raw_g s"]
        drained [of "(vf_sequenced raw_k raw_g s)\<lparr>vf_pending := projr ?ins\<rparr>"]
      show thesis by (cases ?ins; cases "vf_unroll_k raw_k s \<ge> vf_next s") simp_all
    qed
  qed
qed (use assms closed error idle [of s] drained [of s] in
     \<open>auto simp: vf_step_def Let_def split: option.splits if_splits\<close>)

lemma vf_inserted_no_panic:
  assumes "decoder_ok rq good" "vf_inv rq good (vf_pending s)" "vf_inserted rq ev s r"
  shows "\<not> is_panic r"
  using assms(3) vf_insert_stream_no_panic [of _ _ _ _ "vf_pending s"]
    vf_insert_datagram_no_panic [OF assms(1,2)]
  unfolding vf_inserted_def by blast

lemma vf_step_safe:
  assumes "vf_sinv rq good s" "errors_are_errors ev s" "vf_step rq ev s = (os, st)"
  shows "(\<forall>s'. st = Running s' \<longrightarrow> vf_sinv rq good s') \<and> (\<forall>f. st = Failed f \<longrightarrow> \<not> panics f)"
  using assms(3)
proof (cases rule: vf_step_cases)
  case (error e)
  with assms(2) show ?thesis by (simp add: errors_are_errors_def)
next
  case (idle s1)
  with assms(1) show ?thesis by (simp add: vf_sinv_def)
next
  case (refused e)
  have ok: "decoder_ok rq good" "vf_inv rq good (vf_pending s)" using assms(1) by (auto simp: vf_sinv_def)
  from vf_inserted_no_panic [OF ok refused(1)] refused(3) show ?thesis by simp
next
  case (drained s1)
  have ok: "decoder_ok rq good" "vf_inv rq good (vf_pending s)" using assms(1) by (auto simp: vf_sinv_def)
  have "vf_sinv rq good s1"
    using drained(4) ok vf_insert_stream_inv [OF ok(2)] vf_insert_datagram_inv [OF ok]
    unfolding vf_sinv_def vf_inserted_def by metis
  from vf_drain_inv [OF this, of "fst ev" 1] drained(1) show ?thesis by auto
qed (use assms(1) in simp_all)

interpretation vf: receiver "vf_step rq" "vf_sinv rq good" errors_are_errors for rq good
proof (standard, goal_cases)
  case (1 s e os s')
  then show ?case using vf_step_safe [OF 1] by blast
next
  case (2 s e os f)
  then show ?case using vf_step_safe [OF 2] by blast
qed

end
