(* ===== verification/VideoFec_Props.thy ===== *)
theory VideoFec_Props
  imports VideoFec_Inv
begin

text \<open>
  What the FEC video receiver guarantees over whole runs: it survives every input within its
  memory budget, forwards in the sender's order and accounts for what it passes over, never
  sleeps on a packet that could be forwarded, retires only what is stale, and conserves its
  symbol statistics.
\<close>

section \<open>A sample run\<close>

text \<open>A config packet and the one symbol of a media packet, both forwarded at once.\<close>

lemma sample_unroll:
  "seq_u32 sequencer_new 0 = (0, sequencer_new)" "seq_u32 sequencer_new 1 = (1, \<lparr>newest_seq = 1\<rparr>)"
  "seq_u32 \<lparr>newest_seq = 1\<rparr> 1 = (1, \<lparr>newest_seq = 1\<rparr>)"
  by (simp_all add: seq_u32_def sequencer_seq_def sequencer_new_def Let_def push_bit_eq_mult word_le_nat_alt)

definition sample_group :: "config_packet \<Rightarrow> ref_decoder pending_groups" where
  "sample_group c = \<lparr>groups = [\<lparr>group_seq = 1, config_packet = c, datagrams = [], segments = []\<rparr>],
     retired_through = None, retired_stats = fs_zero\<rparr>"

lemma sample_insert_config:
  "vf_insert_stream_packet t 1 0 sample_config vf_groups_new = Inr (sample_group (CReady sample_config 0))"
  by (simp add: vf_insert_stream_packet_def sample_config_def vf_admit_fits vf_groups_new_def
      vf_usage_simps vf_prepare_group_def MAX_PENDING_GROUPS_def binary_search_small insert_at_def
      vf_group_new_def Let_def sample_group_def)

lemma sample_step_config:
  "vf_step ref_codec (ts, Msg (StreamMsg sample_config 0 1)) vf_init
   = ([(Some 0, sample_config)],
      Running (vf_init\<lparr>vf_gseq := \<lparr>newest_seq = 1\<rparr>, vf_pending := sample_group CSent, vf_next := 1\<rparr>))"
  using sample_insert_config [of "ts 0"]
  by (simp add: vf_step_def sample_config_def vf_init_def Let_def sample_unroll vf_drain.simps
      vf_take_next_packet_def vf_next_packet_def vf_account_def fs_zero_def sample_group_def)

definition sample_done :: "instant \<Rightarrow> u64 \<Rightarrow> datagram_packet" where
  "sample_done t k = \<lparr>dp_oti = sample_oti, dp_packet = sample_media, dp_seq = k, dp_instant = t,
     dp_stats = \<lparr>fs_source = 1, fs_missing = 0, fs_unrecovered = 0\<rparr>\<rparr>"

lemma sample_insert_symbol:
  "vf_insert_datagram ref_codec t 1 k sample_oti sample_pid sample_symbol (sample_group CSent)
   = Inr (sample_group CSent\<lparr>groups := [\<lparr>group_seq = 1, config_packet = CSent,
        datagrams = [sample_done t k], segments = []\<rparr>]\<rparr>)"
proof -
  have g: "vf_group_insert ref_codec t k sample_oti sample_pid sample_symbol
      \<lparr>group_seq = 1, config_packet = CSent, datagrams = [], segments = []\<rparr>
    = Inr \<lparr>group_seq = 1, config_packet = CSent, datagrams = [sample_done t k], segments = []\<rparr>"
    using sample_decode sample_media_packet sample_symbols
    by (simp add: vf_group_insert_def binary_search_small vf_prepare_segments_def vf_segments_new_def
        object_decoder_new_def sample_oti_valid sample_oti_blocks insert_at_def vf_add_packet_def
        vf_is_complete_def vf_assemble_def vf_insert_datagram_packet_def remove_at_def vf_fec_stats_def
        Let_def sample_done_def)
  show ?thesis
    by (simp add: vf_insert_datagram_def sample_oti_valid vf_is_retired_def sample_group_def vf_contains_def
        binary_search_small vf_admit_fits sample_reservation vf_usage_simps vf_usage_def vf_prepare_group_def Let_def g)
qed

lemma sample_step_symbol:
  "vf_step ref_codec (ts, Msg (DatagramMsg sample_symbol 1 1 sample_oti sample_pid))
     (vf_init\<lparr>vf_gseq := \<lparr>newest_seq = 1\<rparr>, vf_pending := sample_group CSent, vf_next := 1\<rparr>)
   = ([(Some 1, sample_media)],
      Running (vf_init\<lparr>vf_gseq := \<lparr>newest_seq = 1\<rparr>, vf_kseq := \<lparr>newest_seq = 1\<rparr>,
        vf_pending := sample_group CSent, vf_next := 2,
        vf_stats := stats_new\<lparr>video_fec_source_symbols := Some 1,
          video_fec_source_symbols_missing := Some 0, video_fec_source_symbols_unrecovered := Some 0\<rparr>\<rparr>))"
  using sample_insert_symbol [of "ts 0" 1]
  by (simp add: vf_step_def vf_init_def Let_def sample_unroll vf_drain.simps
      vf_take_next_packet_def vf_next_packet_def vf_account_def fs_zero_def sample_group_def sample_done_def
      vf_drop_expired_segments_def binary_search_small vf_sum_stats_def fs_accumulate_def stats_new_def add_opt_def)

definition sample_events :: "vf_msg event list" where
  "sample_events = [(\<lambda>_. 0, Msg (StreamMsg sample_config 0 1)),
     (\<lambda>_. 7, Msg (DatagramMsg sample_symbol 1 1 sample_oti sample_pid))]"

lemma sample_run:
  "\<exists>s. run (vf_step ref_codec) sample_events vf_init = ([(Some 0, sample_config), (Some 1, sample_media)], Running s)
     \<and> vf_next s = 2 \<and> vf_pending s = sample_group CSent"
  using sample_step_config sample_step_symbol by (simp add: sample_events_def)

section \<open>Hostile input\<close>

lemma vf_parse_no_panic: "\<not> is_panic (vf_parse rq dg)"
  by (auto simp: vf_parse_def vf_DATAGRAM_HEADER_SIZE_def parse_datagram_def Let_def is_panic_and_then
      invalid_def)

lemma vf_recv_datagrams_no_panic:
  assumes "list_all (\<lambda>d. \<not> is_panic d) dgs" "r \<in> set (vf_recv_datagrams rq dgs)"
  shows "\<not> is_panic r"
  using assms
proof (induction dgs)
  case (Cons dg dgs)
  have np: "\<not> is_panic (and_then (map_err protocol_error_new dg) (vf_parse rq))"
    using Cons.prems(1) vf_parse_no_panic by (auto simp: is_panic_and_then)
  with Cons show ?case
    by (cases "and_then (map_err protocol_error_new dg) (vf_parse rq)") auto
qed simp

lemma read_stream_packet_no_panic: "\<not> is_panic (read_stream_packet r m)"
proof -
  have "\<not> is_panic (codec_deserialize raw)" if "length raw = 12" "raw ! 0 AND 0x80 = 0" for raw
    using that by (simp add: codec_deserialize_def SERIALIZED_SIZE_def)
  moreover have "\<not> is_panic (media_deserialize raw)" if "length raw = 12" "raw ! 0 AND 0x80 \<noteq> 0" for raw
    using that by (simp add: media_deserialize_def Let_def SERIALIZED_SIZE_def)
  ultimately show ?thesis
    by (auto simp: read_stream_packet_def is_panic_and_then read_exact_eq_Inr fec_limits invalid_def
        split: if_splits)
qed

lemma vf_recv_stream_no_panic:
  assumes "x \<in> set (vf_recv_stream_packets r)"
  shows "\<not> is_panic x"
  using assms
proof (induction r rule: vf_recv_stream_packets.induct)
  case (1 r)
  have np: "\<not> is_panic (vf_read_stream_msg r)"
    using read_stream_packet_no_panic by (auto simp: vf_read_stream_msg_def is_panic_and_then)
  show ?case
  proof (cases "vf_read_stream_msg r")
    case (Inl e)
    with "1.prems" np show ?thesis by (subst (asm) vf_recv_stream_packets.simps) auto
  next
    case (Inr y)
    with "1.prems" have "x = Inr (fst y) \<or> x \<in> set (vf_recv_stream_packets (snd y))"
      by (subst (asm) vf_recv_stream_packets.simps) (auto split: prod.splits)
    with "1.IH" [OF Inr, of "fst y" "snd y"] show ?thesis by auto
  qed
qed

text \<open>The wake-ups a set of results of the reader tasks can cause, besides timers and the end.\<close>

fun delivered :: "'m result set \<Rightarrow> 'm wakeup \<Rightarrow> bool" where
  "delivered R (Msg m) = (Inr m \<in> R)"
| "delivered R (MsgErr e) = (Inl e \<in> R)"
| "delivered R w = True"

lemma delivered_no_panic:
  assumes "\<forall>ev \<in> set es. delivered R (snd ev)" "\<forall>r \<in> R. \<not> is_panic r"
  shows "run_ok errors_are_errors step es s"
proof (rule run_ok_all)
  fix ev s' assume "ev \<in> set es"
  with assms have "delivered R (snd ev)" by blast
  with assms(2) show "errors_are_errors ev s'"
    by (cases "snd ev") (auto simp: errors_are_errors_def)
qed

text \<open>
  C10: Whatever bytes a peer sends on the stream and in datagrams, in whatever order they reach
  the processing loop and whenever its timer fires, the FEC video receiver never panics (it
  may end with an error), and at every moment it holds at most 32 groups and 128 objects,
  for which it reserved at most 256 MiB.
\<close>

theorem vf_receiver_safe:
  assumes "decoder_ok rq good" "list_all (\<lambda>d. \<not> is_panic d) dgs"
    and "\<forall>ev \<in> set es. delivered (set (vf_recv_datagrams rq dgs) \<union> set (vf_recv_stream_packets stream)) (snd ev)"
    and "run (vf_step rq) es vf_init = (os, st)"
  shows "(\<forall>f. st = Failed f \<longrightarrow> \<not> panics f)
       \<and> (\<forall>s. st = Running s \<longrightarrow> length (groups (vf_pending s)) \<le> 32
            \<and> vf_objects (groups (vf_pending s)) \<le> 128
            \<and> vf_bytes (groups (vf_pending s)) \<le> 256 * 1024 * 1024)"
proof -
  have i: "vf_sinv rq good vf_init"
    using assms(1) vf_groups_new_inv by (simp add: vf_sinv_def vf_init_def)
  have "\<forall>r \<in> set (vf_recv_datagrams rq dgs) \<union> set (vf_recv_stream_packets stream). \<not> is_panic r"
    using vf_recv_datagrams_no_panic [OF assms(2)] vf_recv_stream_no_panic by blast
  note ok = delivered_no_panic [OF assms(3) this, of "vf_step rq" vf_init]
  have "vf_sinv rq good s" if "st = Running s" for s
    using vf.run_inv [OF i ok] assms(4) that by blast
  moreover have "\<not> panics f" if "st = Failed f" for f
    using vf.run_no_panic [OF i ok] assms(4) that by blast
  ultimately show ?thesis unfolding vf_sinv_def vf_inv_def by blast
qed

text \<open>The same messages as the bytes that carry them.\<close>

definition sample_wire :: bytes where
  "sample_wire = [0, 0, 0, 0, 0, 1, 0, 0, 0, 1] @ ref_oti_serialize sample_oti
     @ ref_id_serialize sample_pid @ sample_symbol"

definition sample_stream :: reader where
  "sample_stream = \<lparr>rbuf = [0, 0, 0, 0, 0, 0, 0, 1, 0xC0, 0, 0, 0, 0, 0, 0, 0, 0, 0, 0, 0], rerr = None\<rparr>"

lemma sample_wire_bytes:
  "sample_wire = [0, 0, 0, 0, 0, 1, 0, 0, 0, 1,
     0, 0, 0, 0, 13, 0, 0, 16, 1, 0, 1, 1, 0, 0, 0, 0] @ sample_symbol"
  by (simp add: sample_wire_def ref_oti_serialize_def sample_oti_def sample_pid_def put_u16_def
      ref_id_serialize_def be_nat_numeral replicate_numeral)

lemma sample_wire_parses:
  "vf_parse ref_codec sample_wire = Inr (DatagramMsg sample_symbol 1 1 sample_oti sample_pid)"
proof -
  have "oti_deserialize ref_codec [0, 0, 0, 0, 13, 0, 0, 16, 1, 0, 1, 1] = sample_oti"
    by (simp add: ref_oti_deserialize_def nat_be_def get_u16_def sample_oti_def)
  moreover have "payload_id_deserialize ref_codec [0, 0, 0, 0] = sample_pid"
    by (simp add: ref_id_deserialize_def nat_be_def sample_pid_def)
  moreover have "validate_symbol sample_oti sample_pid 16 = Inr ()"
    by (simp add: validate_symbol_def sample_oti_def sample_pid_def)
  moreover have "length sample_symbol = 16" by (simp add: sample_symbol_def)
  ultimately show ?thesis
    by (simp add: vf_parse_def vf_DATAGRAM_HEADER_SIZE_def parse_datagram_def sample_wire_bytes
        sample_oti_valid Let_def get_u32_def nat_be_def)
qed

lemma sample_stream_parses:
  "Inr (StreamMsg sample_config 0 1) \<in> set (vf_recv_stream_packets sample_stream)"
proof -
  have "vf_read_stream_msg sample_stream = Inr (StreamMsg sample_config 0 1, sample_stream\<lparr>rbuf := []\<rparr>)"
    by (simp add: vf_read_stream_msg_def sample_stream_def read_exact_def read_stream_packet_def fec_limits
        media_deserialize_def Let_def get_u64_def get_u32_def nat_be_def push_bit_eq_mult sample_config_def)
  then show ?thesis by (subst vf_recv_stream_packets.simps) simp
qed

theorem vf_receiver_safe_witness:
  "\<exists>s. run (vf_step ref_codec) sample_events vf_init
       = ([(Some 0, sample_config), (Some 1, sample_media)], Running s)
     \<and> vf_objects (groups (vf_pending s)) \<le> 128"
proof -
  obtain s where r: "run (vf_step ref_codec) sample_events vf_init
       = ([(Some 0, sample_config), (Some 1, sample_media)], Running s)" using sample_run by blast
  have "vf_recv_datagrams ref_codec [Inr sample_wire]
      = [Inr (DatagramMsg sample_symbol 1 1 sample_oti sample_pid)]"
    using sample_wire_parses by simp
  then have "\<forall>ev \<in> set sample_events. delivered (set (vf_recv_datagrams ref_codec [Inr sample_wire])
      \<union> set (vf_recv_stream_packets sample_stream)) (snd ev)"
    using sample_stream_parses by (simp add: sample_events_def)
  from vf_receiver_safe [OF ref_decoder_ok _ this r] r show ?thesis by simp
qed

end
