(* ===== verification/VideoFec_Order.thy ===== *)
theory VideoFec_Order
  imports VideoFec_Props
begin

text \<open>
  The order in which the FEC video receiver forwards packets, for a sender that numbers its
  packets as \<open>send\<close> does: every packet belongs to a group, groups follow one another, and the
  config packet of a group comes before its media.
\<close>

section \<open>How a sender lays out its packets\<close>

text \<open>\<open>grp\<close> gives the group of a packet, \<open>conf\<close> says whether it is a config packet.\<close>

definition vf_layout :: "(u64 \<Rightarrow> u64) \<Rightarrow> (u64 \<Rightarrow> bool) \<Rightarrow> bool" where
  "vf_layout grp conf \<longleftrightarrow>
     (\<forall>j k. j \<le> k \<longrightarrow> grp j \<le> grp k) \<and> (\<forall>c k. conf c \<and> grp c = grp k \<longrightarrow> c \<le> k)"

text \<open>A wire number stands for \<open>k\<close> and is within half the wire range of the newest one.\<close>

definition numbered :: "sequencer \<Rightarrow> u32 \<Rightarrow> u64 \<Rightarrow> bool" where
  "numbered sq raw k \<longleftrightarrow>
     unat raw = unat k mod 2 ^ 32 \<and> unat k < 2 ^ 63
     \<and> unat (newest_seq sq) < unat k + 2 ^ 31 \<and> unat k \<le> unat (newest_seq sq) + 2 ^ 31"

fun vf_follows :: "(u64 \<Rightarrow> u64) \<Rightarrow> (u64 \<Rightarrow> bool) \<Rightarrow> 'd vf_state \<Rightarrow> vf_msg wakeup \<Rightarrow> bool" where
  "vf_follows grp conf s (Msg (StreamMsg packet raw_k raw_g)) =
     ((\<exists>h. packet = Codec h) \<or>
      (\<exists>k. conf k \<and> numbered (vf_kseq s) raw_k k \<and> numbered (vf_gseq s) raw_g (grp k)))"
| "vf_follows grp conf s (Msg (DatagramMsg data raw_k raw_g oti pid)) =
     (\<exists>k. \<not> conf k \<and> numbered (vf_kseq s) raw_k k \<and> numbered (vf_gseq s) raw_g (grp k))"
| "vf_follows grp conf s w = True"

definition vf_lawful :: "(u64 \<Rightarrow> u64) \<Rightarrow> (u64 \<Rightarrow> bool) \<Rightarrow> vf_msg event \<Rightarrow> 'd vf_state \<Rightarrow> bool" where
  "vf_lawful grp conf ev s \<longleftrightarrow> errors_are_errors ev s \<and> vf_follows grp conf s (snd ev)"

lemma numbered_unroll:
  assumes "numbered sq raw k" "unat (newest_seq sq) < 2 ^ 63"
  shows "fst (seq_u32 sq raw) = k" "unat (newest_seq (snd (seq_u32 sq raw))) < 2 ^ 63"
proof -
  have "unat (ucast raw :: u64) = unat k mod 2 ^ 32"
    using assms(1) unsigned_less [of raw, where 'a = nat]
    by (simp add: numbered_def unsigned_ucast_eq take_bit_nat_eq_self)
  then have "unat (fst (seq_u32 sq raw)) = unat k"
    "unat (newest_seq (snd (seq_u32 sq raw))) = max (unat (newest_seq sq)) (unat k)"
    using sequencer_seq_exact [of 32 sq "unat k" "ucast raw"] assms
    by (simp_all add: seq_u32_def numbered_def)
  with assms show "fst (seq_u32 sq raw) = k" "unat (newest_seq (snd (seq_u32 sq raw))) < 2 ^ 63"
    by (auto simp: numbered_def intro: unsigned_word_eqI)
qed

section \<open>Pending packets stay ahead of the forwarded ones\<close>

definition seq_placed :: "(u64 \<Rightarrow> u64) \<Rightarrow> u64 \<Rightarrow> u64 \<Rightarrow> u64 \<Rightarrow> bool" where
  "seq_placed grp n g k \<longleftrightarrow> n \<le> k \<and> k \<noteq> - 1 \<and> grp k = g"

definition group_placed :: "(u64 \<Rightarrow> u64) \<Rightarrow> (u64 \<Rightarrow> bool) \<Rightarrow> u64 \<Rightarrow> 'd pending_group \<Rightarrow> bool" where
  "group_placed grp conf n g \<longleftrightarrow>
     (\<forall>k \<in> group_keys g. seq_placed grp n (group_seq g) k \<and> \<not> conf k)
     \<and> (\<forall>q k. config_packet g = CReady q k \<longrightarrow> seq_placed grp n (group_seq g) k \<and> conf k)"

definition vf_placed :: "(u64 \<Rightarrow> u64) \<Rightarrow> (u64 \<Rightarrow> bool) \<Rightarrow> u64 \<Rightarrow> 'd pending_groups \<Rightarrow> bool" where
  "vf_placed grp conf n p \<longleftrightarrow> (\<forall>g \<in> set (groups p). group_placed grp conf n g)"

lemma group_placed_new [simp]: "group_placed grp conf n (vf_group_new g)"
  by (simp add: group_placed_def vf_group_new_def group_keys_def)

lemma group_placed_sub:
  assumes "group_placed grp conf n g" "group_seq g' = group_seq g" "group_keys g' \<subseteq> group_keys g"
    "config_packet g' = config_packet g"
  shows "group_placed grp conf n g'"
  using assms unfolding group_placed_def by auto

lemma vf_retire_placed:
  assumes "vf_placed grp conf n p" "vf_retire_oldest now p = (True, p')"
  shows "vf_placed grp conf n p'"
proof -
  obtain g g' where r: "g \<in> set (groups p)" "set (groups p') \<subseteq> insert g' (set (groups p))"
    "group_seq g' = group_seq g" "config_packet g' = config_packet g" "group_keys g' \<subseteq> group_keys g"
    by (rule vf_retire_group [OF assms(2)])
  have "group_placed grp conf n g" using assms(1) r(1) by (simp add: vf_placed_def)
  from group_placed_sub [OF this r(3,5,4)] assms(1) r(2) show ?thesis by (auto simp: vf_placed_def)
qed

lemma vf_admit_placed:
  "vf_placed grp conf n p \<Longrightarrow> vf_admit now a p = Inr p' \<Longrightarrow> vf_placed grp conf n p'"
  using vf_admit_preserves(1) [of now a p p' "vf_placed grp conf n"] vf_retire_placed by blast

lemma vf_prepare_placed:
  assumes "vf_inv rq good p" "vf_placed grp conf n p" "vf_prepare_group gs p = Inr (i, p')"
  shows "vf_placed grp conf n p'"
proof -
  have so: "sorted_key group_seq (groups p)" using assms(1) by (simp add: vf_inv_def)
  obtain ys g zs where "groups p' = ys @ g # zs" "i = length ys" "group_seq g = gs"
    "\<forall>y \<in> set ys. group_seq y < gs" "\<forall>z \<in> set zs. gs < group_seq z"
    "(groups p = ys @ g # zs \<and> p' = p)
     \<or> (groups p = ys @ zs \<and> g = vf_group_new gs \<and> length (groups p) < 32
        \<and> p' = p\<lparr>groups := ys @ g # zs\<rparr>)"
    by (rule vf_prepare_group_cases [OF so assms(3)])
  with assms(2) group_placed_new [of grp conf n gs] show ?thesis
    unfolding vf_placed_def by (elim disjE conjE) simp_all
qed

lemma vf_placed_update:
  assumes "vf_placed grp conf n p" "group_placed grp conf n g'"
  shows "vf_placed grp conf n (p\<lparr>groups := (groups p)[i := g']\<rparr>)"
  using assms set_update_subset_insert [of "groups p" i g'] by (auto simp: vf_placed_def)

lemma vf_insert_stream_placed:
  assumes "vf_inv rq good p" "vf_placed grp conf n p" "vf_insert_stream_packet now (grp k) k packet p = Inr p'"
    and "n \<le> k" "k \<noteq> - 1" "conf k"
  shows "vf_placed grp conf n p'"
  using assms(3)
proof (cases rule: vf_insert_stream_cases)
  case (1 h payload p1 i p2)
  have i1: "vf_inv rq good p1" using vf_admit_inv(1) [OF assms(1) 1(3)] .
  have p2: "vf_placed grp conf n p2"
    using vf_prepare_placed [OF i1 vf_admit_placed [OF assms(2) 1(3)] 1(4)] .
  note ix = vf_prepare_group_index [OF i1 1(4)]
  have "group_placed grp conf n (groups p2 ! i)" using p2 ix(3) by (simp add: vf_placed_def)
  then show ?thesis unfolding 1(6)
    using assms(4-6) ix(2)
    by (intro vf_placed_update [OF p2]) (simp add: group_placed_def group_keys_def seq_placed_def)
qed

lemma vf_insert_datagram_placed:
  assumes "decoder_ok rq good" "vf_inv rq good p" "vf_placed grp conf n p"
    and "vf_insert_datagram rq now (grp k) k oti pid data p = Inr p'"
    and "n \<le> k" "k \<noteq> - 1" "\<not> conf k"
  shows "vf_placed grp conf n p'"
  using assms(4)
proof (cases rule: vf_insert_datagram_cases)
  case retired
  with assms(3) show ?thesis by simp
next
  case obsolete
  with vf_admit_placed [OF assms(3)] show ?thesis by blast
next
  case (inserted p1 i p2 g')
  have i1: "vf_inv rq good p1" using inserted(5) assms(2) vf_admit_inv(1) [OF assms(2)] by auto
  have "vf_placed grp conf n p1" using inserted(5) assms(3) vf_admit_placed [OF assms(3)] by auto
  then have p2: "vf_placed grp conf n p2" using vf_prepare_placed [OF i1 _ inserted(6)] by blast
  note ix = vf_prepare_group_index [OF i1 inserted(6)]
  have g: "vf_group_inv rq good (groups p2 ! i)"
    using vf_prepare_group_inv(1) [OF i1 inserted(6)] ix(3) by (simp add: vf_inv_def)
  have "group_placed grp conf n (groups p2 ! i)" using p2 ix(3) by (simp add: vf_placed_def)
  then have "group_placed grp conf n g'"
    using assms(5-7) ix(2) vf_group_insert_frame [OF assms(1) g inserted(7)]
    by (simp add: group_placed_def seq_placed_def)
  then show ?thesis unfolding inserted(8) by (rule vf_placed_update [OF p2])
qed

subsection \<open>Forwarding\<close>

lemma layout_later:
  assumes "vf_layout grp conf" "grp k < grp k'"
  shows "k < k'"
  using assms by (meson leD not_le_imp_less vf_layout_def)

lemma group_placed_later:
  assumes "vf_layout grp conf" "group_placed grp conf n g'" "grp k < group_seq g'"
  shows "group_placed grp conf (k + 1) g'"
  using assms layout_later [OF assms(1), of k] word_plus1_le [of k]
  by (auto simp: group_placed_def seq_placed_def)

lemma vf_rest_placed:
  assumes "vf_layout grp conf" "vf_inv rq good p" "vf_placed grp conf n p" "drop i (groups p) = g # rest"
  shows "group_placed grp conf n g"
    and "grp k = group_seq g \<Longrightarrow> \<forall>x \<in> set rest. group_placed grp conf (k + 1) x"
proof -
  have mem: "g \<in> set (groups p)" "set rest \<subseteq> set (groups p)"
    using assms(4) set_drop_subset [of i "groups p"] by auto
  then show "group_placed grp conf n g" using assms(3) by (simp add: vf_placed_def)
  have "sorted_key group_seq (g # rest)"
    using assms(2,4) sorted_key_drop [of group_seq "groups p" i] by (simp add: vf_inv_def)
  then show "grp k = group_seq g \<Longrightarrow> \<forall>x \<in> set rest. group_placed grp conf (k + 1) x"
    using mem(2) assms(3) group_placed_later [OF assms(1), of n _ k] by (auto simp: vf_placed_def)
qed

text \<open>Taking a packet: it is not before the expected one, and all that remains is after it.\<close>

lemma vf_take_placed:
  assumes "vf_layout grp conf" "vf_inv rq good p" "vf_placed grp conf n p"
    and "vf_take_next_packet now nxt p = Inr (APacket k packet stats, p')"
  shows "n \<le> k \<and> k \<noteq> - 1 \<and> vf_placed grp conf (k + 1) p'"
  using assms(4)
proof (cases rule: vf_take_packet_cases)
  case (config i g rest)
  note r = vf_rest_placed [OF assms(1-3) config(2)]
  have gp: "group_placed grp conf n g" by (rule r)
  then have k: "n \<le> k" "k \<noteq> - 1" "grp k = group_seq g" "conf k"
    using config(3) by (auto simp: group_placed_def seq_placed_def)
  have "k + 1 \<le> j" if "j \<in> group_keys g" for j
  proof -
    have "grp j = group_seq g" "\<not> conf j" using gp that by (auto simp: group_placed_def seq_placed_def)
    with k assms(1) have "k \<le> j" "k \<noteq> j" by (auto simp: vf_layout_def)
    then show ?thesis by (intro word_plus1_le) simp
  qed
  then have "group_placed grp conf (k + 1) (g\<lparr>config_packet := CSent\<rparr>)"
    using gp by (auto simp: group_placed_def seq_placed_def group_keys_def)
  with r(2) [of k] k config(4) show ?thesis by (simp add: vf_placed_def)
next
  case (datagram i g rest d ds expired g')
  note r = vf_rest_placed [OF assms(1-3) datagram(2)]
  have gp: "group_placed grp conf n g" by (rule r)
  have gi: "vf_group_inv rq good g" using vf_inv_member [OF assms(2) datagram(2)] .
  have k: "n \<le> k" "k \<noteq> - 1" "grp k = group_seq g"
    using gp datagram(4,5) by (auto simp: group_placed_def seq_placed_def group_keys_def)
  have so: "sorted_key ds_seq (segments (g\<lparr>datagrams := ds\<rparr>))" using gi by (simp add: vf_group_inv_def)
  obtain ys where ys: "segments (g\<lparr>datagrams := ds\<rparr>) = ys @ segments g'"
    "\<forall>y \<in> set ys. ds_seq y < dp_seq d" "\<forall>z \<in> set (segments g'). dp_seq d \<le> ds_seq z"
    "g' = g\<lparr>datagrams := ds\<rparr>\<lparr>segments := segments g'\<rparr>"
    "expired = vf_sum_stats (map vf_fec_stats ys)"
    by (rule vf_drop_expired_spec [OF so datagram(7)])
  note eq = vf_drop_expired_simps [OF datagram(7)]
  have cfg: "\<nexists>q c. config_packet g = CReady q c"
    by (rule vf_next_packet_ready [OF datagram(1)]) (use datagram(2) in auto)
  have sub: "group_keys g' \<subseteq> group_keys g"
    using ys(1) eq(1) datagram(4) by (auto simp: group_keys_def)
  have "k + 1 \<le> j" if "j \<in> group_keys g'" for j
  proof -
    have "dp_seq d \<notin> ds_seq ` set (segments g)" "\<forall>x \<in> set ds. dp_seq d < dp_seq x"
      using gi datagram(4) by (auto simp: vf_group_inv_def)
    then have "k < j" using that ys(1,3) eq(1) datagram(5) by (auto simp: group_keys_def order_less_le)
    then show ?thesis by (rule word_plus1_le)
  qed
  then have "group_placed grp conf (k + 1) g'"
    using gp sub cfg eq(2,3) by (auto simp: group_placed_def seq_placed_def)
  with r(2) [of k] k datagram(8) show ?thesis by (simp add: vf_placed_def)
qed

section \<open>The processing loop\<close>

definition vf_dropped :: "'d vf_state \<Rightarrow> nat" where
  "vf_dropped s = unwrap_or_default (dropped_packets (vf_stats s))"

definition vf_oinv ::
  "'d raptorq \<Rightarrow> (oti \<Rightarrow> 'd \<Rightarrow> bool) \<Rightarrow> (u64 \<Rightarrow> u64) \<Rightarrow> (u64 \<Rightarrow> bool) \<Rightarrow> 'd vf_state \<Rightarrow> bool" where
  "vf_oinv rq good grp conf s \<longleftrightarrow>
     vf_sinv rq good s \<and> vf_layout grp conf \<and> vf_placed grp conf (vf_next s) (vf_pending s)
     \<and> unat (newest_seq (vf_kseq s)) < 2 ^ 63 \<and> unat (newest_seq (vf_gseq s)) < 2 ^ 63"

lemma vf_account_frame [simp]:
  "vf_next (vf_account k st s) = k + 1" "vf_kseq (vf_account k st s) = vf_kseq s"
  "vf_gseq (vf_account k st s) = vf_gseq s"
  by (simp_all add: vf_account_def Let_def)

lemma vf_account_dropped:
  assumes "vf_next s \<le> k"
  shows "vf_dropped (vf_account k st s) = vf_dropped s + (unat k - unat (vf_next s))"
proof -
  have "unat (k - vf_next s) = unat k - unat (vf_next s)" using assms by (rule unat_sub)
  with assms show ?thesis
    by (auto simp: vf_dropped_def vf_account_def Let_def not_less order_le_less)
qed

lemma vf_drain_ascends:
  assumes "vf_sinv rq good s" "vf_layout grp conf" "vf_placed grp conf (vf_next s) (vf_pending s)"
    and "vf_drain ts i s = (os, st)"
  shows "\<exists>s'. st = Running s' \<and> ascends (vf_next s) (output_seqs os) (vf_next s')
    \<and> vf_dropped s' = vf_dropped s + gaps (vf_next s) (output_seqs os)
    \<and> vf_placed grp conf (vf_next s') (vf_pending s')
    \<and> vf_kseq s' = vf_kseq s \<and> vf_gseq s' = vf_gseq s"
proof -
  let ?inv = "\<lambda>s. vf_inv rq good (vf_pending s) \<and> vf_placed grp conf (vf_next s) (vf_pending s)"
  have "\<exists>os s'. vf_drain ts i s = (os, Running s') \<and> (?inv s \<longrightarrow>
      ascends (vf_next s) (output_seqs os) (vf_next s')
      \<and> vf_dropped s' = vf_dropped s + gaps (vf_next s) (output_seqs os)
      \<and> vf_placed grp conf (vf_next s') (vf_pending s')
      \<and> vf_kseq s' = vf_kseq s \<and> vf_gseq s' = vf_gseq s)"
  proof (rule vf_drain_induct, goal_cases)
    case (1 ts i s a p dl)
    have "p = vf_pending s"
      using 1(1,2) by (cases a) (auto simp: vf_take_next_packet_def Let_def and_then_eq_Inr
          split: next_packet.splits list.splits if_splits prod.splits)
    then show ?case by (simp add: vf_dropped_def)
  next
    case (2 ts i s k packet st p os s')
    let ?s1 = "vf_account k st (s\<lparr>vf_pending := p\<rparr>)"
    show ?case
    proof
      assume inv: "?inv s"
      then have k: "vf_next s \<le> k" "k \<noteq> - 1" "vf_placed grp conf (k + 1) p"
        using vf_take_placed [OF assms(2) _ _ 2(1)] by blast+
      have "vf_inv rq good p" using vf_take_inv inv 2(1) by blast
      with k have "?inv ?s1" by simp
      note ih = mp [OF 2(2) this]
      have "vf_dropped ?s1 = vf_dropped s + (unat k - unat (vf_next s))"
        using vf_account_dropped [of "s\<lparr>vf_pending := p\<rparr>" k st] k(1) by (simp add: vf_dropped_def)
      with ih k show "ascends (vf_next s) (output_seqs ((Some k, packet) # os)) (vf_next s')
        \<and> vf_dropped s' = vf_dropped s + gaps (vf_next s) (output_seqs ((Some k, packet) # os))
        \<and> vf_placed grp conf (vf_next s') (vf_pending s')
        \<and> vf_kseq s' = vf_kseq s \<and> vf_gseq s' = vf_gseq s" by simp
    qed
  qed
  with assms show ?thesis by (auto simp: vf_sinv_def)
qed

text \<open>What a step owes to the order: \<open>n\<close> and \<open>d\<close> are the expected number and the drops before it.\<close>

definition vf_keeps_order ::
  "'d raptorq \<Rightarrow> (oti \<Rightarrow> 'd \<Rightarrow> bool) \<Rightarrow> (u64 \<Rightarrow> u64) \<Rightarrow> (u64 \<Rightarrow> bool) \<Rightarrow> u64 \<Rightarrow> nat
     \<Rightarrow> emission list \<Rightarrow> 'd vf_state status \<Rightarrow> bool" where
  "vf_keeps_order rq good grp conf n d os st \<longleftrightarrow>
     (\<exists>b. ascends n (output_seqs os) b
        \<and> (\<forall>s'. st = Running s' \<longrightarrow> b = vf_next s' \<and> vf_dropped s' = d + gaps n (output_seqs os)
                 \<and> vf_oinv rq good grp conf s'))"

lemma vf_drained_order:
  assumes "vf_oinv rq good grp conf s" "vf_drain ts i s = (os, st)"
  shows "vf_keeps_order rq good grp conf (vf_next s) (vf_dropped s) os st"
proof -
  have inv: "vf_sinv rq good s" "vf_layout grp conf" "vf_placed grp conf (vf_next s) (vf_pending s)"
    using assms(1) by (auto simp: vf_oinv_def)
  obtain s' where s': "st = Running s'" "ascends (vf_next s) (output_seqs os) (vf_next s')"
    "vf_dropped s' = vf_dropped s + gaps (vf_next s) (output_seqs os)"
    "vf_placed grp conf (vf_next s') (vf_pending s')" "vf_kseq s' = vf_kseq s" "vf_gseq s' = vf_gseq s"
    using vf_drain_ascends [OF inv assms(2)] by blast
  moreover have "vf_sinv rq good s'" using vf_drain_inv [OF inv(1), of ts i] assms(2) s'(1) by auto
  ultimately have "vf_oinv rq good grp conf s'" using assms(1) by (simp add: vf_oinv_def)
  with s' show ?thesis by (auto simp: vf_keeps_order_def)
qed

lemma vf_idle_order:
  assumes "vf_oinv rq good grp conf s'" "vf_next s' = n" "vf_dropped s' = d"
  shows "vf_keeps_order rq good grp conf n d [] (Running s')"
  using assms by (auto simp: vf_keeps_order_def)

lemma vf_stop_order:
  "vf_keeps_order rq good grp conf n d [] Finished" "vf_keeps_order rq good grp conf n d [] (Failed e)"
  by (auto simp: vf_keeps_order_def)

lemma vf_sequenced_oinv:
  assumes "vf_oinv rq good grp conf s" "numbered (vf_kseq s) raw_k k" "numbered (vf_gseq s) raw_g (grp k)"
  shows "vf_oinv rq good grp conf (vf_sequenced raw_k raw_g s)"
    and "vf_unroll_k raw_k s = k" "vf_unroll_g raw_g s = grp k" "k \<noteq> - 1"
proof -
  have n: "unat (newest_seq (vf_kseq s)) < 2 ^ 63" "unat (newest_seq (vf_gseq s)) < 2 ^ 63"
    using assms(1) by (auto simp: vf_oinv_def)
  note u = numbered_unroll [OF assms(2) n(1)] numbered_unroll [OF assms(3) n(2)]
  show "vf_oinv rq good grp conf (vf_sequenced raw_k raw_g s)"
    using assms(1) u(2,4) by (simp add: vf_oinv_def vf_sinv_def vf_sequenced_def)
  show "vf_unroll_k raw_k s = k" "vf_unroll_g raw_g s = grp k"
    using u(1,3) by (simp_all add: vf_unroll_k_def vf_unroll_g_def)
  show "k \<noteq> - 1"
    using assms(2) by (auto simp: numbered_def unsigned_minus_1_eq_mask mask_eq_exp_minus_1)
qed

lemma vf_dropped_frame [simp]:
  "vf_dropped (vf_sequenced a b s) = vf_dropped s" "vf_dropped (s\<lparr>vf_pending := p\<rparr>) = vf_dropped s"
  by (simp_all add: vf_dropped_def)

text \<open>Inserting a message that follows the layout, then forwarding.\<close>

lemma vf_inserted_order:
  assumes "vf_oinv rq good grp conf s" "vf_inv rq good p" "vf_placed grp conf (vf_next s) p"
    and "vf_drain ts i (s\<lparr>vf_pending := p\<rparr>) = (os, st)"
  shows "vf_keeps_order rq good grp conf (vf_next s) (vf_dropped s) os st"
proof -
  have "vf_oinv rq good grp conf (s\<lparr>vf_pending := p\<rparr>)"
    using assms(1-3) by (simp add: vf_oinv_def vf_sinv_def)
  from vf_drained_order [OF this assms(4)] show ?thesis by simp
qed

lemma vf_datagram_order:
  assumes "vf_oinv rq good grp conf s" "vf_lawful grp conf ev s" "vf_step rq ev s = (os, st)"
    and "snd ev = Msg (DatagramMsg data raw_k raw_g oti pid)"
  shows "vf_keeps_order rq good grp conf (vf_next s) (vf_dropped s) os st"
proof -
  obtain k where k: "\<not> conf k" "numbered (vf_kseq s) raw_k k" "numbered (vf_gseq s) raw_g (grp k)"
    using assms(2,4) by (auto simp: vf_lawful_def)
  note q = vf_sequenced_oinv [OF assms(1) k(2,3)]
  have i: "decoder_ok rq good" "vf_inv rq good (vf_pending s)" "vf_placed grp conf (vf_next s) (vf_pending s)"
    using assms(1) by (auto simp: vf_oinv_def vf_sinv_def)
  show ?thesis
  proof (cases "k < vf_next s")
    case True
    then have "os = []" "st = Running (vf_sequenced raw_k raw_g s)"
      using assms(3) by (simp_all add: vf_step_datagram [OF assms(4)] q(2,3))
    then show ?thesis using vf_idle_order [OF q(1)] by simp
  next
    case False
    show ?thesis
    proof (cases "vf_insert_datagram rq (fst ev 0) (grp k) k oti pid data (vf_pending s)")
      case (Inl e)
      with False assms(3) vf_stop_order(2) show ?thesis by (auto simp: vf_step_datagram [OF assms(4)] q(2,3))
    next
      case (Inr p)
      have p: "vf_inv rq good p" "vf_placed grp conf (vf_next s) p"
        using vf_insert_datagram_inv [OF i(1,2) Inr] vf_insert_datagram_placed [OF i Inr] False q(4) k(1)
        by simp_all
      from Inr False assms(3) have "vf_drain (fst ev) 1 ((vf_sequenced raw_k raw_g s)\<lparr>vf_pending := p\<rparr>) = (os, st)"
        by (simp add: vf_step_datagram [OF assms(4)] q(2,3))
      from vf_inserted_order [OF q(1) _ _ this] p show ?thesis by simp
    qed
  qed
qed

lemma vf_stream_order:
  assumes "vf_oinv rq good grp conf s" "vf_lawful grp conf ev s" "vf_step rq ev s = (os, st)"
    and "snd ev = Msg (StreamMsg packet raw_k raw_g)" "\<forall>h. packet \<noteq> Codec h"
  shows "vf_keeps_order rq good grp conf (vf_next s) (vf_dropped s) os st"
proof -
  obtain k where k: "conf k" "numbered (vf_kseq s) raw_k k" "numbered (vf_gseq s) raw_g (grp k)"
    using assms(2,4,5) by (auto simp: vf_lawful_def)
  note q = vf_sequenced_oinv [OF assms(1) k(2,3)]
  have i: "vf_inv rq good (vf_pending s)" "vf_placed grp conf (vf_next s) (vf_pending s)"
    using assms(1) by (auto simp: vf_oinv_def vf_sinv_def)
  show ?thesis
  proof (cases "vf_next s \<le> k")
    case False
    then have "vf_drain (fst ev) 1 (vf_sequenced raw_k raw_g s) = (os, st)"
      using assms(3) by (simp add: vf_step_stream [OF assms(4,5)] q(2,3))
    from vf_drained_order [OF q(1) this] show ?thesis by simp
  next
    case True
    show ?thesis
    proof (cases "vf_insert_stream_packet (fst ev 0) (grp k) k packet (vf_pending s)")
      case (Inl e)
      with True assms(3) vf_stop_order(2) show ?thesis by (auto simp: vf_step_stream [OF assms(4,5)] q(2,3))
    next
      case (Inr p)
      have p: "vf_inv rq good p" "vf_placed grp conf (vf_next s) p"
        using vf_insert_stream_inv [OF i(1) Inr] vf_insert_stream_placed [OF i Inr True q(4) k(1)] by simp_all
      from Inr True assms(3) have "vf_drain (fst ev) 1 ((vf_sequenced raw_k raw_g s)\<lparr>vf_pending := p\<rparr>) = (os, st)"
        by (simp add: vf_step_stream [OF assms(4,5)] q(2,3))
      from vf_inserted_order [OF q(1) _ _ this] p show ?thesis by simp
    qed
  qed
qed

lemma vf_step_order:
  assumes "vf_oinv rq good grp conf s" "vf_lawful grp conf ev s" "vf_step rq ev s = (os, st)"
  shows "vf_keeps_order rq good grp conf (vf_next s) (vf_dropped s) os st"
proof -
  obtain ts w where ev: "ev = (ts, w)" by (cases ev)
  show ?thesis
  proof (cases w)
    case (Msg m)
    show ?thesis
    proof (cases m)
      case (StreamMsg packet raw_k raw_g)
      show ?thesis
      proof (cases "\<exists>h. packet = Codec h")
        case True
        then obtain h where "os = [(None, Codec h)]" "st = Running s"
          using assms(3) ev Msg StreamMsg by auto
        with assms(1) show ?thesis by (simp add: vf_keeps_order_def)
      next
        case False
        then show ?thesis
          by (intro vf_stream_order [OF assms, of packet raw_k raw_g]) (simp_all add: ev Msg StreamMsg)
      qed
    next
      case (DatagramMsg data raw_k raw_g oti pid)
      then show ?thesis
        by (intro vf_datagram_order [OF assms, of data raw_k raw_g oti pid]) (simp add: ev Msg)
    qed
  next
    case Timer
    then have "(os, st) = ([], Running s) \<or> vf_drain ts 1 s = (os, st)"
      using assms(3) ev by (simp split: option.splits if_splits)
    then show ?thesis
    proof
      assume "(os, st) = ([], Running s)"
      with vf_idle_order [OF assms(1) refl refl] show ?thesis by simp
    qed (rule vf_drained_order [OF assms(1)])
  next
    case Closed
    with assms(3) ev vf_stop_order(1) show ?thesis by auto
  next
    case (MsgErr e)
    with assms(3) ev vf_stop_order(2) show ?thesis by auto
  qed
qed

interpretation vf_ord: ordered_receiver "vf_step rq" "vf_oinv rq good grp conf" "vf_lawful grp conf"
  vf_next vf_dropped for rq good grp conf
proof (standard, goal_cases)
  case (1 s e os s')
  from vf_step_order [OF 1] show ?case by (auto simp: vf_keeps_order_def)
next
  case (2 s e os f)
  have "vf_sinv rq good s" "errors_are_errors e s" using 2 by (auto simp: vf_oinv_def vf_lawful_def)
  from vf_step_safe [OF this 2(3)] show ?case by blast
next
  case (3 s e os st)
  from vf_step_order [OF 3] show ?case by (auto simp: vf_keeps_order_def)
qed

text \<open>
  C11: Packets that a sender numbered group by group, each group's config first, reach the
  client in that order, whatever subset of them arrives and in whatever order: the sequence
  numbers of forwarded packets ascend strictly, and the receiver's count of dropped packets
  is exactly the number of sequence numbers passed over. Wire numbers carry 32 bits; a
  message may be late or early by up to half that range.
\<close>

theorem vf_forwards_in_order:
  assumes "decoder_ok rq good" "vf_layout grp conf"
    and "run_ok (vf_lawful grp conf) (vf_step rq) es vf_init"
    and "run (vf_step rq) es vf_init = (os, st)"
  shows "sorted_wrt (<) (output_seqs os)
       \<and> (\<forall>s. st = Running s \<longrightarrow>
            unat (vf_next s) = length (output_seqs os) + unwrap_or_default (dropped_packets (vf_stats s)))"
proof -
  have i: "vf_oinv rq good grp conf vf_init"
    using assms(1,2) vf_groups_new_inv [of rq good]
    by (simp add: vf_oinv_def vf_sinv_def vf_init_def vf_placed_def vf_groups_new_def sequencer_new_def)
  have "unat (vf_next s) = length (output_seqs os) + unwrap_or_default (dropped_packets (vf_stats s))"
    if "st = Running s" for s
    using vf_ord.run_account [OF i assms(3)] assms(4) that
    by (simp add: vf_dropped_def vf_init_def stats_new_def)
  with vf_ord.run_order [OF i assms(3,4)] show ?thesis by blast
qed

theorem vf_forwards_in_order_witness:
  "\<exists>s. run (vf_step ref_codec) sample_events vf_init
         = ([(Some 0, sample_config), (Some 1, sample_media)], Running s)
     \<and> unat (vf_next s) = 2 + unwrap_or_default (dropped_packets (vf_stats s))"
proof -
  obtain s where r: "run (vf_step ref_codec) sample_events vf_init
       = ([(Some 0, sample_config), (Some 1, sample_media)], Running s)" using sample_run by blast
  have l: "vf_layout (\<lambda>_. 1) (\<lambda>k. k = 0)" by (simp add: vf_layout_def)
  have n: "numbered \<lparr>newest_seq = 0\<rparr> 0 0" "numbered \<lparr>newest_seq = 0\<rparr> 1 1" "numbered \<lparr>newest_seq = 1\<rparr> 1 1"
    by (simp_all add: numbered_def)
  have "run_ok (vf_lawful (\<lambda>_. 1) (\<lambda>k. k = 0)) (vf_step ref_codec) sample_events vf_init"
    using sample_step_config n
    by (auto simp: sample_events_def vf_lawful_def errors_are_errors_def vf_init_def sequencer_new_def
        split: prod.split status.split intro: exI [of _ 1])
  from vf_forwards_in_order [OF ref_decoder_ok l this r] r show ?thesis by simp
qed

end
