(* ===== verification/VideoFec_Live.thy ===== *)
theory VideoFec_Live
  imports VideoFec_Order
begin

text \<open>
  Progress of the FEC video receiver: between two events nothing that could be forwarded in
  order is waiting, and everything that could be forwarded out of order has a timer.
\<close>

section \<open>The earliest completed datagram\<close>

lemma list_min_le: "x \<in> set xs \<Longrightarrow> \<exists>m. list_min xs = Some m \<and> m \<le> x"
proof -
  have fold: "foldl min y ys \<le> y \<and> (\<forall>z \<in> set ys. foldl min y ys \<le> z)" for y :: nat and ys
  proof (induction ys arbitrary: y)
    case (Cons a ys)
    from Cons.IH [of "min y a"] show ?case by auto
  qed simp
  assume "x \<in> set xs"
  then show ?thesis using fold by (cases xs) (auto simp: list_min_def)
qed

lemma vf_min_instant_le:
  assumes "g \<in> set gs" "d \<in> set (datagrams g)"
  shows "\<exists>m. vf_min_instant gs = Some m \<and> m \<le> dp_instant d"
proof -
  obtain m1 where m1: "list_min (map dp_instant (datagrams g)) = Some m1" "m1 \<le> dp_instant d"
    using list_min_le [of "dp_instant d" "map dp_instant (datagrams g)"] assms(2) by auto
  have "m1 \<in> set (List.map_filter (\<lambda>g. list_min (map dp_instant (datagrams g))) gs)"
    using assms(1) m1(1) by (force simp: map_filter_def)
  from list_min_le [OF this] m1(2) show ?thesis by (auto simp: vf_min_instant_def)
qed

section \<open>When there is nothing to take\<close>

text \<open>A group that offers nothing in order: no config, or another number than expected.\<close>

definition vf_waits :: "u64 \<Rightarrow> 'd pending_group \<Rightarrow> bool" where
  "vf_waits nxt g \<longleftrightarrow> config_is_none (config_packet g) \<or>
     ((\<forall>q k. config_packet g = CReady q k \<longrightarrow> k \<noteq> nxt) \<and> (\<forall>d \<in> set (datagrams g). dp_seq d \<noteq> nxt))"

definition vf_silent :: "u64 \<Rightarrow> 'd pending_group \<Rightarrow> bool" where
  "vf_silent nxt g \<longleftrightarrow> config_is_none (config_packet g) \<or>
     ((\<forall>q k. config_packet g = CReady q k \<longrightarrow> k \<noteq> nxt) \<and> datagrams g = [])"

lemma vf_silent_waits: "vf_silent nxt g \<Longrightarrow> vf_waits nxt g"
  by (auto simp: vf_silent_def vf_waits_def)

lemma vf_next_loop_skip:
  "vf_silent nxt g \<Longrightarrow> vf_next_loop all now nxt n (g # gs) cached = vf_next_loop all now nxt (Suc n) gs cached"
  by (cases "config_packet g") (auto simp: vf_silent_def)

lemma vf_next_loop_stop:
  assumes "\<not> vf_silent nxt g" "g \<in> set all" "cached = None \<or> cached = Some (vf_min_instant all)"
  obtains (now) b where "vf_next_loop all now nxt n (g # gs) cached = NReady n b"
      "\<And>later. now \<le> later \<Longrightarrow> vf_next_loop all later nxt n (g # gs) cached = NReady n b"
  | (late) t where "vf_min_instant all = Some t" "now < t + vf_MAX_BUFFERING"
      "vf_next_loop all now nxt n (g # gs) cached = NDeadline (t + vf_MAX_BUFFERING)"
      "\<And>later. t + vf_MAX_BUFFERING \<le> later \<Longrightarrow>
         vf_next_loop all later nxt n (g # gs) cached = NReady n (config_is_ready (config_packet g))"
      "\<not> config_is_none (config_packet g)" "\<And>q k. config_packet g = CReady q k \<Longrightarrow> k \<noteq> nxt"
      "\<exists>d ds. datagrams g = d # ds \<and> dp_seq d \<noteq> nxt"
proof -
  have cfg: "\<not> config_is_none (config_packet g)" using assms(1) by (simp add: vf_silent_def)
  show thesis
  proof (cases "case config_packet g of CReady _ k \<Rightarrow> k = nxt | _ \<Rightarrow> False")
    case True
    with cfg show thesis by (intro now [of True]) simp_all
  next
    case other: False
    then have nk: "\<And>q k. config_packet g = CReady q k \<Longrightarrow> k \<noteq> nxt" by auto
    then obtain d ds where d: "datagrams g = d # ds"
      using assms(1) by (cases "datagrams g") (auto simp: vf_silent_def)
    obtain t where t: "vf_min_instant all = Some t" using vf_min_instant_le [OF assms(2), of d] d by auto
    have c: "(case cached of Some c \<Rightarrow> c | None \<Rightarrow> vf_min_instant all) = Some t" using assms(3) t by auto
    show thesis
    proof (cases "dp_seq d = nxt \<or> t + vf_MAX_BUFFERING \<le> now")
      case True
      with cfg other d c show thesis
        by (intro now [of "config_is_ready (config_packet g)"]) auto
    next
      case False
      with cfg other d c t nk show thesis by (intro late [of t]) auto
    qed
  qed
qed

text \<open>
  The loop over the groups finds a packet, or nothing at all, or passes silent groups up to
  one with completed datagrams, all of them later than expected, and returns its deadline.
\<close>

lemma vf_next_loop_idle:
  assumes "set gs \<subseteq> set all"
  obtains (ready) i b where "vf_next_loop all now nxt n gs None = NReady i b"
  | (silent) "vf_next_loop all now nxt n gs None = NNone" "\<forall>g \<in> set gs. vf_silent nxt g"
  | (deadline) t ys g zs where "vf_min_instant all = Some t"
      "vf_next_loop all now nxt n gs None = NDeadline (t + vf_MAX_BUFFERING)"
      "\<And>later. t + vf_MAX_BUFFERING \<le> later \<Longrightarrow> \<exists>i b. vf_next_loop all later nxt n gs None = NReady i b"
      "gs = ys @ g # zs" "\<forall>y \<in> set ys. vf_silent nxt y" "\<not> config_is_none (config_packet g)"
      "\<And>q k. config_packet g = CReady q k \<Longrightarrow> k \<noteq> nxt" "\<exists>d ds. datagrams g = d # ds \<and> dp_seq d \<noteq> nxt"
proof -
  have "(\<exists>i b. vf_next_loop all now nxt n gs None = NReady i b)
    \<or> (vf_next_loop all now nxt n gs None = NNone \<and> (\<forall>g \<in> set gs. vf_silent nxt g))
    \<or> (\<exists>t ys g zs. vf_min_instant all = Some t
        \<and> vf_next_loop all now nxt n gs None = NDeadline (t + vf_MAX_BUFFERING)
        \<and> (\<forall>later. t + vf_MAX_BUFFERING \<le> later \<longrightarrow> (\<exists>i b. vf_next_loop all later nxt n gs None = NReady i b))
        \<and> gs = ys @ g # zs \<and> (\<forall>y \<in> set ys. vf_silent nxt y) \<and> \<not> config_is_none (config_packet g)
        \<and> (\<forall>q k. config_packet g = CReady q k \<longrightarrow> k \<noteq> nxt)
        \<and> (\<exists>d ds. datagrams g = d # ds \<and> dp_seq d \<noteq> nxt))"
    using assms
  proof (induction gs arbitrary: n)
    case (Cons g gs)
    show ?case
    proof (cases "vf_silent nxt g")
      case True
      note skip = vf_next_loop_skip [OF True]
      from Cons.prems have sub: "set gs \<subseteq> set all" and mem: "g \<in> set all" by simp_all
      from Cons.IH [OF sub, of "Suc n"] show ?thesis
      proof (elim disjE exE conjE, goal_cases)
        case (3 t ys h zs)
        show ?case
          unfolding skip
          by (rule disjI2, rule disjI2, rule exI [of _ t], rule exI [of _ "g # ys"])
             (use 3 True in \<open>auto simp del: vf_next_loop.simps\<close>)
      qed (simp_all add: skip True del: vf_next_loop.simps)
    next
      case False
      have mem: "g \<in> set all" using Cons.prems by simp
      have "None = None \<or> None = Some (vf_min_instant all)" by simp
      with False mem show ?thesis
      proof (cases rule: vf_next_loop_stop [where now = now and n = n and gs = gs])
        case (late t)
        show ?thesis
          by (rule disjI2, rule disjI2, rule exI [of _ t], rule exI [of _ "[]"])
             (use late in \<open>auto simp del: vf_next_loop.simps\<close>)
      qed blast
    qed
  qed simp
  then show thesis
  proof (elim disjE exE conjE, goal_cases)
    case (3 t ys g zs)
    then show ?case by (intro deadline [of t ys g zs]) simp_all
  qed (use ready silent in blast)+
qed

section \<open>The loop between two events\<close>

definition vf_settled :: "'d vf_state \<Rightarrow> bool" where
  "vf_settled s \<longleftrightarrow>
     (\<forall>g \<in> set (groups (vf_pending s)). vf_waits (vf_next s) g)
     \<and> (\<forall>g \<in> set (groups (vf_pending s)). \<not> config_is_none (config_packet g) \<longrightarrow>
          (\<forall>d \<in> set (datagrams g). \<exists>t. vf_deadline s = Some t \<and> t \<le> dp_instant d + vf_MAX_BUFFERING))
     \<and> (\<forall>t now. vf_deadline s = Some t \<and> t \<le> now \<longrightarrow>
          (\<exists>i b. vf_next_packet now (vf_next s) (vf_pending s) = NReady i b))"

text \<open>With a lawful layout a group behind one that waits for a later number waits as well.\<close>

lemma vf_waits_behind:
  assumes "vf_layout grp conf" "group_placed grp conf nxt g" "group_placed grp conf nxt g'"
    and "k \<in> group_keys g" "group_seq g < group_seq g'"
  shows "vf_waits nxt g'"
proof -
  have k: "nxt \<le> k" "grp k = group_seq g" using assms(2,4) by (auto simp: group_placed_def seq_placed_def)
  have "k < j" if "grp j = group_seq g'" for j
    using layout_later [OF assms(1), of k j] k(2) that assms(5) by simp
  with assms(3) k(1) show ?thesis by (fastforce simp: vf_waits_def group_placed_def seq_placed_def group_keys_def)
qed

lemma vf_stopped_settled:
  assumes "vf_oinv rq good grp conf s" "\<forall>i b. vf_next_packet now (vf_next s) (vf_pending s) \<noteq> NReady i b"
    and "vf_deadline s = (case vf_next_packet now (vf_next s) (vf_pending s) of NDeadline t \<Rightarrow> Some t | _ \<Rightarrow> None)"
  shows "vf_settled s"
proof -
  let ?gs = "groups (vf_pending s)" and ?n = "vf_next s"
  have lay: "vf_layout grp conf" and pl: "\<forall>g \<in> set ?gs. group_placed grp conf ?n g"
    and so: "sorted_key group_seq ?gs" and gi: "\<forall>g \<in> set ?gs. vf_group_inv rq good g"
    using assms(1) by (auto simp: vf_oinv_def vf_placed_def vf_sinv_def vf_inv_def)
  from subset_refl [of "set ?gs"] show ?thesis
  proof (cases rule: vf_next_loop_idle [where now = now and nxt = ?n and n = 0])
    case (ready i b)
    with assms(2) show ?thesis by (auto simp: vf_next_packet_def)
  next
    case silent
    have dl: "vf_deadline s = None" using assms(3) silent(1) by (simp add: vf_next_packet_def)
    have "\<forall>g \<in> set ?gs. \<not> config_is_none (config_packet g) \<longrightarrow> datagrams g = []"
      using silent(2) by (auto simp: vf_silent_def)
    with silent(2) dl show ?thesis by (auto simp: vf_settled_def vf_silent_waits)
  next
    case (deadline t ys g zs)
    have dl: "vf_deadline s = Some (t + vf_MAX_BUFFERING)"
      using assms(3) deadline(2) by (simp add: vf_next_packet_def)
    obtain d ds where d: "datagrams g = d # ds" "dp_seq d \<noteq> ?n" using deadline(8) by blast
    have g: "g \<in> set ?gs" using deadline(4) by simp
    have dk: "dp_seq d \<in> group_keys g" using d by (simp add: group_keys_def)
    have "?n \<le> dp_seq d" using pl g dk by (auto simp: group_placed_def seq_placed_def)
    moreover have "\<forall>x \<in> set ds. dp_seq d < dp_seq x" using gi g d by (auto simp: vf_group_inv_def)
    ultimately have wg: "vf_waits ?n g"
      using d deadline(7) unfolding vf_waits_def by (auto simp: order_less_le)
    have "vf_waits ?n z" if "z \<in> set zs" for z
    proof (rule vf_waits_behind [OF lay _ _ dk])
      show "group_placed grp conf ?n g" "group_placed grp conf ?n z" using pl g that deadline(4) by auto
      show "group_seq g < group_seq z" using so that deadline(4) by (simp add: sorted_key_append)
    qed
    then have "\<forall>x \<in> set ?gs. vf_waits ?n x"
      using wg deadline(4,5) vf_silent_waits by auto
    moreover have "\<exists>t'. vf_deadline s = Some t' \<and> t' \<le> dp_instant x + vf_MAX_BUFFERING"
      if "h \<in> set ?gs" "x \<in> set (datagrams h)" for h x
      using vf_min_instant_le [OF that] deadline(1) dl by auto
    moreover have "\<exists>i b. vf_next_packet later ?n (vf_pending s) = NReady i b"
      if "t + vf_MAX_BUFFERING \<le> later" for later
      using deadline(3) [OF that] by (simp add: vf_next_packet_def)
    ultimately show ?thesis using dl by (simp add: vf_settled_def)
  qed
qed

lemma vf_drain_stops:
  "\<exists>os s'. vf_drain ts i s = (os, Running s') \<and> (\<exists>now.
      (\<forall>i b. vf_next_packet now (vf_next s') (vf_pending s') \<noteq> NReady i b)
      \<and> vf_deadline s' = (case vf_next_packet now (vf_next s') (vf_pending s') of NDeadline t \<Rightarrow> Some t | _ \<Rightarrow> None))"
proof (rule vf_drain_induct, goal_cases)
  case (1 ts i s a p dl)
  have "\<exists>k packet st. a = APacket k packet st" if "vf_next_packet (ts i) (vf_next s) (vf_pending s) = NReady j b" for j b
    using 1(1) that by (auto simp: vf_take_next_packet_def Let_def and_then_eq_Inr
        split: list.splits if_splits prod.splits)
  with 1 have n: "\<forall>j b. vf_next_packet (ts i) (vf_next s) (vf_pending s) \<noteq> NReady j b" by blast
  then have "p = vf_pending s" "dl = (case vf_next_packet (ts i) (vf_next s) (vf_pending s) of
      NDeadline t \<Rightarrow> Some t | _ \<Rightarrow> None)"
    using 1(1,3) by (auto simp: vf_take_next_packet_def split: next_packet.splits)
  with n show ?case by (intro exI [of _ "ts i"]) simp
qed simp

lemma vf_step_settled:
  assumes "vf_oinv rq good grp conf s \<and> vf_settled s" "vf_lawful grp conf ev s" "vf_step rq ev s = (os, Running s')"
  shows "vf_oinv rq good grp conf s' \<and> vf_settled s'"
proof -
  have o: "vf_oinv rq good grp conf s'"
    using vf_ord.step_inv [OF _ assms(2,3)] assms(1) by blast
  from assms(3) have "vf_settled s'"
  proof (cases rule: vf_step_cases)
    case (idle s1)
    with assms(1) show ?thesis by (auto simp: vf_settled_def)
  next
    case (drained s1)
    obtain now where "\<forall>i b. vf_next_packet now (vf_next s') (vf_pending s') \<noteq> NReady i b"
      "vf_deadline s' = (case vf_next_packet now (vf_next s') (vf_pending s') of NDeadline t \<Rightarrow> Some t | _ \<Rightarrow> None)"
      using vf_drain_stops [of "fst ev" 1 s1] drained(1) by auto
    then show ?thesis by (rule vf_stopped_settled [OF o])
  qed (use assms(1) in auto)
  with o show ?thesis by blast
qed

interpretation vf_live: receiver "vf_step rq" "\<lambda>s. vf_oinv rq good grp conf s \<and> vf_settled s" "vf_lawful grp conf"
  for rq good grp conf
proof (standard, goal_cases)
  case (1 s e os s')
  then show ?case by (rule vf_step_settled)
next
  case (2 s e os f)
  then show ?case using vf_ord.step_no_panic by blast
qed

text \<open>A timer that fires at the deadline forwards a packet.\<close>

lemma vf_timer_forwards:
  assumes "vf_settled s" "vf_deadline s = Some t" "t \<le> ts 0" "t \<le> ts 1"
  shows "fst (vf_step rq (ts, Timer) s) \<noteq> []"
proof -
  have "\<exists>i b. vf_next_packet (ts 1) (vf_next s) (vf_pending s) = NReady i b"
    using assms by (auto simp: vf_settled_def)
  then obtain i b where n: "vf_next_packet (ts 1) (vf_next s) (vf_pending s) = NReady i b" by blast
  show ?thesis
  proof (cases rule: vf_drain_cases [of ts 1 s])
    case (stops a p dl)
    have "\<exists>k packet st. a = APacket k packet st"
      using stops(1) n by (auto simp: vf_take_next_packet_def Let_def and_then_eq_Inr
          split: list.splits if_splits prod.splits)
    with stops(2) show ?thesis by blast
  next
    case (takes k packet st p os r)
    with assms(2,3) show ?thesis by simp
  qed
qed

text \<open>
  C12: The FEC video receiver never sleeps on work it could do. Between two events, no group
  whose config is there holds the packet expected next; every completed packet of such a
  group has a timer armed at most 50 ms after its completion; and when that timer fires a
  packet is forwarded. (The sender lays out its groups as \<open>send\<close> does.)
\<close>

theorem vf_never_stalls:
  assumes "decoder_ok rq good" "vf_layout grp conf"
    and "run_ok (vf_lawful grp conf) (vf_step rq) es vf_init"
    and "run (vf_step rq) es vf_init = (os, Running s)"
  shows "(\<forall>g \<in> set (groups (vf_pending s)). \<not> config_is_none (config_packet g) \<longrightarrow>
            (\<forall>q k. config_packet g = CReady q k \<longrightarrow> k \<noteq> vf_next s)
            \<and> (\<forall>d \<in> set (datagrams g). dp_seq d \<noteq> vf_next s
                 \<and> (\<exists>t. vf_deadline s = Some t \<and> t \<le> dp_instant d + 50000)))
       \<and> (\<forall>t ts. vf_deadline s = Some t \<and> t \<le> ts 0 \<and> t \<le> ts 1 \<longrightarrow> fst (vf_step rq (ts, Timer) s) \<noteq> [])"
proof -
  have i: "vf_oinv rq good grp conf vf_init \<and> vf_settled vf_init"
    using assms(1,2) vf_groups_new_inv [of rq good]
    by (simp add: vf_oinv_def vf_sinv_def vf_init_def vf_placed_def vf_groups_new_def sequencer_new_def
        vf_settled_def)
  have st: "vf_settled s" using vf_live.run_inv [OF i assms(3,4)] by blast
  show ?thesis
  proof (intro conjI allI impI, goal_cases)
    case 1
    from st show ?case
      unfolding vf_settled_def vf_waits_def vf_MAX_BUFFERING_def by blast
  next
    case (2 t ts)
    then show ?case by (intro vf_timer_forwards [OF st]) auto
  qed
qed

text \<open>The second media packet of the group arrives while the first is missing.\<close>

definition sample_gap :: "vf_msg event list" where
  "sample_gap = [(\<lambda>_. 0, Msg (StreamMsg sample_config 0 1)),
     (\<lambda>_. 7, Msg (DatagramMsg sample_symbol 2 1 sample_oti sample_pid))]"

lemma sample_gap_unroll: "seq_u32 sequencer_new 2 = (2, \<lparr>newest_seq = 2\<rparr>)"
  by (simp add: seq_u32_def sequencer_seq_def sequencer_new_def Let_def push_bit_eq_mult word_le_nat_alt)

lemma sample_gap_run:
  "\<exists>s. run (vf_step ref_codec) sample_gap vf_init = ([(Some 0, sample_config)], Running s)
     \<and> vf_next s = 1 \<and> vf_deadline s = Some 50007"
  using sample_step_config sample_insert_symbol [of 7 2]
  by (simp add: sample_gap_def vf_step_def vf_init_def Let_def sample_unroll sample_gap_unroll vf_drain.simps
      vf_take_next_packet_def vf_next_packet_def sample_group_def sample_done_def vf_min_instant_def
      list_min_def map_filter_def vf_MAX_BUFFERING_def)

theorem vf_never_stalls_witness:
  "\<exists>s. run (vf_step ref_codec) sample_gap vf_init = ([(Some 0, sample_config)], Running s)
     \<and> vf_deadline s = Some 50007 \<and> fst (vf_step ref_codec (\<lambda>_. 50007, Timer) s) \<noteq> []"
proof -
  obtain s where r: "run (vf_step ref_codec) sample_gap vf_init = ([(Some 0, sample_config)], Running s)"
    and d: "vf_deadline s = Some 50007" using sample_gap_run by blast
  have l: "vf_layout (\<lambda>_. 1) (\<lambda>k. k = 0)" by (simp add: vf_layout_def)
  have n: "numbered \<lparr>newest_seq = 0\<rparr> 0 0" "numbered \<lparr>newest_seq = 0\<rparr> 1 1" "numbered \<lparr>newest_seq = 0\<rparr> 2 2"
    "numbered \<lparr>newest_seq = 1\<rparr> 1 1"
    by (simp_all add: numbered_def)
  have "run_ok (vf_lawful (\<lambda>_. 1) (\<lambda>k. k = 0)) (vf_step ref_codec) sample_gap vf_init"
    using sample_step_config n
    by (auto simp: sample_gap_def vf_lawful_def errors_are_errors_def vf_init_def sequencer_new_def
        split: prod.split status.split intro: exI [of _ 2])
  from vf_never_stalls [OF ref_decoder_ok l this r] d r show ?thesis by simp
qed

end
