(* ===== verification/VideoFec_Budget.thy ===== *)
theory VideoFec_Budget
  imports VideoFec_Live "HOL-Library.Multiset"
begin

text \<open>
  What happens at the admission budget of the FEC video receiver: which objects are retired,
  and that every source symbol of an accepted object is reported exactly once.
\<close>

section \<open>Retirement\<close>















subsection \<open>When admission stops\<close>









subsection \<open>Stale media never blocks admission\<close>








section \<open>Symbol statistics\<close>

lemma fs_accumulate_simps [simp]:
  "fs_source (fs_accumulate a b) = fs_source a + fs_source b"
  "fs_missing (fs_accumulate a b) = fs_missing a + fs_missing b"
  "fs_unrecovered (fs_accumulate a b) = fs_unrecovered a + fs_unrecovered b"
  "fs_source fs_zero = 0" "fs_missing fs_zero = 0" "fs_unrecovered fs_zero = 0"
  by (simp_all add: fs_accumulate_def fs_zero_def)

lemma fs_ok_accumulate: "fs_ok a \<Longrightarrow> fs_ok b \<Longrightarrow> fs_ok (fs_accumulate a b)"
  by (simp add: fs_ok_def)

lemma fs_ok_foldl: "fs_ok a \<Longrightarrow> \<forall>x \<in> set xs. fs_ok (f x) \<Longrightarrow> fs_ok (foldl (\<lambda>a x. fs_accumulate a (f x)) a xs)"
  by (induction xs arbitrary: a) (simp_all add: fs_ok_accumulate)

lemma fs_source_foldl:
  "fs_source (foldl (\<lambda>a x. fs_accumulate a (f x)) a xs) = fs_source a + sum_list (map (\<lambda>x. fs_source (f x)) xs)"
  by (induction xs arbitrary: a) simp_all

lemma vf_sum_stats_source: "fs_source (vf_sum_stats xs) = sum_list (map fs_source xs)"
  and vf_sum_stats_ok: "\<forall>x \<in> set xs. fs_ok x \<Longrightarrow> fs_ok (vf_sum_stats xs)"
  using fs_source_foldl [of "\<lambda>x. x" fs_zero xs] fs_ok_foldl [of fs_zero xs "\<lambda>x. x"]
  by (simp_all add: vf_sum_stats_def fs_ok_def)

text \<open>The source symbols of pending objects, and of those retired but not reported yet.\<close>

definition group_source :: "'d pending_group \<Rightarrow> nat" where
  "group_source g = sum_list (map (\<lambda>d. fs_source (dp_stats d)) (datagrams g))
     + sum_list (map (\<lambda>s. oti_symbols (od_oti (ds_decoder s))) (segments g))"

definition vf_pending_source :: "'d pending_groups \<Rightarrow> nat" where
  "vf_pending_source p = fs_source (retired_stats p) + sum_list (map group_source (groups p))"

definition vf_stats_ok :: "'d pending_groups \<Rightarrow> bool" where
  "vf_stats_ok p \<longleftrightarrow> fs_ok (retired_stats p) \<and> (\<forall>g \<in> set (groups p). \<forall>d \<in> set (datagrams g). fs_ok (dp_stats d))"

lemma vf_discarded_source: "fs_source (vf_discarded_stats g) = group_source g"
  by (simp add: vf_discarded_stats_def vf_sum_stats_source group_source_def o_def)

lemma vf_discarded_ok: "\<forall>d \<in> set (datagrams g). fs_ok (dp_stats d) \<Longrightarrow> fs_ok (vf_discarded_stats g)"
  unfolding vf_discarded_stats_def by (rule vf_sum_stats_ok) auto

lemma vf_retire_source:
  assumes "vf_retire_oldest now p = (True, p')"
  shows "vf_pending_source p' = vf_pending_source p" and "vf_stats_ok p \<Longrightarrow> vf_stats_ok p'"
proof -
  obtain i d k t g stats g' where r: "i < length (groups p)" "g = groups p ! i"
    "if d then (\<exists>x xs. datagrams g = x # xs \<and> dp_seq x = k \<and> stats = dp_stats x
                 \<and> g' = g\<lparr>datagrams := xs\<rparr>)
     else (\<exists>x xs. segments g = x # xs \<and> ds_seq x = k \<and> stats = vf_fec_stats x
                 \<and> g' = g\<lparr>segments := xs\<rparr>)"
    "groups p' = (if config_is_none (config_packet g') \<and> segments g' = [] \<and> datagrams g' = []
                  then remove_at i (groups p) else (groups p)[i := g'])"
    "retired_stats p' = fs_accumulate (retired_stats p) stats"
    by (rule vf_retire_oldest_cases [OF assms])
  have s: "group_source g = group_source g' + fs_source stats"
    using r(3) by (auto simp: group_source_def split: if_splits)
  show "vf_pending_source p' = vf_pending_source p"
    using sum_list_update_nat [OF r(1), of group_source g'] sum_list_remove_at [OF r(1), of group_source] r(2,4,5) s
    by (auto simp: vf_pending_source_def group_source_def)
  assume ok: "vf_stats_ok p"
  obtain h h' where h: "h \<in> set (groups p)" "set (groups p') \<subseteq> insert h' (set (groups p))"
    "set (datagrams h') \<subseteq> set (datagrams h)" by (rule vf_retire_group [OF assms])
  have "g \<in> set (groups p)" using r(1,2) by simp
  then have "fs_ok stats" using r(3) ok by (auto simp: vf_stats_ok_def split: if_splits)
  with h ok r(5) show "vf_stats_ok p'" by (auto simp: vf_stats_ok_def fs_ok_accumulate)
qed

lemma vf_admit_source:
  assumes "vf_admit now a p = Inr p'"
  shows "vf_pending_source p' = vf_pending_source p" "vf_stats_ok p \<Longrightarrow> vf_stats_ok p'"
proof -
  show "vf_pending_source p' = vf_pending_source p"
    by (rule vf_admit_preserves(1) [OF assms]) (simp_all add: vf_retire_source(1))
  show "vf_stats_ok p \<Longrightarrow> vf_stats_ok p'"
    by (rule vf_admit_preserves(1) [OF assms, of vf_stats_ok]) (simp_all add: vf_retire_source(2))
qed

text \<open>Taking a packet reports what leaves the queues and nothing else.\<close>

lemma vf_take_source:
  assumes "vf_inv rq good p" "vf_take_next_packet now nxt p = Inr (APacket k packet stats, p')"
  shows "fs_source stats + vf_pending_source p' = vf_pending_source p"
    and "vf_stats_ok p \<Longrightarrow> vf_stats_ok p' \<and> fs_ok stats"
proof -
  have split: "sum_list (map group_source (groups p)) = sum_list (map group_source (take i (groups p)))
      + sum_list (map group_source (drop i (groups p)))" for i
    by (metis append_take_drop_id map_append sum_list_append)
  have pre: "fs_source (foldl (\<lambda>a g. fs_accumulate a (vf_discarded_stats g)) (retired_stats p) (take i (groups p)))
      = fs_source (retired_stats p) + sum_list (map group_source (take i (groups p)))" for i
    by (simp add: fs_source_foldl vf_discarded_source)
  have preok: "vf_stats_ok p \<Longrightarrow> fs_ok (foldl (\<lambda>a g. fs_accumulate a (vf_discarded_stats g)) (retired_stats p)
      (take i (groups p)))" for i
    by (rule fs_ok_foldl) (auto simp: vf_stats_ok_def intro: vf_discarded_ok dest: in_set_takeD)
  from assms(2) have "fs_source stats + vf_pending_source p' = vf_pending_source p
      \<and> (vf_stats_ok p \<longrightarrow> vf_stats_ok p' \<and> fs_ok stats)"
  proof (cases rule: vf_take_packet_cases)
    case (config i g rest)
    have mem: "set (g # rest) \<subseteq> set (groups p)" using config(2) set_drop_subset [of i "groups p"] by auto
    have "group_source (g\<lparr>config_packet := CSent\<rparr>) = group_source g" by (simp add: group_source_def)
    then have "fs_source stats + vf_pending_source p' = vf_pending_source p"
      using config(2,4,5) split [of i] pre [of i] by (simp add: vf_pending_source_def)
    moreover have "vf_stats_ok p'" if "vf_stats_ok p"
      using that mem config(4) by (auto simp: vf_stats_ok_def fs_ok_def [of fs_zero])
    moreover have "fs_ok stats" if "vf_stats_ok p" unfolding config(5) by (rule preok [OF that])
    ultimately show ?thesis by blast
  next
    case (datagram i g rest d ds expired g')
    have mem: "set (g # rest) \<subseteq> set (groups p)" using datagram(2) set_drop_subset [of i "groups p"] by auto
    have so: "sorted_key ds_seq (segments (g\<lparr>datagrams := ds\<rparr>))"
      using vf_inv_member [OF assms(1) datagram(2)] by (simp add: vf_group_inv_def)
    obtain ys where ys: "segments (g\<lparr>datagrams := ds\<rparr>) = ys @ segments g'"
      "\<forall>y \<in> set ys. ds_seq y < dp_seq d" "\<forall>z \<in> set (segments g'). dp_seq d \<le> ds_seq z"
      "g' = g\<lparr>datagrams := ds\<rparr>\<lparr>segments := segments g'\<rparr>"
      "expired = vf_sum_stats (map vf_fec_stats ys)"
      by (rule vf_drop_expired_spec [OF so datagram(7)])
    have ex: "fs_source expired = sum_list (map (\<lambda>s. oti_symbols (od_oti (ds_decoder s))) ys)" "fs_ok expired"
      using ys(5) vf_sum_stats_ok [of "map vf_fec_stats ys"] by (simp_all add: vf_sum_stats_source o_def)
    have dg: "datagrams g' = ds" using vf_drop_expired_simps(1) [OF datagram(7)] by simp
    have "group_source g = fs_source (dp_stats d) + fs_source expired + group_source g'"
      using datagram(4) ys(1) dg ex(1) by (simp add: group_source_def)
    then have "fs_source stats + vf_pending_source p' = vf_pending_source p"
      using datagram(2,8,9) split [of i] pre [of i] by (simp add: vf_pending_source_def)
    moreover have "vf_stats_ok p' \<and> fs_ok stats" if "vf_stats_ok p"
    proof -
      have "\<forall>x \<in> set (g # rest). \<forall>y \<in> set (datagrams x). fs_ok (dp_stats y)"
        using that mem by (auto simp: vf_stats_ok_def)
      then show ?thesis
        using dg datagram(4,8,9) preok [OF that, of i] ex(2)
        by (simp add: vf_stats_ok_def fs_ok_def [of fs_zero] fs_ok_accumulate)
    qed
    ultimately show ?thesis by blast
  qed
  then show "fs_source stats + vf_pending_source p' = vf_pending_source p"
    "vf_stats_ok p \<Longrightarrow> vf_stats_ok p' \<and> fs_ok stats" by auto
qed

subsection \<open>Insertion\<close>

lemma vf_group_insert_source:
  assumes "decoder_ok rq good" "vf_group_inv rq good g" "vf_group_insert rq now k oti pid data g = Inr g'"
  shows "group_source g' = group_source g + (if k \<in> group_keys g then 0 else oti_symbols oti)"
    and "\<forall>d \<in> set (datagrams g). fs_ok (dp_stats d) \<Longrightarrow> \<forall>d \<in> set (datagrams g'). fs_ok (dp_stats d)"
proof -
  have "group_source g' = group_source g + (if k \<in> group_keys g then 0 else oti_symbols oti)
    \<and> ((\<forall>d \<in> set (datagrams g). fs_ok (dp_stats d)) \<longrightarrow> (\<forall>d \<in> set (datagrams g'). fs_ok (dp_stats d)))"
    using assms
  proof (cases rule: vf_group_insert_cases)
    case known
    then show ?thesis by (simp add: group_keys_def)
  next
    case (symbol ys old zs s od)
    have "k \<in> group_keys g \<longleftrightarrow> old \<noteq> []" using symbol(1-5) by (auto simp: group_keys_def)
    with symbol(2,3,6,8) show ?thesis by (auto simp: group_source_def)
  next
    case (complete ys old zs as d bs od od' bytes)
    have "k \<in> group_keys g \<longleftrightarrow> old \<noteq> []" using complete(1-5) by (auto simp: group_keys_def)
    with complete(2,3,6,9,13,14) show ?thesis by (auto simp: group_source_def)
  qed
  then show "group_source g' = group_source g + (if k \<in> group_keys g then 0 else oti_symbols oti)"
    "\<forall>d \<in> set (datagrams g). fs_ok (dp_stats d) \<Longrightarrow> \<forall>d \<in> set (datagrams g'). fs_ok (dp_stats d)" by auto
qed

definition vf_keys :: "'d pending_groups \<Rightarrow> u64 set" where
  "vf_keys p = (\<Union>g \<in> set (groups p). group_keys g)"

lemma vf_prepare_source:
  assumes "vf_inv rq good p" "vf_prepare_group gs p = Inr (i, p')"
  shows "vf_pending_source p' = vf_pending_source p" "vf_stats_ok p \<Longrightarrow> vf_stats_ok p'"
    "vf_keys p' = vf_keys p" "retired_stats p' = retired_stats p"
proof -
  have so: "sorted_key group_seq (groups p)" using assms(1) by (simp add: vf_inv_def)
  obtain ys g zs where s: "groups p' = ys @ g # zs" "i = length ys" "group_seq g = gs"
    "\<forall>y \<in> set ys. group_seq y < gs" "\<forall>z \<in> set zs. gs < group_seq z"
    "(groups p = ys @ g # zs \<and> p' = p)
     \<or> (groups p = ys @ zs \<and> g = vf_group_new gs \<and> length (groups p) < 32
        \<and> p' = p\<lparr>groups := ys @ g # zs\<rparr>)"
    by (rule vf_prepare_group_cases [OF so assms(2)])
  have n: "group_source (vf_group_new gs :: 'a pending_group) = 0" "group_keys (vf_group_new gs :: 'a pending_group) = {}"
    "datagrams (vf_group_new gs :: 'a pending_group) = []"
    by (simp_all add: group_source_def group_keys_def vf_group_new_def)
  show "vf_pending_source p' = vf_pending_source p" "vf_stats_ok p \<Longrightarrow> vf_stats_ok p'"
    "vf_keys p' = vf_keys p" "retired_stats p' = retired_stats p"
    using s(6) n by (auto simp: vf_pending_source_def vf_stats_ok_def vf_keys_def)
qed

lemma vf_admit_keys: "vf_admit now a p = Inr p' \<Longrightarrow> vf_keys p' \<subseteq> vf_keys p"
proof -
  assume a: "vf_admit now a p = Inr p'"
  have "vf_keys p2 \<subseteq> vf_keys p1" if re: "vf_retire_oldest now p1 = (True, p2)" for p1 p2 :: "'a pending_groups"
  proof -
    obtain g g' where "g \<in> set (groups p1)" "set (groups p2) \<subseteq> insert g' (set (groups p1))"
      "group_keys g' \<subseteq> group_keys g" by (rule vf_retire_group [OF re])
    then show ?thesis unfolding vf_keys_def by blast
  qed
  then show ?thesis using vf_admit_preserves(1) [OF a, of "\<lambda>q. vf_keys q \<subseteq> vf_keys p"] by blast
qed

lemma vf_stats_ok_update:
  assumes "vf_stats_ok p" "\<forall>d \<in> set (datagrams g'). fs_ok (dp_stats d)"
  shows "vf_stats_ok (p\<lparr>groups := (groups p)[i := g']\<rparr>)"
  using assms set_update_subset_insert [of "groups p" i g'] by (auto simp: vf_stats_ok_def)

lemma vf_insert_datagram_source:
  assumes "decoder_ok rq good" "vf_inv rq good p" "vf_insert_datagram rq now gs k oti pid data p = Inr p'"
  shows "vf_pending_source p' = vf_pending_source p + (if k \<in> vf_keys p' - vf_keys p then oti_symbols oti else 0)"
    and "vf_stats_ok p \<Longrightarrow> vf_stats_ok p'"
proof -
  have "vf_pending_source p' = vf_pending_source p + (if k \<in> vf_keys p' - vf_keys p then oti_symbols oti else 0)
      \<and> (vf_stats_ok p \<longrightarrow> vf_stats_ok p')"
    using assms(3)
  proof (cases rule: vf_insert_datagram_cases)
    case obsolete
    then show ?thesis using vf_admit_source [OF obsolete(1)] vf_admit_keys [OF obsolete(1)] by auto
  next
    case (inserted p1 i p2 g')
    have i1: "vf_inv rq good p1" using inserted(5) assms(2) vf_admit_inv(1) [OF assms(2)] by auto
    note pr = vf_prepare_source [OF i1 inserted(6)] and ix = vf_prepare_group_index [OF i1 inserted(6)]
    have g: "vf_group_inv rq good (groups p2 ! i)"
      using vf_prepare_group_inv(1) [OF i1 inserted(6)] ix(3) by (simp add: vf_inv_def)
    note src = vf_group_insert_source [OF assms(1) g inserted(7)]
      and keys = vf_group_insert_frame(3) [OF assms(1) g inserted(7)]
    have p1: "vf_pending_source p1 = vf_pending_source p" "vf_stats_ok p \<longrightarrow> vf_stats_ok p1"
      using inserted(5) vf_admit_source by blast+
    have known: "k \<in> group_keys (groups p2 ! i) \<longleftrightarrow> k \<in> vf_keys p"
    proof
      assume "k \<in> group_keys (groups p2 ! i)"
      then have "k \<in> vf_keys p1" using ix(3) pr(3) by (auto simp: vf_keys_def)
      then show "k \<in> vf_keys p" using inserted(5) vf_admit_keys by blast
    next
      assume k: "k \<in> vf_keys p"
      then obtain g1 where g1: "g1 \<in> set (groups p)" "k \<in> group_keys g1" by (auto simp: vf_keys_def)
      then have "vf_contains k g1"
        using vf_contains_iff [of rq good g1 k] assms(2) by (auto simp: vf_inv_def)
      with g1(1) have "\<exists>g \<in> set (groups p). vf_contains k g" by blast
      then obtain g0 where g0: "p1 = p" "g0 \<in> set (groups p)" "group_seq g0 = gs" "vf_contains k g0"
        using inserted(5) by blast
      then have "groups p2 ! i = g0" using vf_prepare_group_same [OF i1 inserted(6)] by auto
      then show "k \<in> group_keys (groups p2 ! i)" using g0(4) vf_contains_iff [OF g] by simp
    qed
    have "k \<in> vf_keys p'"
      using keys ix(1) unfolding inserted(8) by (auto simp: vf_keys_def intro: bexI [OF _ set_update_memI])
    then have "vf_pending_source p' = vf_pending_source p + (if k \<in> vf_keys p' - vf_keys p then oti_symbols oti else 0)"
      using sum_list_update_nat [OF ix(1), of group_source g'] src(1) known pr(1,4) p1(1)
      unfolding inserted(8) by (simp add: vf_pending_source_def)
    moreover have "vf_stats_ok p'" if "vf_stats_ok p"
    proof -
      have ok: "vf_stats_ok p2" using that p1(2) pr(2) by blast
      then have "\<forall>d \<in> set (datagrams g'). fs_ok (dp_stats d)"
        using src(2) ix(3) by (simp add: vf_stats_ok_def)
      from vf_stats_ok_update [OF ok this] show ?thesis unfolding inserted(8) .
    qed
    ultimately show ?thesis by blast
  qed simp
  then show "vf_pending_source p' = vf_pending_source p + (if k \<in> vf_keys p' - vf_keys p then oti_symbols oti else 0)"
    "vf_stats_ok p \<Longrightarrow> vf_stats_ok p'" by auto
qed

lemma vf_insert_stream_source:
  assumes "vf_inv rq good p" "vf_insert_stream_packet now gs k packet p = Inr p'"
  shows "vf_pending_source p' = vf_pending_source p" "vf_stats_ok p \<Longrightarrow> vf_stats_ok p'"
proof -
  have "vf_pending_source p' = vf_pending_source p \<and> (vf_stats_ok p \<longrightarrow> vf_stats_ok p')"
    using assms(2)
  proof (cases rule: vf_insert_stream_cases)
    case (1 h payload p1 i p2)
    have i1: "vf_inv rq good p1" using vf_admit_inv(1) [OF assms(1) 1(3)] .
    note ad = vf_admit_source [OF 1(3)] and pr = vf_prepare_source [OF i1 1(4)]
      and ix = vf_prepare_group_index [OF i1 1(4)]
    let ?g = "(groups p2 ! i)\<lparr>config_packet := CReady packet k\<rparr>"
    have "group_source ?g = group_source (groups p2 ! i)" by (simp add: group_source_def)
    then have "vf_pending_source p' = vf_pending_source p"
      using sum_list_update_nat [OF ix(1), of group_source ?g] ad(1) pr(1)
      unfolding 1(6) by (simp add: vf_pending_source_def)
    moreover have "vf_stats_ok p'" if "vf_stats_ok p"
    proof -
      have ok: "vf_stats_ok p2" using that ad(2) pr(2) by blast
      then have "\<forall>d \<in> set (datagrams ?g). fs_ok (dp_stats d)" using ix(3) by (simp add: vf_stats_ok_def)
      from vf_stats_ok_update [OF ok this] show ?thesis unfolding 1(6) .
    qed
    ultimately show ?thesis by blast
  qed
  then show "vf_pending_source p' = vf_pending_source p" "vf_stats_ok p \<Longrightarrow> vf_stats_ok p'" by auto
qed

subsection \<open>Whole runs\<close>

text \<open>The counters of the protocol statistics, and the symbols of the object an event opens.\<close>

definition vf_reported :: "'d vf_state \<Rightarrow> fec_stats" where
  "vf_reported s = \<lparr>fs_source = unwrap_or_default (video_fec_source_symbols (vf_stats s)),
     fs_missing = unwrap_or_default (video_fec_source_symbols_missing (vf_stats s)),
     fs_unrecovered = unwrap_or_default (video_fec_source_symbols_unrecovered (vf_stats s))\<rparr>"

definition vf_opened :: "'d raptorq \<Rightarrow> vf_msg event \<Rightarrow> 'd vf_state \<Rightarrow> nat" where
  "vf_opened rq ev s =
     (case snd ev of
        Msg (DatagramMsg data raw_k raw_g oti pid) \<Rightarrow>
          (let k = vf_unroll_k raw_k s in
           if k < vf_next s then 0
           else case vf_insert_datagram rq (fst ev 0) (vf_unroll_g raw_g s) k oti pid data (vf_pending s) of
                  Inl _ \<Rightarrow> 0
                | Inr p \<Rightarrow> if k \<in> vf_keys p - vf_keys (vf_pending s) then oti_symbols oti else 0)
      | _ \<Rightarrow> 0)"

fun vf_opened_all :: "'d raptorq \<Rightarrow> vf_msg event list \<Rightarrow> 'd vf_state \<Rightarrow> nat" where
  "vf_opened_all rq [] s = 0"
| "vf_opened_all rq (ev # es) s =
     vf_opened rq ev s + (case vf_step rq ev s of (_, Running s') \<Rightarrow> vf_opened_all rq es s' | _ \<Rightarrow> 0)"

definition vf_total :: "'d vf_state \<Rightarrow> nat" where
  "vf_total s = fs_source (vf_reported s) + vf_pending_source (vf_pending s)"

definition vf_counts :: "'d raptorq \<Rightarrow> (oti \<Rightarrow> 'd \<Rightarrow> bool) \<Rightarrow> 'd vf_state \<Rightarrow> bool" where
  "vf_counts rq good s \<longleftrightarrow> vf_sinv rq good s \<and> vf_stats_ok (vf_pending s) \<and> fs_ok (vf_reported s)"

lemma vf_account_reported:
  assumes "fs_ok st"
  shows "vf_reported (vf_account k st s) = fs_accumulate (vf_reported s) st"
  using assms
  by (cases "fs_source st = 0"; cases "k > vf_next s")
     (simp_all add: vf_reported_def vf_account_def Let_def fs_accumulate_def fs_ok_def)

lemma vf_drain_counts:
  assumes "vf_counts rq good s"
  shows "\<exists>os s'. vf_drain ts i s = (os, Running s') \<and> vf_counts rq good s' \<and> vf_total s' = vf_total s"
proof -
  have "\<exists>os s'. vf_drain ts i s = (os, Running s') \<and> (vf_counts rq good s \<longrightarrow>
      vf_counts rq good s' \<and> vf_total s' = vf_total s)"
  proof (rule vf_drain_induct, goal_cases)
    case (1 ts i s a p dl)
    have "p = vf_pending s"
      using 1(1,2) by (cases a) (auto simp: vf_take_next_packet_def Let_def and_then_eq_Inr
          split: next_packet.splits list.splits if_splits prod.splits)
    then show ?case by (simp add: vf_counts_def vf_total_def vf_reported_def vf_sinv_def)
  next
    case (2 ts i s k packet st p os s')
    let ?s1 = "vf_account k st (s\<lparr>vf_pending := p\<rparr>)"
    show ?case
    proof
      assume c: "vf_counts rq good s"
      then have inv: "vf_inv rq good (vf_pending s)" "vf_stats_ok (vf_pending s)" "decoder_ok rq good"
        by (auto simp: vf_counts_def vf_sinv_def)
      note src = vf_take_source [OF inv(1) 2(1)]
      have st: "vf_stats_ok p" "fs_ok st" using src(2) inv(2) by auto
      have rep: "vf_reported ?s1 = fs_accumulate (vf_reported s) st"
        using vf_account_reported [OF st(2), of k "s\<lparr>vf_pending := p\<rparr>"] by (simp add: vf_reported_def)
      have "vf_counts rq good ?s1"
        using rep st c vf_take_inv [OF inv(1) 2(1)] by (simp add: vf_counts_def vf_sinv_def fs_ok_accumulate)
      moreover have "vf_total ?s1 = vf_total s" using rep src(1) by (simp add: vf_total_def)
      ultimately show "vf_counts rq good s' \<and> vf_total s' = vf_total s" using 2(2) by simp
    qed
  qed
  with assms show ?thesis by blast
qed

lemma vf_counts_frame:
  assumes "vf_counts rq good s" "vf_stats s1 = vf_stats s" "vf_inv rq good (vf_pending s1)" "vf_stats_ok (vf_pending s1)"
  shows "vf_counts rq good s1" "vf_reported s1 = vf_reported s"
  using assms by (simp_all add: vf_counts_def vf_sinv_def vf_reported_def)

lemma vf_step_counts:
  assumes "vf_counts rq good s" "vf_step rq ev s = (os, Running s')"
  shows "vf_counts rq good s' \<and> vf_total s' = vf_total s + vf_opened rq ev s"
proof (cases "\<exists>data raw_k raw_g oti pid. snd ev = Msg (DatagramMsg data raw_k raw_g oti pid)")
  case True
  then obtain data raw_k raw_g oti pid where ev: "snd ev = Msg (DatagramMsg data raw_k raw_g oti pid)" by blast
  let ?k = "vf_unroll_k raw_k s" and ?s1 = "vf_sequenced raw_k raw_g s"
  have i: "decoder_ok rq good" "vf_inv rq good (vf_pending s)" "vf_stats_ok (vf_pending s)"
    using assms(1) by (auto simp: vf_counts_def vf_sinv_def)
  show ?thesis
  proof (cases "?k < vf_next s")
    case True
    then have "s' = ?s1" using assms(2) by (simp add: vf_step_datagram [OF ev])
    moreover have "vf_opened rq ev s = 0" using True ev by (simp add: vf_opened_def)
    ultimately show ?thesis using vf_counts_frame [OF assms(1), of ?s1] i by (simp add: vf_total_def)
  next
    case False
    obtain p where p: "vf_insert_datagram rq (fst ev 0) (vf_unroll_g raw_g s) ?k oti pid data (vf_pending s) = Inr p"
      and d: "vf_drain (fst ev) 1 (?s1\<lparr>vf_pending := p\<rparr>) = (os, Running s')"
      using assms(2) False by (auto simp: vf_step_datagram [OF ev] split: sum.splits)
    note src = vf_insert_datagram_source [OF i(1,2) p]
    have c: "vf_counts rq good (?s1\<lparr>vf_pending := p\<rparr>)" "vf_reported (?s1\<lparr>vf_pending := p\<rparr>) = vf_reported s"
      using vf_counts_frame [OF assms(1), of "?s1\<lparr>vf_pending := p\<rparr>"] vf_insert_datagram_inv [OF i(1,2) p] src(2) i(3)
      by simp_all
    have "vf_opened rq ev s = (if ?k \<in> vf_keys p - vf_keys (vf_pending s) then oti_symbols oti else 0)"
      using ev False p by (simp add: vf_opened_def Let_def)
    with vf_drain_counts [OF c(1), of "fst ev" 1] d src(1) c(2) show ?thesis by (simp add: vf_total_def)
  qed
next
  case False
  then have op: "vf_opened rq ev s = 0"
    by (auto simp: vf_opened_def split: wakeup.splits vf_msg.splits)
  have i: "vf_inv rq good (vf_pending s)" "vf_stats_ok (vf_pending s)"
    using assms(1) by (auto simp: vf_counts_def vf_sinv_def)
  from assms(2) show ?thesis
  proof (cases rule: vf_step_cases)
    case (idle s1)
    with vf_counts_frame [OF assms(1), of s1] i op show ?thesis by (simp add: vf_total_def)
  next
    case (drained s1)
    have "vf_pending_source (vf_pending s1) = vf_pending_source (vf_pending s)
        \<and> vf_inv rq good (vf_pending s1) \<and> vf_stats_ok (vf_pending s1)"
      using drained(4)
    proof
      assume "vf_inserted rq ev s (Inr (vf_pending s1))"
      then obtain packet raw_k raw_g where
        "vf_insert_stream_packet (fst ev 0) (vf_unroll_g raw_g s) (vf_unroll_k raw_k s) packet (vf_pending s)
           = Inr (vf_pending s1)"
        using False unfolding vf_inserted_def by metis
      with vf_insert_stream_source [OF i(1) this] vf_insert_stream_inv [OF i(1) this] i(2) show ?thesis by simp
    qed (use i in simp)
    moreover from this have "vf_counts rq good s1" "vf_reported s1 = vf_reported s"
      using vf_counts_frame [OF assms(1) drained(3)] by simp_all
    ultimately show ?thesis
      using vf_drain_counts [of rq good s1 "fst ev" 1] drained(1) op by (simp add: vf_total_def)
  qed (use assms(1) op in simp_all)
qed

lemma vf_run_counts:
  assumes "vf_counts rq good s" "run (vf_step rq) es s = (os, Running s')"
  shows "vf_counts rq good s' \<and> vf_total s' = vf_total s + vf_opened_all rq es s"
  using assms
proof (induction es arbitrary: s os)
  case (Cons e es)
  obtain o1 st where st: "vf_step rq e s = (o1, st)" by (cases "vf_step rq e s")
  with Cons.prems(2) obtain s1 os2 where s1: "st = Running s1" "run (vf_step rq) es s1 = (os2, Running s')"
    by (cases st) (auto split: prod.splits)
  have c: "vf_counts rq good s1 \<and> vf_total s1 = vf_total s + vf_opened rq e s"
    using vf_step_counts [OF Cons.prems(1)] st s1(1) by simp
  with Cons.IH [OF _ s1(2)] st s1(1) show ?case by simp
qed simp

text \<open>
  C14: The receiver reports the loss of source symbols faithfully. For every object it opens,
  each source symbol enters the statistics exactly once, when the object is forwarded,
  expires, is discarded with its group or retired at the budget: at any moment the reported
  symbols and those of pending objects add up to the symbols of all objects opened. Of the
  reported symbols, those not recovered are missing ones, and the missing ones exist.
\<close>

theorem vf_symbols_accounted:
  assumes "decoder_ok rq good" "run (vf_step rq) es vf_init = (os, Running s)"
  shows "unwrap_or_default (video_fec_source_symbols (vf_stats s)) + vf_pending_source (vf_pending s)
           = vf_opened_all rq es vf_init
       \<and> unwrap_or_default (video_fec_source_symbols_unrecovered (vf_stats s))
           \<le> unwrap_or_default (video_fec_source_symbols_missing (vf_stats s))
       \<and> unwrap_or_default (video_fec_source_symbols_missing (vf_stats s))
           \<le> unwrap_or_default (video_fec_source_symbols (vf_stats s))"
proof -
  have "vf_counts rq good vf_init" "vf_total (vf_init :: 'a vf_state) = 0"
    using assms(1) vf_groups_new_inv [of rq good]
    by (simp_all add: vf_counts_def vf_total_def vf_sinv_def vf_init_def vf_stats_ok_def vf_groups_new_def
        vf_reported_def stats_new_def fs_ok_def vf_pending_source_def)
  with vf_run_counts [OF _ assms(2)] show ?thesis
    by (fastforce simp: vf_counts_def vf_total_def vf_reported_def fs_ok_def)
qed

theorem vf_symbols_accounted_witness:
  "\<exists>s. run (vf_step ref_codec) sample_events vf_init
         = ([(Some 0, sample_config), (Some 1, sample_media)], Running s)
     \<and> unwrap_or_default (video_fec_source_symbols (vf_stats s)) = vf_opened_all ref_codec sample_events vf_init"
proof -
  obtain s where r: "run (vf_step ref_codec) sample_events vf_init
       = ([(Some 0, sample_config), (Some 1, sample_media)], Running s)"
    and p: "vf_pending s = sample_group CSent" using sample_run by blast
  have "vf_pending_source (sample_group CSent) = 0"
    by (simp add: vf_pending_source_def sample_group_def group_source_def)
  with vf_symbols_accounted [OF ref_decoder_ok r] r p show ?thesis by simp
qed

end
