(* ===== verification/Router.thy ===== *)
theory Router
  imports Serial
begin

text \<open>
  The router of a connection (\<open>kyproto/src/router.rs\<close>) and its tasks (\<open>task.rs\<close>): endpoints
  register under a 16-bit id, three tasks hand incoming streams and datagrams to the
  endpoint whose id comes first on the wire, and dropping a channel removes the endpoint.

  Every channel is an entry of the list \<open>rt_chans\<close>; the map of clients refers to it by its
  position, as the sender halves in the map refer to the receiver halves of a channel.
\<close>

section \<open>Tasks and bounded queues\<close>

text \<open>
  A task runs until it is done or its owner cancels it through a one-shot channel;
  cancelling a task that has ended is an error.
\<close>

datatype task_state = TaskRunning | TaskEnded

record task =
  task_name :: string
  task_state :: task_state

definition spawn_task :: "string \<Rightarrow> task" where
  "spawn_task name = \<lparr>task_name = name, task_state = TaskRunning\<rparr>"

definition task_terminated :: "task \<Rightarrow> task" where
  "task_terminated t = t\<lparr>task_state := TaskEnded\<rparr>"

definition task_cancel :: "task \<Rightarrow> (unit + unit) \<times> task" where
  "task_cancel t =
     (case task_state t of
        TaskRunning \<Rightarrow> (Inr (), t\<lparr>task_state := TaskEnded\<rparr>)
      | TaskEnded \<Rightarrow> (Inl (), t))"

text \<open>
  A bounded queue between tasks. Sending waits while the queue is full (\<open>None\<close>) and fails
  once the receiver is gone; receiving waits while the queue is empty (\<open>None\<close>).
\<close>

record 'a mpsc =
  mq_items :: "'a list"
  mq_cap :: nat
  mq_open :: bool

definition mpsc_new :: "nat \<Rightarrow> 'a mpsc" where
  "mpsc_new n = \<lparr>mq_items = [], mq_cap = n, mq_open = True\<rparr>"

definition mpsc_send :: "'a \<Rightarrow> 'a mpsc \<Rightarrow> 'a mpsc result option" where
  "mpsc_send x q =
     (if \<not> mq_open q then Some (Inl (ProtocolError ''channel closed''))
      else if length (mq_items q) < mq_cap q then Some (Inr (q\<lparr>mq_items := mq_items q @ [x]\<rparr>))
      else None)"

definition mpsc_recv :: "'a mpsc \<Rightarrow> ('a \<times> 'a mpsc) option" where
  "mpsc_recv q = (case mq_items q of [] \<Rightarrow> None | x # xs \<Rightarrow> Some (x, q\<lparr>mq_items := xs\<rparr>))"

definition mpsc_close :: "'a mpsc \<Rightarrow> 'a mpsc" where
  "mpsc_close q = q\<lparr>mq_items := [], mq_open := False\<rparr>"

section \<open>State\<close>

record ky_channel =
  ch_endpoint :: u16
  ch_uni :: "reader mpsc"
  ch_bi :: "(writer \<times> reader) mpsc"
  ch_datagrams :: "bytes mpsc"
  ch_dropped :: bool

text \<open>
  Each of the three tasks waits for the connection, waits for room in the queue of a
  channel, or has ended with an error.
\<close>

datatype 'a acceptor = Accepting | Sending 'a nat | Ended fault

record router =
  rt_clients :: "u16 \<rightharpoonup> nat"
  rt_chans :: "ky_channel list"
  rt_uni :: "reader acceptor"
  rt_bi :: "(writer \<times> reader) acceptor"
  rt_datagrams :: "bytes acceptor"

definition router_error :: "string \<Rightarrow> fault" where
  "router_error s = ProtocolError (''router error: '' @ s)"

definition router_start :: router where
  "router_start = \<lparr>rt_clients = Map.empty, rt_chans = [], rt_uni = Accepting, rt_bi = Accepting,
     rt_datagrams = Accepting\<rparr>"

section \<open>Channels\<close>

definition ky_channel_new :: "u16 \<Rightarrow> ky_channel" where
  "ky_channel_new endpoint = \<lparr>ch_endpoint = endpoint, ch_uni = mpsc_new 8, ch_bi = mpsc_new 8,
     ch_datagrams = mpsc_new 16, ch_dropped = False\<rparr>"

text \<open>\<open>register\<close> gives the new channel, or the id that is already registered.\<close>

definition router_register :: "u16 \<Rightarrow> router \<Rightarrow> (u16 + nat) \<times> router" where
  "router_register endpoint r =
     (case rt_clients r endpoint of
        Some _ \<Rightarrow> (Inl endpoint, r)
      | None \<Rightarrow>
          (Inr (length (rt_chans r)),
           r\<lparr>rt_clients := (rt_clients r)(endpoint \<mapsto> length (rt_chans r)),
             rt_chans := rt_chans r @ [ky_channel_new endpoint]\<rparr>))"

text \<open>
  Dropping the receiving half closes its queues; the dropper, which both halves share, runs
  when the last of them is gone and removes the endpoint.
\<close>

definition chan_close :: "nat \<Rightarrow> router \<Rightarrow> router" where
  "chan_close c r =
     (let ch = rt_chans r ! c in
      r\<lparr>rt_chans := (rt_chans r)[c := ch\<lparr>ch_uni := mpsc_close (ch_uni ch),
          ch_bi := mpsc_close (ch_bi ch), ch_datagrams := mpsc_close (ch_datagrams ch)\<rparr>]\<rparr>)"

definition chan_drop :: "nat \<Rightarrow> router \<Rightarrow> router result" where
  "chan_drop c r =
     (let r1 = chan_close c r; ch = rt_chans r1 ! c in
      and_then (assert_that (rt_clients r1 (ch_endpoint ch) \<noteq> None) ''ret.is_some()'') (\<lambda>_.
      Inr (r1\<lparr>rt_clients := (rt_clients r1)(ch_endpoint ch := None),
              rt_chans := (rt_chans r1)[c := ch\<lparr>ch_dropped := True\<rparr>]\<rparr>)))"

text \<open>Streams start with the id of their endpoint, and so do datagrams.\<close>

definition read_endpoint_id :: "reader \<Rightarrow> (u16 \<times> reader) result" where
  "read_endpoint_id recv = and_then (read_exact 2 recv) (\<lambda>(raw, recv'). Inr (get_u16 raw, recv'))"

definition write_endpoint_id :: "u16 \<Rightarrow> writer \<Rightarrow> unit result \<times> writer" where
  "write_endpoint_id endpoint send = then_write (write_all (put_u16 endpoint) send) flush"

definition open_uni :: "writer result \<Rightarrow> u16 \<Rightarrow> writer result" where
  "open_uni opened endpoint =
     and_then opened (\<lambda>send.
     case write_endpoint_id endpoint send of
       (Inl (IoError k m), _) \<Rightarrow>
         Inl (ProtocolError (''Could not write endpoint_id '' @ string_of_nat (unat endpoint) @ '': '' @ m))
     | (Inl e, _) \<Rightarrow> Inl e
     | (Inr _, send') \<Rightarrow> Inr send')"

definition open_bi :: "(writer \<times> reader) result \<Rightarrow> u16 \<Rightarrow> (writer \<times> reader) result" where
  "open_bi opened endpoint =
     and_then opened (\<lambda>(send, recv).
     case write_endpoint_id endpoint send of
       (Inl (IoError k m), _) \<Rightarrow>
         Inl (ProtocolError (''Could not write endpoint_id '' @ string_of_nat (unat endpoint) @ '': '' @ m))
     | (Inl e, _) \<Rightarrow> Inl e
     | (Inr _, send') \<Rightarrow> Inr (send', recv))"

definition write_datagram_header :: "u16 \<Rightarrow> bytes \<Rightarrow> bytes" where
  "write_datagram_header endpoint buf = buf @ put_u16 endpoint"

text \<open>
  \<open>recv_\<close> of a channel: the next item of a queue. Without an item it waits (\<open>None\<close>) as long as a sender
  exists, and a sender exists as long as the endpoint is registered.
\<close>

definition chan_recv :: "bool \<Rightarrow> 'a mpsc \<Rightarrow> ('a \<times> 'a mpsc) result option" where
  "chan_recv registered q =
     (case mpsc_recv q of
        Some xq \<Rightarrow> Some (Inr xq)
      | None \<Rightarrow> if registered then None else Some (Inl (router_error ''Ky channel closed'')))"

definition chan_registered :: "nat \<Rightarrow> router \<Rightarrow> bool" where
  "chan_registered c r = (rt_clients r (ch_endpoint (rt_chans r ! c)) = Some c)"

definition accept_uni :: "nat \<Rightarrow> router \<Rightarrow> (reader \<times> router) result option" where
  "accept_uni c r =
     (case chan_recv (chan_registered c r) (ch_uni (rt_chans r ! c)) of
        None \<Rightarrow> None
      | Some (Inl e) \<Rightarrow> Some (Inl e)
      | Some (Inr (x, q)) \<Rightarrow>
          Some (Inr (x, r\<lparr>rt_chans := (rt_chans r)[c := (rt_chans r ! c)\<lparr>ch_uni := q\<rparr>]\<rparr>)))"

definition accept_bi :: "nat \<Rightarrow> router \<Rightarrow> ((writer \<times> reader) \<times> router) result option" where
  "accept_bi c r =
     (case chan_recv (chan_registered c r) (ch_bi (rt_chans r ! c)) of
        None \<Rightarrow> None
      | Some (Inl e) \<Rightarrow> Some (Inl e)
      | Some (Inr (x, q)) \<Rightarrow>
          Some (Inr (x, r\<lparr>rt_chans := (rt_chans r)[c := (rt_chans r ! c)\<lparr>ch_bi := q\<rparr>]\<rparr>)))"

definition recv_datagram :: "nat \<Rightarrow> router \<Rightarrow> (bytes \<times> router) result option" where
  "recv_datagram c r =
     (case chan_recv (chan_registered c r) (ch_datagrams (rt_chans r ! c)) of
        None \<Rightarrow> None
      | Some (Inl e) \<Rightarrow> Some (Inl e)
      | Some (Inr (x, q)) \<Rightarrow>
          Some (Inr (x, r\<lparr>rt_chans := (rt_chans r)[c := (rt_chans r ! c)\<lparr>ch_datagrams := q\<rparr>]\<rparr>)))"

section \<open>The three tasks\<close>

text \<open>
  One iteration of each loop in two parts: what arrives is looked up, then handed to the
  queue, which may have to wait for room.
\<close>

definition uni_accepted :: "reader result \<Rightarrow> router \<Rightarrow> router" where
  "uni_accepted accepted r =
     (case accepted of
        Inl (ProtocolError m) \<Rightarrow> r\<lparr>rt_uni := Ended (router_error (''accept_uni() failed: '' @ m))\<rparr>
      | Inl e \<Rightarrow> r\<lparr>rt_uni := Ended e\<rparr>
      | Inr recv \<Rightarrow>
          (case read_endpoint_id recv of
             Inl _ \<Rightarrow> r
           | Inr (endpoint, recv') \<Rightarrow>
               (case rt_clients r endpoint of
                  Some c \<Rightarrow> r\<lparr>rt_uni := Sending recv' c\<rparr>
                | None \<Rightarrow> r\<lparr>rt_uni := Ended (router_error
                    (''accept_uni: unknown channel id: '' @ string_of_nat (unat endpoint)))\<rparr>)))"

definition uni_sent :: "reader \<Rightarrow> nat \<Rightarrow> router \<Rightarrow> router option" where
  "uni_sent recv c r =
     (let ch = rt_chans r ! c in
      case mpsc_send recv (ch_uni ch) of
        None \<Rightarrow> None
      | Some (Inl _) \<Rightarrow> Some (r\<lparr>rt_uni := Ended (router_error ''accept_uni: channel closed'')\<rparr>)
      | Some (Inr q) \<Rightarrow> Some (r\<lparr>rt_uni := Accepting, rt_chans := (rt_chans r)[c := ch\<lparr>ch_uni := q\<rparr>]\<rparr>))"

definition bi_accepted :: "(writer \<times> reader) result \<Rightarrow> router \<Rightarrow> router" where
  "bi_accepted accepted r =
     (case accepted of
        Inl (ProtocolError m) \<Rightarrow> r\<lparr>rt_bi := Ended (router_error (''accept_bi() failed: '' @ m))\<rparr>
      | Inl e \<Rightarrow> r\<lparr>rt_bi := Ended e\<rparr>
      | Inr (send, recv) \<Rightarrow>
          (case read_endpoint_id recv of
             Inl _ \<Rightarrow> r
           | Inr (endpoint, recv') \<Rightarrow>
               (case rt_clients r endpoint of
                  Some c \<Rightarrow> r\<lparr>rt_bi := Sending (send, recv') c\<rparr>
                | None \<Rightarrow> r\<lparr>rt_bi := Ended (router_error
                    (''accept_bi: unknown channel id: '' @ string_of_nat (unat endpoint)))\<rparr>)))"

definition bi_sent :: "writer \<times> reader \<Rightarrow> nat \<Rightarrow> router \<Rightarrow> router option" where
  "bi_sent sr c r =
     (let ch = rt_chans r ! c in
      case mpsc_send sr (ch_bi ch) of
        None \<Rightarrow> None
      | Some (Inl _) \<Rightarrow> Some (r\<lparr>rt_bi := Ended (router_error ''accept_bi: channel closed'')\<rparr>)
      | Some (Inr q) \<Rightarrow> Some (r\<lparr>rt_bi := Accepting, rt_chans := (rt_chans r)[c := ch\<lparr>ch_bi := q\<rparr>]\<rparr>))"

definition datagram_received :: "bytes result \<Rightarrow> router \<Rightarrow> router" where
  "datagram_received received r =
     (case received of
        Inl (ProtocolError m) \<Rightarrow>
          r\<lparr>rt_datagrams := Ended (router_error (''read_datagram() failed: '' @ m))\<rparr>
      | Inl e \<Rightarrow> r\<lparr>rt_datagrams := Ended e\<rparr>
      | Inr datagram \<Rightarrow>
          if length datagram \<ge> 2
          then (case rt_clients r (get_u16 (take 2 datagram)) of
                  Some c \<Rightarrow> r\<lparr>rt_datagrams := Sending datagram c\<rparr>
                | None \<Rightarrow> r)
          else r)"

definition datagram_sent :: "bytes \<Rightarrow> nat \<Rightarrow> router \<Rightarrow> router option" where
  "datagram_sent datagram c r =
     (let ch = rt_chans r ! c in
      case mpsc_send datagram (ch_datagrams ch) of
        None \<Rightarrow> None
      | Some (Inl _) \<Rightarrow>
          Some (r\<lparr>rt_datagrams := Ended (router_error ''recv_datagram: channel closed'')\<rparr>)
      | Some (Inr q) \<Rightarrow>
          Some (r\<lparr>rt_datagrams := Accepting, rt_chans := (rt_chans r)[c := ch\<lparr>ch_datagrams := q\<rparr>]\<rparr>))"

section \<open>Interleavings\<close>

text \<open>
  The three tasks, the endpoints and their owners run concurrently; the map of clients is
  behind a lock, so a step is one critical section or one operation on a queue.
\<close>

inductive router_step :: "router \<Rightarrow> router \<Rightarrow> bool" where
  register: "router_register e r = (Inr c, r') \<Longrightarrow> router_step r r'"
| close: "c < length (rt_chans r) \<Longrightarrow> \<not> ch_dropped (rt_chans r ! c) \<Longrightarrow> router_step r (chan_close c r)"
| drop: "c < length (rt_chans r) \<Longrightarrow> \<not> ch_dropped (rt_chans r ! c) \<Longrightarrow> chan_drop c r = Inr r'
    \<Longrightarrow> router_step r r'"
| uni_accepted: "rt_uni r = Accepting \<Longrightarrow> router_step r (uni_accepted a r)"
| uni_sent: "rt_uni r = Sending x c \<Longrightarrow> uni_sent x c r = Some r' \<Longrightarrow> router_step r r'"
| bi_accepted: "rt_bi r = Accepting \<Longrightarrow> router_step r (bi_accepted b r)"
| bi_sent: "rt_bi r = Sending y c \<Longrightarrow> bi_sent y c r = Some r' \<Longrightarrow> router_step r r'"
| datagram_received: "rt_datagrams r = Accepting \<Longrightarrow> router_step r (datagram_received d r)"
| datagram_sent: "rt_datagrams r = Sending z c \<Longrightarrow> datagram_sent z c r = Some r' \<Longrightarrow> router_step r r'"
| recv_uni: "c < length (rt_chans r) \<Longrightarrow> accept_uni c r = Some (Inr (x, r')) \<Longrightarrow> router_step r r'"
| recv_bi: "c < length (rt_chans r) \<Longrightarrow> accept_bi c r = Some (Inr (y, r')) \<Longrightarrow> router_step r r'"
| recv_dgram: "c < length (rt_chans r) \<Longrightarrow> recv_datagram c r = Some (Inr (z, r')) \<Longrightarrow> router_step r r'"

section \<open>Invariant\<close>

definition addressed :: "u16 \<Rightarrow> bytes \<Rightarrow> bool" where
  "addressed e d \<longleftrightarrow> 2 \<le> length d \<and> get_u16 (take 2 d) = e"

definition chan_inv :: "ky_channel \<Rightarrow> bool" where
  "chan_inv ch \<longleftrightarrow>
     mq_cap (ch_uni ch) = 8 \<and> length (mq_items (ch_uni ch)) \<le> 8
     \<and> mq_cap (ch_bi ch) = 8 \<and> length (mq_items (ch_bi ch)) \<le> 8
     \<and> mq_cap (ch_datagrams ch) = 16 \<and> length (mq_items (ch_datagrams ch)) \<le> 16
     \<and> (\<forall>d \<in> set (mq_items (ch_datagrams ch)). addressed (ch_endpoint ch) d)"

fun target_ok :: "('a \<Rightarrow> u16 \<Rightarrow> bool) \<Rightarrow> ky_channel list \<Rightarrow> 'a acceptor \<Rightarrow> bool" where
  "target_ok P chs (Sending x c) = (c < length chs \<and> P x (ch_endpoint (chs ! c)))"
| "target_ok P chs a = True"

definition router_inv :: "router \<Rightarrow> bool" where
  "router_inv r \<longleftrightarrow>
     (\<forall>e c. rt_clients r e = Some c \<longleftrightarrow>
        c < length (rt_chans r) \<and> ch_endpoint (rt_chans r ! c) = e \<and> \<not> ch_dropped (rt_chans r ! c))
     \<and> (\<forall>ch \<in> set (rt_chans r). chan_inv ch)
     \<and> target_ok (\<lambda>_ _. True) (rt_chans r) (rt_uni r)
     \<and> target_ok (\<lambda>_ _. True) (rt_chans r) (rt_bi r)
     \<and> target_ok (\<lambda>d e. addressed e d) (rt_chans r) (rt_datagrams r)"

text \<open>Most steps replace one channel by another one of the same endpoint.\<close>

definition same_id :: "ky_channel \<Rightarrow> ky_channel \<Rightarrow> bool" where
  "same_id ch ch' \<longleftrightarrow> ch_endpoint ch' = ch_endpoint ch \<and> ch_dropped ch' = ch_dropped ch"

lemma target_ok_update:
  "target_ok P chs a \<Longrightarrow> c < length chs \<Longrightarrow> ch_endpoint ch = ch_endpoint (chs ! c)
     \<Longrightarrow> target_ok P (chs[c := ch]) a"
  by (cases a) (auto simp: nth_list_update)

lemma target_ok_append: "target_ok P chs a \<Longrightarrow> target_ok P (chs @ [ch]) a"
  by (cases a) (auto simp: nth_append)

lemma router_inv_update:
  assumes "router_inv r" "c < length (rt_chans r)" "same_id (rt_chans r ! c) ch" "chan_inv ch"
    and "rt_chans r' = (rt_chans r)[c := ch]" "rt_clients r' = rt_clients r"
    and "rt_uni r' = rt_uni r \<or> rt_uni r' = Accepting" "rt_bi r' = rt_bi r \<or> rt_bi r' = Accepting"
    and "rt_datagrams r' = rt_datagrams r \<or> rt_datagrams r' = Accepting"
  shows "router_inv r'"
proof -
  have eq: "ch_endpoint (rt_chans r' ! i) = ch_endpoint (rt_chans r ! i)
      \<and> ch_dropped (rt_chans r' ! i) = ch_dropped (rt_chans r ! i)" if "i < length (rt_chans r)" for i
    using assms(2,3,5) that by (auto simp: nth_list_update same_id_def)
  have "set (rt_chans r') \<subseteq> insert ch (set (rt_chans r))"
    by (simp add: assms(5) set_update_subset_insert)
  moreover have "\<forall>x \<in> set (rt_chans r). chan_inv x" using assms(1) by (simp add: router_inv_def)
  ultimately have ci: "\<forall>x \<in> set (rt_chans r'). chan_inv x" using assms(4) by blast
  have e: "ch_endpoint ch = ch_endpoint (rt_chans r ! c)" using assms(3) by (simp add: same_id_def)
  have "rt_clients r' e = Some k \<longleftrightarrow> k < length (rt_chans r') \<and> ch_endpoint (rt_chans r' ! k) = e
      \<and> \<not> ch_dropped (rt_chans r' ! k)" for e k
    using assms(1,5,6) eq [of k] by (auto simp: router_inv_def)
  moreover have "target_ok (\<lambda>_ _. True) (rt_chans r') (rt_uni r')"
    "target_ok (\<lambda>_ _. True) (rt_chans r') (rt_bi r')"
    "target_ok (\<lambda>d e. addressed e d) (rt_chans r') (rt_datagrams r')"
    using assms(1,2,7-9) e by (auto simp: router_inv_def assms(5) target_ok_update)
  ultimately show ?thesis using ci by (simp add: router_inv_def)
qed

lemma client_iff:
  "router_inv r \<Longrightarrow> rt_clients r e = Some c \<longleftrightarrow>
     c < length (rt_chans r) \<and> ch_endpoint (rt_chans r ! c) = e \<and> \<not> ch_dropped (rt_chans r ! c)"
  by (simp add: router_inv_def)

lemma chan_inv_at: "router_inv r \<Longrightarrow> c < length (rt_chans r) \<Longrightarrow> chan_inv (rt_chans r ! c)"
  by (simp add: router_inv_def)

lemma mpsc_send_Inr:
  "mpsc_send x q = Some (Inr q') \<longleftrightarrow>
     mq_open q \<and> length (mq_items q) < mq_cap q \<and> q' = q\<lparr>mq_items := mq_items q @ [x]\<rparr>"
  by (auto simp: mpsc_send_def)

lemma chan_recv_Inr:
  "chan_recv b q = Some (Inr (x, q')) \<longleftrightarrow> (\<exists>xs. mq_items q = x # xs \<and> q' = q\<lparr>mq_items := xs\<rparr>)"
  by (auto simp: chan_recv_def mpsc_recv_def split: list.splits)

lemma router_inv_task:
  assumes "router_inv r" "rt_chans r' = rt_chans r" "rt_clients r' = rt_clients r"
    and "rt_uni r' = rt_uni r \<or> target_ok (\<lambda>_ _. True) (rt_chans r) (rt_uni r')"
    and "rt_bi r' = rt_bi r \<or> target_ok (\<lambda>_ _. True) (rt_chans r) (rt_bi r')"
    and "rt_datagrams r' = rt_datagrams r
         \<or> target_ok (\<lambda>d e. addressed e d) (rt_chans r) (rt_datagrams r')"
  shows "router_inv r'"
  using assms by (auto simp: router_inv_def)

lemma accepted_inv:
  assumes "router_inv r"
  shows "router_inv (uni_accepted a r)" "router_inv (bi_accepted b r)" "router_inv (datagram_received d r)"
proof -
  have c: "rt_clients r e = Some c \<Longrightarrow> c < length (rt_chans r) \<and> ch_endpoint (rt_chans r ! c) = e" for e c
    using assms by (simp add: router_inv_def)
  show "router_inv (uni_accepted a r)"
    using c by (intro router_inv_task [OF assms])
      (auto simp: uni_accepted_def split: sum.splits fault.splits option.splits)
  show "router_inv (bi_accepted b r)"
    using c by (intro router_inv_task [OF assms])
      (auto simp: bi_accepted_def split: sum.splits fault.splits option.splits)
  show "router_inv (datagram_received d r)"
    using c by (intro router_inv_task [OF assms])
      (auto simp: datagram_received_def addressed_def split: sum.splits fault.splits option.splits)
qed

lemma uni_sent_inv:
  assumes "router_inv r" "rt_uni r = Sending x c" "uni_sent x c r = Some r'"
  shows "router_inv r'"
proof -
  have c: "c < length (rt_chans r)" using assms(1,2) by (simp add: router_inv_def)
  from assms(3) consider "r' = r\<lparr>rt_uni := Ended (router_error ''accept_uni: channel closed'')\<rparr>"
    | q where "mpsc_send x (ch_uni (rt_chans r ! c)) = Some (Inr q)"
        "r' = r\<lparr>rt_uni := Accepting, rt_chans := (rt_chans r)[c := (rt_chans r ! c)\<lparr>ch_uni := q\<rparr>]\<rparr>"
    by (auto simp: uni_sent_def Let_def split: option.splits sum.splits)
  then show ?thesis
  proof cases
    case 1
    then show ?thesis by (intro router_inv_task [OF assms(1)]) auto
  next
    case 2
    with chan_inv_at [OF assms(1) c] show ?thesis
      by (intro router_inv_update [OF assms(1) c, of "(rt_chans r ! c)\<lparr>ch_uni := q\<rparr>"])
         (auto simp: same_id_def chan_inv_def mpsc_send_Inr)
  qed
qed

lemma bi_sent_inv:
  assumes "router_inv r" "rt_bi r = Sending x c" "bi_sent x c r = Some r'"
  shows "router_inv r'"
proof -
  have c: "c < length (rt_chans r)" using assms(1,2) by (simp add: router_inv_def)
  from assms(3) consider "r' = r\<lparr>rt_bi := Ended (router_error ''accept_bi: channel closed'')\<rparr>"
    | q where "mpsc_send x (ch_bi (rt_chans r ! c)) = Some (Inr q)"
        "r' = r\<lparr>rt_bi := Accepting, rt_chans := (rt_chans r)[c := (rt_chans r ! c)\<lparr>ch_bi := q\<rparr>]\<rparr>"
    by (auto simp: bi_sent_def Let_def split: option.splits sum.splits)
  then show ?thesis
  proof cases
    case 1
    then show ?thesis by (intro router_inv_task [OF assms(1)]) auto
  next
    case 2
    with chan_inv_at [OF assms(1) c] show ?thesis
      by (intro router_inv_update [OF assms(1) c, of "(rt_chans r ! c)\<lparr>ch_bi := q\<rparr>"])
         (auto simp: same_id_def chan_inv_def mpsc_send_Inr)
  qed
qed

lemma datagram_sent_inv:
  assumes "router_inv r" "rt_datagrams r = Sending x c" "datagram_sent x c r = Some r'"
  shows "router_inv r'"
proof -
  have c: "c < length (rt_chans r)" "addressed (ch_endpoint (rt_chans r ! c)) x"
    using assms(1,2) by (simp_all add: router_inv_def)
  from assms(3) consider "r' = r\<lparr>rt_datagrams := Ended (router_error ''recv_datagram: channel closed'')\<rparr>"
    | q where "mpsc_send x (ch_datagrams (rt_chans r ! c)) = Some (Inr q)"
        "r' = r\<lparr>rt_datagrams := Accepting, rt_chans := (rt_chans r)[c := (rt_chans r ! c)\<lparr>ch_datagrams := q\<rparr>]\<rparr>"
    by (auto simp: datagram_sent_def Let_def split: option.splits sum.splits)
  then show ?thesis
  proof cases
    case 1
    then show ?thesis by (intro router_inv_task [OF assms(1)]) auto
  next
    case 2
    with chan_inv_at [OF assms(1) c(1)] c(2) show ?thesis
      by (intro router_inv_update [OF assms(1) c(1), of "(rt_chans r ! c)\<lparr>ch_datagrams := q\<rparr>"])
         (auto simp: same_id_def chan_inv_def mpsc_send_Inr)
  qed
qed

lemma recv_inv:
  assumes "router_inv r" "c < length (rt_chans r)"
    and "accept_uni c r = Some (Inr (x, r')) \<or> accept_bi c r = Some (Inr (y, r'))
         \<or> recv_datagram c r = Some (Inr (z, r'))"
  shows "router_inv r'"
proof -
  let ?ch = "rt_chans r ! c"
  from assms(3) consider
      q where "chan_recv (chan_registered c r) (ch_uni ?ch) = Some (Inr (x, q))"
        "r' = r\<lparr>rt_chans := (rt_chans r)[c := ?ch\<lparr>ch_uni := q\<rparr>]\<rparr>"
    | q where "chan_recv (chan_registered c r) (ch_bi ?ch) = Some (Inr (y, q))"
        "r' = r\<lparr>rt_chans := (rt_chans r)[c := ?ch\<lparr>ch_bi := q\<rparr>]\<rparr>"
    | q where "chan_recv (chan_registered c r) (ch_datagrams ?ch) = Some (Inr (z, q))"
        "r' = r\<lparr>rt_chans := (rt_chans r)[c := ?ch\<lparr>ch_datagrams := q\<rparr>]\<rparr>"
    by (auto simp: accept_uni_def accept_bi_def recv_datagram_def
        split: option.splits sum.splits)
  then show ?thesis
  proof cases
    case 1
    with chan_inv_at [OF assms(1,2)] show ?thesis
      by (intro router_inv_update [OF assms(1,2), of "?ch\<lparr>ch_uni := q\<rparr>"])
         (auto simp: same_id_def chan_inv_def chan_recv_Inr)
  next
    case 2
    with chan_inv_at [OF assms(1,2)] show ?thesis
      by (intro router_inv_update [OF assms(1,2), of "?ch\<lparr>ch_bi := q\<rparr>"])
         (auto simp: same_id_def chan_inv_def chan_recv_Inr)
  next
    case 3
    with chan_inv_at [OF assms(1,2)] show ?thesis
      by (intro router_inv_update [OF assms(1,2), of "?ch\<lparr>ch_datagrams := q\<rparr>"])
         (auto simp: same_id_def chan_inv_def chan_recv_Inr)
  qed
qed

lemma close_inv:
  assumes "router_inv r" "c < length (rt_chans r)"
  shows "router_inv (chan_close c r)"
  using chan_inv_at [OF assms]
  by (intro router_inv_update [OF assms, of "rt_chans (chan_close c r) ! c"])
     (auto simp: chan_close_def Let_def same_id_def chan_inv_def mpsc_close_def assms(2))

lemma chan_close_simps [simp]:
  "rt_clients (chan_close c r) = rt_clients r" "length (rt_chans (chan_close c r)) = length (rt_chans r)"
  "c < length (rt_chans r) \<Longrightarrow> ch_endpoint (rt_chans (chan_close c r) ! c) = ch_endpoint (rt_chans r ! c)"
  "c < length (rt_chans r) \<Longrightarrow> ch_dropped (rt_chans (chan_close c r) ! c) = ch_dropped (rt_chans r ! c)"
  by (simp_all add: chan_close_def Let_def)

lemma drop_works:
  assumes "router_inv r" "c < length (rt_chans r)" "\<not> ch_dropped (rt_chans r ! c)"
  shows "\<exists>r'. chan_drop c r = Inr r'"
proof -
  have "rt_clients r (ch_endpoint (rt_chans r ! c)) = Some c" using assms by (simp add: client_iff)
  then show ?thesis using assms(2) by (simp add: chan_drop_def Let_def)
qed

lemma drop_inv:
  assumes "router_inv r" "c < length (rt_chans r)" "\<not> ch_dropped (rt_chans r ! c)" "chan_drop c r = Inr r'"
  shows "router_inv r'"
proof -
  let ?r = "chan_close c r" and ?e = "ch_endpoint (rt_chans r ! c)"
  let ?ch = "(rt_chans ?r ! c)\<lparr>ch_dropped := True\<rparr>"
  have i: "router_inv ?r" by (rule close_inv [OF assms(1,2)])
  have r': "r' = ?r\<lparr>rt_clients := (rt_clients r)(?e := None), rt_chans := (rt_chans ?r)[c := ?ch]\<rparr>"
    using assms(2,4) by (auto simp: chan_drop_def Let_def and_then_eq_Inr)
  have c: "rt_clients r ?e = Some c" using assms(1-3) by (simp add: router_inv_def)
  have "rt_clients r' e = Some k \<longleftrightarrow> k < length (rt_chans r') \<and> ch_endpoint (rt_chans r' ! k) = e
      \<and> \<not> ch_dropped (rt_chans r' ! k)" for e k
  proof -
    have "rt_clients r e = Some k \<longleftrightarrow> k < length (rt_chans r) \<and> ch_endpoint (rt_chans ?r ! k) = e
        \<and> \<not> ch_dropped (rt_chans ?r ! k)" for e k
      using i by (simp add: router_inv_def)
    note k = this
    have "e = ?e \<Longrightarrow> rt_clients r e = Some k \<Longrightarrow> k = c" using c by simp
    with k [of e k] k [of ?e c] c assms(2) show ?thesis by (auto simp: r' nth_list_update)
  qed
  moreover have "\<forall>x \<in> set (rt_chans r'). chan_inv x"
    using i chan_inv_at [OF i, of c] assms(2) set_update_subset_insert [of "rt_chans ?r" c ?ch]
    by (auto simp: router_inv_def r' chan_inv_def)
  ultimately show ?thesis
    using i assms(2) unfolding router_inv_def by (simp add: r' target_ok_update)
qed

lemma register_inv:
  assumes "router_inv r" "router_register e r = (Inr c, r')"
  shows "router_inv r'"
proof -
  have r': "r' = r\<lparr>rt_clients := (rt_clients r)(e \<mapsto> length (rt_chans r)),
      rt_chans := rt_chans r @ [ky_channel_new e]\<rparr>" and e: "rt_clients r e = None"
    using assms(2) by (auto simp: router_register_def split: option.splits)
  have n: "rt_chans r' ! k = (if k < length (rt_chans r) then rt_chans r ! k else ky_channel_new e)"
    if "k < Suc (length (rt_chans r))" for k
    using that by (auto simp: r' nth_append less_Suc_eq)
  have "rt_clients r' e' = Some k \<longleftrightarrow> k < length (rt_chans r') \<and> ch_endpoint (rt_chans r' ! k) = e'
      \<and> \<not> ch_dropped (rt_chans r' ! k)" for e' k
    using client_iff [OF assms(1), of e' k] e n [of k]
    by (auto simp: r' ky_channel_new_def less_Suc_eq)
  moreover have "\<forall>ch \<in> set (rt_chans r'). chan_inv ch"
    using assms(1) by (auto simp: router_inv_def r' chan_inv_def ky_channel_new_def mpsc_new_def)
  ultimately show ?thesis
    using assms(1) unfolding router_inv_def by (simp add: r' target_ok_append)
qed

lemma router_step_inv:
  assumes "router_step r r'" "router_inv r"
  shows "router_inv r'"
  using assms(1)
proof cases
  case (register e c)
  then show ?thesis using register_inv [OF assms(2)] by simp
next
  case (close c)
  then show ?thesis using close_inv [OF assms(2)] by simp
next
  case (drop c)
  then show ?thesis using drop_inv [OF assms(2)] by simp
next
  case (uni_sent x c)
  then show ?thesis using uni_sent_inv [OF assms(2)] by simp
next
  case (bi_sent y c)
  then show ?thesis using bi_sent_inv [OF assms(2)] by simp
next
  case (datagram_sent z c)
  then show ?thesis using datagram_sent_inv [OF assms(2)] by simp
next
  case (recv_uni c x)
  then show ?thesis using recv_inv [OF assms(2), of c x r'] by simp
next
  case (recv_bi c y)
  then show ?thesis using recv_inv [OF assms(2), of c _ r' y] by simp
next
  case (recv_dgram c z)
  then show ?thesis using recv_inv [OF assms(2), of c _ r' _ z] by simp
qed (simp_all add: accepted_inv [OF assms(2)])

lemma router_reachable_inv: "router_step\<^sup>*\<^sup>* router_start r \<Longrightarrow> router_inv r"
proof (induction rule: rtranclp_induct)
  case base
  then show ?case by (simp add: router_inv_def router_start_def)
qed (rule router_step_inv)

section \<open>Properties\<close>

text \<open>A registered channel never sees its queues closed: it waits or gets an item.\<close>

lemma recv_registered:
  assumes "chan_registered c r"
  shows "accept_uni c r \<noteq> Some (Inl f)" "accept_bi c r \<noteq> Some (Inl f)" "recv_datagram c r \<noteq> Some (Inl f)"
  using assms
  by (auto simp: accept_uni_def accept_bi_def recv_datagram_def chan_recv_def split: option.splits)

text \<open>
  C15: Whatever the interleaving of the router's tasks, its endpoints and their owners: a
  channel only ever holds datagrams addressed to its endpoint, its queues stay within their
  capacity, and an endpoint that was not dropped is registered, so that dropping it finds its
  entry (the assertion in \<open>KyChannelDropper\<close> holds) and waiting on it never reports a closed
  channel, not even after the router's tasks have ended.
\<close>

theorem router_routes:
  assumes "router_step\<^sup>*\<^sup>* router_start r" "c < length (rt_chans r)"
  shows "(\<forall>d \<in> set (mq_items (ch_datagrams (rt_chans r ! c))).
            2 \<le> length d \<and> get_u16 (take 2 d) = ch_endpoint (rt_chans r ! c))
       \<and> length (mq_items (ch_uni (rt_chans r ! c))) \<le> 8
       \<and> length (mq_items (ch_bi (rt_chans r ! c))) \<le> 8
       \<and> length (mq_items (ch_datagrams (rt_chans r ! c))) \<le> 16
       \<and> (\<not> ch_dropped (rt_chans r ! c) \<longrightarrow>
            rt_clients r (ch_endpoint (rt_chans r ! c)) = Some c
            \<and> (\<exists>r'. chan_drop c r = Inr r')
            \<and> (\<forall>f. accept_uni c r \<noteq> Some (Inl f) \<and> accept_bi c r \<noteq> Some (Inl f)
                  \<and> recv_datagram c r \<noteq> Some (Inl f)))"
proof -
  have i: "router_inv r" by (rule router_reachable_inv [OF assms(1)])
  have "chan_registered c r" if "\<not> ch_dropped (rt_chans r ! c)"
    using client_iff [OF i] assms(2) that by (simp add: chan_registered_def)
  with chan_inv_at [OF i assms(2)] drop_works [OF i assms(2)] client_iff [OF i] assms(2)
    recv_registered [of c r]
  show ?thesis unfolding chan_inv_def addressed_def by blast
qed

definition sample_router :: router where
  "sample_router = router_start\<lparr>rt_clients := [5 \<mapsto> 0],
     rt_chans := [(ky_channel_new 5)\<lparr>ch_datagrams := (mpsc_new 16)\<lparr>mq_items := [[0, 5, 9]]\<rparr>\<rparr>]\<rparr>"

lemma sample_router_reachable: "router_step\<^sup>*\<^sup>* router_start sample_router"
proof -
  let ?r1 = "router_start\<lparr>rt_clients := [5 \<mapsto> 0], rt_chans := [ky_channel_new 5]\<rparr>"
  let ?r2 = "?r1\<lparr>rt_datagrams := Sending [0, 5, 9] 0\<rparr>"
  have "router_step router_start ?r1"
    by (rule register [of 5 _ 0]) (simp add: router_register_def router_start_def)
  moreover have "router_step ?r1 ?r2"
    using datagram_received [of ?r1 "Inr [0, 5, 9]"]
    by (simp add: datagram_received_def router_start_def get_u16_def nat_be_def)
  moreover have "router_step ?r2 sample_router"
    by (rule datagram_sent [of _ "[0, 5, 9]" 0])
       (simp_all add: datagram_sent_def mpsc_send_def sample_router_def router_start_def
         ky_channel_new_def mpsc_new_def)
  ultimately show ?thesis by simp
qed

theorem router_routes_witness:
  "\<exists>d. mq_items (ch_datagrams (rt_chans sample_router ! 0)) = [d] \<and> get_u16 (take 2 d) = 5
     \<and> rt_clients sample_router 5 = Some 0"
  using router_routes [OF sample_router_reachable, of 0] by (simp add: sample_router_def ky_channel_new_def)

text \<open>
  C16: A stream opened for an endpoint reaches the queue of the channel that is registered
  under the endpoint's id at the other side, with everything written to it and nothing else.
\<close>

theorem opened_stream_arrives:
  assumes "open_uni (Inr new_writer) e = Inr w" "rt_uni r = Accepting" "rt_clients r e = Some c"
    and "c < length (rt_chans r)" "mq_open (ch_uni (rt_chans r ! c))"
    and "length (mq_items (ch_uni (rt_chans r ! c))) < mq_cap (ch_uni (rt_chans r ! c))"
  shows "\<exists>r'. router_step\<^sup>*\<^sup>* r r' \<and> rt_uni r' = Accepting
           \<and> mq_items (ch_uni (rt_chans r' ! c))
             = mq_items (ch_uni (rt_chans r ! c)) @ [\<lparr>rbuf = data, rerr = x\<rparr>]
           \<and> uni_accepted (Inr \<lparr>rbuf = wout w @ data, rerr = x\<rparr>) r
             = r\<lparr>rt_uni := Sending \<lparr>rbuf = data, rerr = x\<rparr> c\<rparr>"
proof -
  let ?s = "\<lparr>rbuf = data, rerr = x\<rparr>"
  have w: "wout w = put_u16 e"
    using assms(1) by (auto simp: open_uni_def write_endpoint_id_def new_writer_def flush_def)
  have acc: "uni_accepted (Inr \<lparr>rbuf = wout w @ data, rerr = x\<rparr>) r = r\<lparr>rt_uni := Sending ?s c\<rparr>"
    using assms(3) by (simp add: uni_accepted_def read_endpoint_id_def w read_exact_def)
  let ?q = "(ch_uni (rt_chans r ! c))\<lparr>mq_items := mq_items (ch_uni (rt_chans r ! c)) @ [?s]\<rparr>"
  let ?r = "r\<lparr>rt_uni := Accepting, rt_chans := (rt_chans r)[c := (rt_chans r ! c)\<lparr>ch_uni := ?q\<rparr>]\<rparr>"
  have "uni_sent ?s c (r\<lparr>rt_uni := Sending ?s c\<rparr>) = Some ?r"
    using assms(5,6) by (simp add: uni_sent_def mpsc_send_def Let_def)
  then have "router_step (r\<lparr>rt_uni := Sending ?s c\<rparr>) ?r"
    by (intro router_step.uni_sent [of _ ?s c]) simp_all
  moreover have "router_step r (r\<lparr>rt_uni := Sending ?s c\<rparr>)"
    using router_step.uni_accepted [OF assms(2)] acc by metis
  ultimately have "router_step\<^sup>*\<^sup>* r ?r" by simp
  with acc assms(4) show ?thesis by (intro exI [of _ ?r]) simp
qed

theorem opened_stream_arrives_witness:
  "\<exists>w r'. open_uni (Inr new_writer) 5 = Inr w \<and> router_step\<^sup>*\<^sup>* sample_router r'
     \<and> mq_items (ch_uni (rt_chans r' ! 0)) = [\<lparr>rbuf = [1, 2], rerr = None\<rparr>]"
proof -
  obtain w where w: "open_uni (Inr new_writer) 5 = Inr w"
    by (simp add: open_uni_def write_endpoint_id_def new_writer_def flush_def)
  from opened_stream_arrives [OF w, of sample_router 0 "[1, 2]" None] w show ?thesis
    by (auto simp: sample_router_def router_start_def ky_channel_new_def mpsc_new_def)
qed

text \<open>Once a task has ended it stays so, and its queues only drain.\<close>

definition uni_items :: "router \<Rightarrow> nat \<Rightarrow> reader list" where
  "uni_items r c = (if c < length (rt_chans r) then mq_items (ch_uni (rt_chans r ! c)) else [])"

lemma ch_uni_update [simp]:
  "c < length xs \<Longrightarrow> ch_uni (xs[k := (xs ! k)\<lparr>ch_bi := q\<rparr>] ! c) = ch_uni (xs ! c)"
  "c < length xs \<Longrightarrow> ch_uni (xs[k := (xs ! k)\<lparr>ch_datagrams := q'\<rparr>] ! c) = ch_uni (xs ! c)"
  by (cases "k = c"; simp)+

lemma ended_step:
  assumes "router_step r r'" "rt_uni r = Ended f"
  shows "rt_uni r' = Ended f \<and> suffix (uni_items r' c) (uni_items r c)"
  using assms(1)
proof cases
  case (register e k)
  then show ?thesis
    using assms(2) by (auto simp: router_register_def uni_items_def nth_append ky_channel_new_def
        mpsc_new_def split: option.splits)
next
  case (drop k)
  then show ?thesis
    using assms(2) by (auto simp: chan_drop_def chan_close_def Let_def and_then_eq_Inr uni_items_def
        nth_list_update mpsc_close_def)
next
  case (bi_accepted b)
  then show ?thesis
    using assms(2) by (auto simp: bi_accepted_def uni_items_def split: sum.splits fault.splits option.splits)
next
  case (bi_sent y k)
  then show ?thesis
    using assms(2) by (auto simp: bi_sent_def Let_def uni_items_def split: option.splits sum.splits)
next
  case (datagram_received d)
  then show ?thesis
    using assms(2) by (auto simp: datagram_received_def uni_items_def split: sum.splits fault.splits option.splits)
next
  case (datagram_sent z k)
  then show ?thesis
    using assms(2) by (auto simp: datagram_sent_def Let_def uni_items_def split: option.splits sum.splits)
next
  case (recv_uni k x)
  then obtain q where "chan_recv (chan_registered k r) (ch_uni (rt_chans r ! k)) = Some (Inr (x, q))"
    "r' = r\<lparr>rt_chans := (rt_chans r)[k := (rt_chans r ! k)\<lparr>ch_uni := q\<rparr>]\<rparr>"
    by (auto simp: accept_uni_def split: option.splits sum.splits)
  then show ?thesis
    using assms(2) by (cases "k = c") (auto simp: chan_recv_Inr uni_items_def suffix_def)
next
  case (close k)
  then show ?thesis
    using assms(2) by (auto simp: chan_close_def Let_def mpsc_close_def uni_items_def nth_list_update)
qed (use assms(2) in \<open>auto simp: uni_items_def accept_bi_def recv_datagram_def
      split: option.splits sum.splits\<close>)

text \<open>
  C17: One incoming unidirectional stream with an id that is not registered (an endpoint dropped a
  moment ago, or any id a peer makes up) ends the task that accepts unidirectional streams: from then
  on no endpoint, not even one registered later, is handed one again. A datagram in the same
  situation is only skipped.
\<close>

theorem unknown_stream_ends_routing:
  assumes "rt_uni r = Accepting" "read_endpoint_id s = Inr (e, s')" "rt_clients r e = None"
    and "router_step\<^sup>*\<^sup>* (uni_accepted (Inr s) r) r'"
  shows "(\<exists>f. rt_uni r' = Ended f) \<and> suffix (uni_items r' c) (uni_items r c)
       \<and> (2 \<le> length d \<and> rt_clients r (get_u16 (take 2 d)) = None \<longrightarrow> datagram_received (Inr d) r = r)"
proof -
  obtain f where f: "rt_uni (uni_accepted (Inr s) r) = Ended f"
    and q: "uni_items (uni_accepted (Inr s) r) c = uni_items r c"
    using assms(2,3) by (simp add: uni_accepted_def uni_items_def)
  from assms(4) have "rt_uni r' = Ended f \<and> suffix (uni_items r' c) (uni_items r c)"
  proof (induction rule: rtranclp_induct)
    case base
    then show ?case using f q by simp
  next
    case (step y z)
    then show ?case using ended_step [of y z f c] suffix_order.trans by blast
  qed
  then show ?thesis by (simp add: datagram_received_def)
qed

theorem unknown_stream_ends_routing_witness:
  "\<exists>f. rt_uni (uni_accepted (Inr \<lparr>rbuf = [0, 6, 1], rerr = None\<rparr>) sample_router) = Ended f"
  using unknown_stream_ends_routing [of sample_router "\<lparr>rbuf = [0, 6, 1], rerr = None\<rparr>" 6
      "\<lparr>rbuf = [1], rerr = None\<rparr>" "uni_accepted (Inr \<lparr>rbuf = [0, 6, 1], rerr = None\<rparr>) sample_router"]
  by (simp add: sample_router_def router_start_def read_endpoint_id_def read_exact_def get_u16_def nat_be_def)

end
