(* ===== verification/Channel.thy ===== *)
theory Channel
  imports Router
begin

text \<open>
  The sending side of a channel as the media senders use it (\<open>KyChannel\<close> in
  \<open>kyproto/src/router.rs\<close>): the endpoint id, the largest datagram size and the datagrams handed
  to the connection. The connection may refuse datagrams after some number of them.
\<close>

section \<open>Datagrams\<close>

record send_channel =
  sc_endpoint :: u16
  sc_max_datagram :: "nat option"
  sc_sent :: "bytes list"
  sc_room :: "nat option"
  sc_error :: string

definition send_datagram :: "bytes \<Rightarrow> send_channel \<Rightarrow> unit result \<times> send_channel" where
  "send_datagram dg c =
     (case sc_room c of
        None \<Rightarrow> (Inr (), c\<lparr>sc_sent := sc_sent c @ [dg]\<rparr>)
      | Some 0 \<Rightarrow> (Inl (ProtocolError (sc_error c)), c)
      | Some (Suc n) \<Rightarrow> (Inr (), c\<lparr>sc_sent := sc_sent c @ [dg], sc_room := Some n\<rparr>))"

text \<open>A loop that sends datagrams with \<open>?\<close> stops at the first error.\<close>

fun send_datagram_list :: "bytes list \<Rightarrow> send_channel \<Rightarrow> unit result \<times> send_channel" where
  "send_datagram_list [] c = (Inr (), c)"
| "send_datagram_list (dg # dgs) c =
     (case send_datagram dg c of
        (Inl e, c') \<Rightarrow> (Inl (protocol_error_new e), c')
      | (Inr _, c') \<Rightarrow> send_datagram_list dgs c')"

lemma send_datagram_list_prefix:
  "\<exists>k \<le> length dgs. sc_sent (snd (send_datagram_list dgs c)) = sc_sent c @ take k dgs
     \<and> (fst (send_datagram_list dgs c) = Inr () \<longrightarrow> k = length dgs)
     \<and> (\<forall>e. fst (send_datagram_list dgs c) = Inl e \<longrightarrow> \<not> panics e)"
proof (induction dgs arbitrary: c)
  case (Cons dg dgs)
  obtain u c' where s: "send_datagram dg c = (u, c')" by (cases "send_datagram dg c")
  show ?case
  proof (cases u)
    case (Inl e)
    then have "sc_sent c' = sc_sent c" "\<not> panics (protocol_error_new e)"
      using s by (auto simp: send_datagram_def split: option.splits nat.splits)
    then show ?thesis using s Inl by (intro exI [of _ 0]) simp
  next
    case (Inr x)
    then have "sc_sent c' = sc_sent c @ [dg]"
      using s by (auto simp: send_datagram_def split: option.splits nat.splits)
    moreover obtain k where "k \<le> length dgs" "sc_sent (snd (send_datagram_list dgs c')) = sc_sent c' @ take k dgs"
      "fst (send_datagram_list dgs c') = Inr () \<longrightarrow> k = length dgs"
      "\<forall>e. fst (send_datagram_list dgs c') = Inl e \<longrightarrow> \<not> panics e"
      using Cons.IH [of c'] by blast
    ultimately show ?thesis using s Inr by (intro exI [of _ "Suc k"]) simp
  qed
qed simp

end
