(* ===== verification/VideoFec_Send.thy ===== *)
theory VideoFec_Send
  imports VideoFec Channel
begin

text \<open>
  The sender of the unreliable video protocol with forward error correction
  (\<open>driver/av/video_unreliable_fec.rs\<close>) and the systematic encoder of its source-first variant
  (\<open>driver/av/source_first.rs\<close>).
\<close>

section \<open>The number of repair symbols\<close>

text \<open>
  \<open>(n as f32 * 0.3).ceil() as u32\<close>: a binary32 number has 24 significant bits; the constant
  0.3 is 10066330 / 2^25; conversion and product are rounded to the nearest number, ties to
  even.
\<close>

fun bit_length :: "nat \<Rightarrow> nat" where
  "bit_length n = (if n = 0 then 0 else Suc (bit_length (n div 2)))"

declare bit_length.simps [simp del]

definition round_div :: "nat \<Rightarrow> nat \<Rightarrow> nat" where
  "round_div n m =
     (let q = n div m; r = n mod m in
      if 2 * r < m then q else if 2 * r > m then Suc q else if even q then q else Suc q)"

definition round24 :: "nat \<Rightarrow> nat" where
  "round24 n =
     (if n < 2 ^ 24 then n
      else let m = 2 ^ (bit_length n - 24) in round_div n m * m)"

definition repair_symbols :: "nat \<Rightarrow> nat" where
  "repair_symbols n =
     max (min (div_ceil (round24 (round24 n * 10066330)) (2 ^ 25)) (2 ^ 32 - 1)) 2"

section \<open>Source packets\<close>

text \<open>
  \<open>source_packets\<close>: every source block is cut into sub-blocks, and symbol \<open>i\<close> of the block is
  the \<open>i\<close>-th piece of each sub-block. The inner loop hands one piece to each symbol.
\<close>

definition slice :: "nat \<Rightarrow> nat \<Rightarrow> bytes \<Rightarrow> bytes result" where
  "slice a b xs = (if a \<le> b \<and> b \<le> length xs then Inr (take (b - a) (drop a xs))
                   else Inl (Panic ''range end index out of range''))"

fun sp_symbols :: "bytes \<Rightarrow> nat \<Rightarrow> bytes list \<Rightarrow> nat \<Rightarrow> (bytes list \<times> nat) result" where
  "sp_symbols padded width [] offset = Inr ([], offset)"
| "sp_symbols padded width (s # ss) offset =
     and_then (slice offset (offset + width) padded) (\<lambda>piece.
     and_then (sp_symbols padded width ss (offset + width)) (\<lambda>(rest, offset').
     Inr ((s @ piece) # rest, offset')))"

fun sp_sub_blocks :: "bytes \<Rightarrow> nat list \<Rightarrow> bytes list \<Rightarrow> nat \<Rightarrow> (bytes list \<times> nat) result" where
  "sp_sub_blocks padded [] symbols offset = Inr (symbols, offset)"
| "sp_sub_blocks padded (w # ws) symbols offset =
     and_then (sp_symbols padded w symbols offset) (\<lambda>(symbols', offset').
     sp_sub_blocks padded ws symbols' offset')"

definition sp_widths :: "'d raptorq \<Rightarrow> oti \<Rightarrow> nat list" where
  "sp_widths rq oti =
     (case partition rq (unat (symbol_size oti) div unat (symbol_alignment oti)) (unat (sub_blocks oti)) of
        (large, small, large_count, small_count) \<Rightarrow>
          map (\<lambda>i. (if i < large_count then large else small) * unat (symbol_alignment oti))
            [0..<large_count + small_count])"

definition sp_block ::
  "'d raptorq \<Rightarrow> bytes \<Rightarrow> oti \<Rightarrow> nat \<Rightarrow> nat \<times> nat \<Rightarrow> (payload_id \<times> bytes) list result" where
  "sp_block rq data oti block_id rg =
     and_then (slice (fst rg) (min (snd rg) (length data)) data) (\<lambda>chunk.
     let padded = take (snd rg - fst rg) chunk
                  @ replicate (snd rg - fst rg - length chunk) 0;
         symbol_count = length padded div unat (symbol_size oti)
     in and_then (sp_sub_blocks padded (sp_widths rq oti) (replicate symbol_count []) 0)
          (\<lambda>(symbols, offset).
        and_then (assert_that (offset = length padded) ''offset == padded.len()'') (\<lambda>_.
        Inr (map (\<lambda>(i, s). (\<lparr>source_block_number = of_nat block_id, encoding_symbol_id = of_nat i\<rparr>, s))
               (enumerate 0 symbols)))))"

fun sp_blocks ::
  "'d raptorq \<Rightarrow> bytes \<Rightarrow> oti \<Rightarrow> nat \<Rightarrow> (nat \<times> nat) list \<Rightarrow> (payload_id \<times> bytes) list result" where
  "sp_blocks rq data oti b [] = Inr []"
| "sp_blocks rq data oti b (rg # rgs) =
     and_then (sp_block rq data oti b rg) (\<lambda>ps.
     and_then (sp_blocks rq data oti (Suc b) rgs) (\<lambda>qs. Inr (ps @ qs)))"

definition source_packets :: "'d raptorq \<Rightarrow> bytes \<Rightarrow> oti \<Rightarrow> (payload_id \<times> bytes) list result" where
  "source_packets rq data oti =
     and_then (assert_that (length data = unat (transfer_length oti)) ''oti.transfer_length()'') (\<lambda>_.
     if symbol_size oti = 0 \<or> symbol_alignment oti = 0 then Inl (Panic ''attempt to divide by zero'')
     else sp_blocks rq data oti 0 (block_offsets rq data oti))"

section \<open>The sender\<close>

record vf_sender =
  vs_channel :: send_channel
  vs_stream :: writer
  vs_kypacket_seq :: u32
  vs_group_seq :: u32

definition vf_send_start :: "send_channel \<Rightarrow> writer result \<Rightarrow> vf_sender result" where
  "vf_send_start c opened =
     and_then (map_err protocol_error_new (open_uni opened (sc_endpoint c))) (\<lambda>stream.
     Inr \<lparr>vs_channel = c, vs_stream = stream, vs_kypacket_seq = 0, vs_group_seq = 0\<rparr>)"

text \<open>One encoded symbol as a datagram; \<open>send_fec_packet\<close> lays it out in the same way.\<close>

definition vf_datagram :: "'d raptorq \<Rightarrow> vf_sender \<Rightarrow> oti \<Rightarrow> payload_id \<times> bytes \<Rightarrow> bytes" where
  "vf_datagram rq s oti p =
     write_datagram_header (sc_endpoint (vs_channel s)) [] @ put_u32 (vs_kypacket_seq s)
       @ put_u32 (vs_group_seq s) @ oti_serialize rq oti @ payload_id_serialize rq (fst p) @ snd p"

definition vf_send_packets ::
  "'d raptorq \<Rightarrow> oti \<Rightarrow> (payload_id \<times> bytes) list \<Rightarrow> vf_sender \<Rightarrow> unit result \<times> vf_sender" where
  "vf_send_packets rq oti ps s =
     apsnd (\<lambda>c. s\<lparr>vs_channel := c\<rparr>) (send_datagram_list (map (vf_datagram rq s oti) ps) (vs_channel s))"

text \<open>The checks and the payload both variants of \<open>send_datagrams\<close> start with.\<close>

definition vf_object :: "media_packet_header \<Rightarrow> bytes \<Rightarrow> vf_sender \<Rightarrow> (u16 \<times> bytes) result" where
  "vf_object h payload s =
     (case sc_max_datagram (vs_channel s) of
        None \<Rightarrow> Inl (ProtocolError ''Datagram not supported'')
      | Some m \<Rightarrow>
          and_then (assert_that (m > vf_DATAGRAM_HEADER_SIZE) ''max_datagram_size > DATAGRAM_HEADER_SIZE'') (\<lambda>_.
          and_then (assert_that (m < 0x10000) ''max_datagram_size < 0x10000'') (\<lambda>_.
          and_then (media_serialize h) (\<lambda>header.
          Inr (of_nat (m - vf_DATAGRAM_HEADER_SIZE), header @ payload)))))"

definition vf_send_datagrams ::
  "'d raptorq \<Rightarrow> media_packet_header \<Rightarrow> bytes \<Rightarrow> vf_sender \<Rightarrow> unit result \<times> vf_sender" where
  "vf_send_datagrams rq h payload s =
     (case vf_object h payload s of
        Inl e \<Rightarrow> (Inl e, s)
      | Inr (max_payload_size, data) \<Rightarrow>
          let oti = oti_with_defaults rq (of_nat (length data)) max_payload_size in
          if symbol_size oti = 0 then (Inl (Panic ''attempt to divide by zero''), s)
          else
            let source_symbols = div_ceil (length data) (unat (symbol_size oti)) in
            vf_send_packets rq oti (encoded_packets rq data oti (repair_symbols source_symbols)) s)"

text \<open>The source-first variant sends the source symbols before it computes any repair symbol.\<close>

definition vf_send_source_first ::
  "'d raptorq \<Rightarrow> media_packet_header \<Rightarrow> bytes \<Rightarrow> vf_sender \<Rightarrow> unit result \<times> vf_sender" where
  "vf_send_source_first rq h payload s =
     (case vf_object h payload s of
        Inl e \<Rightarrow> (Inl e, s)
      | Inr (max_payload_size, data) \<Rightarrow>
          let oti = oti_with_defaults rq (of_nat (length data)) max_payload_size in
          (case source_packets rq data oti of
             Inl e \<Rightarrow> (Inl e, s)
           | Inr sources \<Rightarrow>
               (case vf_send_packets rq oti sources s of
                  (Inl e, s1) \<Rightarrow> (Inl e, s1)
                | (Inr _, s1) \<Rightarrow>
                    vf_send_packets rq oti (repair_packets rq data oti (repair_symbols (length sources))) s1)))"

text \<open>A record on the stream: both sequence numbers, the header and the payload.\<close>

definition vf_write_stream :: "bytes \<Rightarrow> vf_sender \<Rightarrow> unit result \<times> vf_sender" where
  "vf_write_stream buf s =
     apsnd (\<lambda>w. s\<lparr>vs_stream := w\<rparr>)
       (apfst (map_err protocol_error_new) (then_write (write_all buf (vs_stream s)) flush))"

definition vf_send ::
  "(media_packet_header \<Rightarrow> bytes \<Rightarrow> vf_sender \<Rightarrow> unit result \<times> vf_sender)
     \<Rightarrow> av_packet \<Rightarrow> vf_sender \<Rightarrow> unit result \<times> vf_sender" where
  "vf_send send_datagrams packet s =
     (case packet of
        Codec h \<Rightarrow>
          (case codec_serialize h of
             Inl e \<Rightarrow> (Inl e, s)
           | Inr hdr \<Rightarrow> vf_write_stream (put_u64 0 @ hdr) s)
      | Media h payload \<Rightarrow>
          if is_config h then
            let s1 = s\<lparr>vs_group_seq := vs_group_seq s + 1\<rparr> in
            (case media_serialize h of
               Inl e \<Rightarrow> (Inl e, s1)
             | Inr hdr \<Rightarrow>
                 (case vf_write_stream
                         (put_u32 (vs_kypacket_seq s1) @ put_u32 (vs_group_seq s1) @ hdr @ payload) s1 of
                    (Inl e, s2) \<Rightarrow> (Inl e, s2)
                  | (Inr _, s2) \<Rightarrow> (Inr (), s2\<lparr>vs_kypacket_seq := vs_kypacket_seq s2 + 1\<rparr>)))
          else
            (case send_datagrams h payload s of
               (Inl e, s1) \<Rightarrow> (Inl e, s1)
             | (Inr _, s1) \<Rightarrow> (Inr (), s1\<lparr>vs_kypacket_seq := vs_kypacket_seq s1 + 1\<rparr>))
      | Hole _ \<Rightarrow> (Inl (Panic ''Unexpected input hole packet''), s))"

fun vf_send_all ::
  "(media_packet_header \<Rightarrow> bytes \<Rightarrow> vf_sender \<Rightarrow> unit result \<times> vf_sender)
     \<Rightarrow> av_packet list \<Rightarrow> vf_sender \<Rightarrow> unit result \<times> vf_sender" where
  "vf_send_all sd [] s = (Inr (), s)"
| "vf_send_all sd (p # ps) s =
     (case vf_send sd p s of
        (Inl e, s') \<Rightarrow> (Inl e, s')
      | (Inr _, s') \<Rightarrow> vf_send_all sd ps s')"

end
