(* ===== verification/VideoFec_Content.thy ===== *)
theory VideoFec_Content
  imports VideoFec_Order
begin

text \<open>
  What the FEC video receiver forwards, for messages that come from a sender: packet \<open>k\<close> is the
  packet \<open>pk k\<close> the sender counted as number \<open>k\<close>. Besides the functional invariants this takes
  a codec that only ever reconstructs the object whose symbols it was fed.
\<close>

section \<open>Faithful codecs\<close>

text \<open>
  \<open>symb data oti pid s\<close>: \<open>s\<close> is a symbol of the object \<open>data\<close>. \<open>fed data oti d\<close>: the decoder \<open>d\<close> was
  made for \<open>oti\<close> and has been fed symbols of \<open>data\<close> only. A decoder fed symbols of one object
  returns nothing or that object.
\<close>

definition codec_faithful ::
  "'d raptorq \<Rightarrow> (bytes \<Rightarrow> oti \<Rightarrow> payload_id \<Rightarrow> bytes \<Rightarrow> bool) \<Rightarrow> (bytes \<Rightarrow> oti \<Rightarrow> 'd \<Rightarrow> bool) \<Rightarrow> bool" where
  "codec_faithful rq symb fed \<longleftrightarrow>
     (\<forall>data oti d. decoder_new rq oti = Inr d \<longrightarrow> fed data oti d)
     \<and> (\<forall>data oti d pid s d' res. fed data oti d \<and> symb data oti pid s
          \<and> decoder_decode rq d pid s = Inr (d', res) \<longrightarrow>
          fed data oti d' \<and> (\<forall>x. res = Some x \<longrightarrow> x = data))"

lemma object_decode_faithful:
  assumes "codec_faithful rq symb fed" "fed data (od_oti od) (od_decoder od)" "symb data oti pid s"
    and "object_decode rq oti pid s od = Inr (res, od')"
  shows "fed data (od_oti od') (od_decoder od') \<and> (\<forall>x. res = Some x \<longrightarrow> x = data)"
  using assms
  by (auto simp: object_decode_def codec_faithful_def Let_def and_then_eq_Inr split: if_splits)

lemma object_decoder_new_fed:
  assumes "codec_faithful rq symb fed" "object_decoder_new rq oti m = Inr od"
  shows "fed data (od_oti od) (od_decoder od)"
  using assms by (auto simp: object_decoder_new_def codec_faithful_def and_then_eq_Inr)

section \<open>Pending packets are what was sent\<close>

definition group_content ::
  "(bytes \<Rightarrow> oti \<Rightarrow> 'd \<Rightarrow> bool) \<Rightarrow> (u64 \<Rightarrow> av_packet) \<Rightarrow> (u64 \<Rightarrow> bytes) \<Rightarrow> 'd pending_group \<Rightarrow> bool" where
  "group_content fed pk ob g \<longleftrightarrow>
     (\<forall>q k. config_packet g = CReady q k \<longrightarrow> q = pk k)
     \<and> (\<forall>d \<in> set (datagrams g). dp_packet d = pk (dp_seq d))
     \<and> (\<forall>s \<in> set (segments g). fed (ob (ds_seq s)) (od_oti (ds_decoder s)) (od_decoder (ds_decoder s)))"

definition vf_content ::
  "(bytes \<Rightarrow> oti \<Rightarrow> 'd \<Rightarrow> bool) \<Rightarrow> (u64 \<Rightarrow> av_packet) \<Rightarrow> (u64 \<Rightarrow> bytes) \<Rightarrow> 'd pending_groups \<Rightarrow> bool" where
  "vf_content fed pk ob p \<longleftrightarrow> (\<forall>g \<in> set (groups p). group_content fed pk ob g)"

lemma group_content_new [simp]: "group_content fed pk ob (vf_group_new g)"
  by (simp add: group_content_def vf_group_new_def)

lemma group_content_sub:
  assumes "group_content fed pk ob g" "set (datagrams g') \<subseteq> set (datagrams g)"
    "set (segments g') \<subseteq> set (segments g)" "config_packet g' = config_packet g \<or> config_packet g' = CSent"
  shows "group_content fed pk ob g'"
  using assms unfolding group_content_def by (metis config_packet.distinct(5) subsetD)

lemma vf_content_update:
  assumes "vf_content fed pk ob p" "group_content fed pk ob g'"
  shows "vf_content fed pk ob (p\<lparr>groups := (groups p)[i := g']\<rparr>)"
  using assms set_update_subset_insert [of "groups p" i g'] by (auto simp: vf_content_def)

lemma vf_retire_content:
  assumes "vf_content fed pk ob p" "vf_retire_oldest now p = (True, p')"
  shows "vf_content fed pk ob p'"
proof -
  obtain i d k t g stats g' where r: "i < length (groups p)" "g = groups p ! i"
    "if d then (\<exists>x xs. datagrams g = x # xs \<and> dp_seq x = k \<and> stats = dp_stats x
                 \<and> g' = g\<lparr>datagrams := xs\<rparr>)
     else (\<exists>x xs. segments g = x # xs \<and> ds_seq x = k \<and> stats = vf_fec_stats x
                 \<and> g' = g\<lparr>segments := xs\<rparr>)"
    "groups p' = (if config_is_none (config_packet g') \<and> segments g' = [] \<and> datagrams g' = []
                  then remove_at i (groups p) else (groups p)[i := g'])"
    by (rule vf_retire_oldest_cases [OF assms(2)])
  have g: "group_content fed pk ob g" using assms(1) r(1,2) by (simp add: vf_content_def)
  have "group_content fed pk ob g'" by (rule group_content_sub [OF g]) (use r(3) in \<open>auto split: if_splits\<close>)
  moreover have "set (groups p') \<subseteq> insert g' (set (groups p))"
    using r(4) set_update_subset_insert [of "groups p" i g'] set_take_subset [of i "groups p"]
      set_drop_subset [of "Suc i" "groups p"] by (auto simp: remove_at_def split: if_splits)
  ultimately show ?thesis using assms(1) by (auto simp: vf_content_def)
qed

lemma vf_admit_content:
  "vf_content fed pk ob p \<Longrightarrow> vf_admit now a p = Inr p' \<Longrightarrow> vf_content fed pk ob p'"
  using vf_admit_preserves(1) [of now a p p' "vf_content fed pk ob"] vf_retire_content by blast

lemma vf_prepare_content:
  assumes "vf_inv rq good p" "vf_content fed pk ob p" "vf_prepare_group gs p = Inr (i, p')"
  shows "vf_content fed pk ob p'"
proof -
  have so: "sorted_key group_seq (groups p)" using assms(1) by (simp add: vf_inv_def)
  obtain ys g zs where "groups p' = ys @ g # zs" "i = length ys" "group_seq g = gs"
    "\<forall>y \<in> set ys. group_seq y < gs" "\<forall>z \<in> set zs. gs < group_seq z"
    "(groups p = ys @ g # zs \<and> p' = p)
     \<or> (groups p = ys @ zs \<and> g = vf_group_new gs \<and> length (groups p) < 32
        \<and> p' = p\<lparr>groups := ys @ g # zs\<rparr>)"
    by (rule vf_prepare_group_cases [OF so assms(3)])
  with assms(2) group_content_new [of fed pk ob gs] show ?thesis
    unfolding vf_content_def by (elim disjE conjE) simp_all
qed

lemma vf_insert_stream_content:
  assumes "vf_inv rq good p" "vf_content fed pk ob p" "vf_insert_stream_packet now gs k packet p = Inr p'"
    and "packet = pk k"
  shows "vf_content fed pk ob p'"
  using assms(3)
proof (cases rule: vf_insert_stream_cases)
  case (1 h payload p1 i p2)
  have i1: "vf_inv rq good p1" using vf_admit_inv(1) [OF assms(1) 1(3)] .
  have p2: "vf_content fed pk ob p2"
    using vf_prepare_content [OF i1 vf_admit_content [OF assms(2) 1(3)] 1(4)] .
  have "group_content fed pk ob (groups p2 ! i)"
    using p2 vf_prepare_group_index(3) [OF i1 1(4)] by (simp add: vf_content_def)
  then show ?thesis unfolding 1(6)
    using assms(4) by (intro vf_content_update [OF p2]) (simp add: group_content_def)
qed

lemma vf_group_insert_content:
  assumes "decoder_ok rq good" "vf_group_inv rq good g" "codec_faithful rq symb fed"
    and "group_content fed pk ob g" "vf_group_insert rq now k oti pid data g = Inr g'"
    and "symb (ob k) oti pid data" "\<forall>q. media_packet (ob k) = Inr q \<longrightarrow> q = pk k"
  shows "group_content fed pk ob g'"
proof -
  have c: "\<And>q k. config_packet g = CReady q k \<Longrightarrow> q = pk k"
    "\<forall>d \<in> set (datagrams g). dp_packet d = pk (dp_seq d)"
    "\<forall>s \<in> set (segments g). fed (ob (ds_seq s)) (od_oti (ds_decoder s)) (od_decoder (ds_decoder s))"
    using assms(4) by (auto simp: group_content_def)
  have fed: "fed (ob k) (od_oti od) (od_decoder od)"
    if "map ds_decoder old = [od] \<or> old = [] \<and> object_decoder_new rq oti MAX_VIDEO_PAYLOAD = Inr od"
      "old = [] \<or> (\<exists>s0. old = [s0] \<and> ds_seq s0 = k \<and> od_oti (ds_decoder s0) = oti)"
      "set old \<subseteq> set (segments g)" for old :: "'a datagram_segments list" and od
    using that c(3) object_decoder_new_fed [OF assms(3)] by (elim disjE) auto
  from assms(1,2,5) show ?thesis
  proof (cases rule: vf_group_insert_cases)
    case known
    with assms(4) show ?thesis by simp
  next
    case (symbol ys old zs s od)
    have "fed (ob k) (od_oti od) (od_decoder od)" by (rule fed [OF symbol(11,3)]) (auto simp: symbol(2))
    from object_decode_faithful [OF assms(3) this assms(6) symbol(12)]
    have "fed (ob k) (od_oti (ds_decoder s)) (od_decoder (ds_decoder s))" by blast
    with c symbol show ?thesis by (auto simp: group_content_def)
  next
    case (complete ys old zs as d bs od od' bytes)
    have "fed (ob k) (od_oti od) (od_decoder od)" by (rule fed [OF complete(15,3)]) (auto simp: complete(2))
    from object_decode_faithful [OF assms(3) this assms(6) complete(16)]
    have "bytes = ob k" by blast
    then have "dp_packet d = pk k" using assms(7) complete(17) by blast
    with c complete show ?thesis by (auto simp: group_content_def)
  qed
qed

lemma vf_insert_datagram_content:
  assumes "decoder_ok rq good" "vf_inv rq good p" "codec_faithful rq symb fed" "vf_content fed pk ob p"
    and "vf_insert_datagram rq now gs k oti pid data p = Inr p'"
    and "symb (ob k) oti pid data" "\<forall>q. media_packet (ob k) = Inr q \<longrightarrow> q = pk k"
  shows "vf_content fed pk ob p'"
  using assms(5)
proof (cases rule: vf_insert_datagram_cases)
  case retired
  with assms(4) show ?thesis by simp
next
  case obsolete
  with vf_admit_content [OF assms(4)] show ?thesis by blast
next
  case (inserted p1 i p2 g')
  have i1: "vf_inv rq good p1" using inserted(5) assms(2) vf_admit_inv(1) [OF assms(2)] by auto
  have "vf_content fed pk ob p1" using inserted(5) assms(4) vf_admit_content [OF assms(4)] by auto
  then have p2: "vf_content fed pk ob p2" using vf_prepare_content [OF i1 _ inserted(6)] by blast
  note ix = vf_prepare_group_index [OF i1 inserted(6)]
  have g: "vf_group_inv rq good (groups p2 ! i)"
    using vf_prepare_group_inv(1) [OF i1 inserted(6)] ix(3) by (simp add: vf_inv_def)
  have "group_content fed pk ob (groups p2 ! i)" using p2 ix(3) by (simp add: vf_content_def)
  from vf_group_insert_content [OF assms(1) g assms(3) this inserted(7) assms(6,7)]
  show ?thesis unfolding inserted(8) by (rule vf_content_update [OF p2])
qed

section \<open>Forwarding\<close>

definition genuine :: "(u64 \<Rightarrow> av_packet) \<Rightarrow> emission \<Rightarrow> bool" where
  "genuine pk x \<longleftrightarrow> (\<forall>k. fst x = Some k \<longrightarrow> snd x = pk k)"

lemma vf_take_content:
  assumes "vf_content fed pk ob p" "vf_take_next_packet now nxt p = Inr (APacket k packet stats, p')"
  shows "packet = pk k \<and> vf_content fed pk ob p'"
  using assms(2)
proof (cases rule: vf_take_packet_cases)
  case (config i g rest)
  have m: "g \<in> set (groups p)" "set rest \<subseteq> set (groups p)"
    using config(2) set_drop_subset [of i "groups p"] by auto
  then have g: "group_content fed pk ob g" using assms(1) by (simp add: vf_content_def)
  have "group_content fed pk ob (g\<lparr>config_packet := CSent\<rparr>)" by (rule group_content_sub [OF g]) auto
  moreover have "packet = pk k" using g config(3) by (simp add: group_content_def)
  moreover have "\<forall>x \<in> set rest. group_content fed pk ob x" using m(2) assms(1) by (auto simp: vf_content_def)
  ultimately show ?thesis by (simp add: vf_content_def config(4))
next
  case (datagram i g rest d ds expired g')
  have m: "g \<in> set (groups p)" "set rest \<subseteq> set (groups p)"
    using datagram(2) set_drop_subset [of i "groups p"] by auto
  then have g: "group_content fed pk ob g" using assms(1) by (simp add: vf_content_def)
  have "set (segments g') \<subseteq> set (segments g)"
    using datagram(7) set_drop_subset by (fastforce simp: vf_drop_expired_segments_def Let_def)
  moreover have "set (datagrams g') \<subseteq> set (datagrams g)" "config_packet g' = config_packet g"
    using vf_drop_expired_simps [OF datagram(7)] datagram(4) by auto
  ultimately have "group_content fed pk ob g'" by (intro group_content_sub [OF g]) simp_all
  moreover have "packet = pk k" using g datagram(4-6) by (simp add: group_content_def)
  moreover have "\<forall>x \<in> set rest. group_content fed pk ob x" using m(2) assms(1) by (auto simp: vf_content_def)
  ultimately show ?thesis by (simp add: vf_content_def datagram(8))
qed

lemma vf_drain_content:
  assumes "vf_content fed pk ob (vf_pending s)" "vf_drain ts i s = (os, st)"
  shows "\<exists>s'. st = Running s' \<and> vf_content fed pk ob (vf_pending s') \<and> (\<forall>x \<in> set os. genuine pk x)"
proof -
  have "\<exists>os s'. vf_drain ts i s = (os, Running s') \<and> (vf_content fed pk ob (vf_pending s) \<longrightarrow>
      vf_content fed pk ob (vf_pending s') \<and> (\<forall>x \<in> set os. genuine pk x))"
  proof (rule vf_drain_induct, goal_cases)
    case (1 ts i s a p dl)
    have "p = vf_pending s"
      using 1(1,2) by (cases a) (auto simp: vf_take_next_packet_def Let_def and_then_eq_Inr
          split: next_packet.splits list.splits if_splits prod.splits)
    then show ?case by simp
  next
    case (2 ts i s k packet st p os s')
    show ?case
    proof
      assume "vf_content fed pk ob (vf_pending s)"
      from vf_take_content [OF this 2(1)] 2(2)
      show "vf_content fed pk ob (vf_pending s') \<and> (\<forall>x \<in> set ((Some k, packet) # os). genuine pk x)"
        by (simp add: genuine_def)
    qed
  qed
  then obtain os' s' where "vf_drain ts i s = (os', Running s')"
    "vf_content fed pk ob (vf_pending s')" "\<forall>x \<in> set os'. genuine pk x" using assms(1) by blast
  with assms(2) show ?thesis by (intro exI [of _ s']) auto
qed

section \<open>Messages of a sender\<close>

text \<open>
  A message of a sender that has numbered fewer than 2^31 packets: a codec packet, the
  config packet of some number \<open>k\<close>, or a symbol of the object of number \<open>k\<close>, each with the 32
  low bits of \<open>k\<close> and of its group. The numbers are far from wrapping around, so nothing is
  said about when or in which order messages arrive.
\<close>

definition small :: "u64 \<Rightarrow> bool" where
  "small k \<longleftrightarrow> unat k < 2 ^ 31"

fun vf_authentic ::
  "(u64 \<Rightarrow> u64) \<Rightarrow> (u64 \<Rightarrow> bool) \<Rightarrow> (bytes \<Rightarrow> oti \<Rightarrow> payload_id \<Rightarrow> bytes \<Rightarrow> bool)
     \<Rightarrow> (u64 \<Rightarrow> av_packet) \<Rightarrow> (u64 \<Rightarrow> bytes) \<Rightarrow> vf_msg \<Rightarrow> bool" where
  "vf_authentic grp conf symb pk ob (StreamMsg packet raw_k raw_g) =
     ((\<exists>h. packet = Codec h) \<or>
      (\<exists>k. conf k \<and> small k \<and> small (grp k) \<and> unat raw_k = unat k \<and> unat raw_g = unat (grp k)
           \<and> packet = pk k))"
| "vf_authentic grp conf symb pk ob (DatagramMsg data raw_k raw_g oti pid) =
     (\<exists>k. \<not> conf k \<and> small k \<and> small (grp k) \<and> unat raw_k = unat k \<and> unat raw_g = unat (grp k)
          \<and> symb (ob k) oti pid data)"

fun vf_from_sender ::
  "(u64 \<Rightarrow> u64) \<Rightarrow> (u64 \<Rightarrow> bool) \<Rightarrow> (bytes \<Rightarrow> oti \<Rightarrow> payload_id \<Rightarrow> bytes \<Rightarrow> bool)
     \<Rightarrow> (u64 \<Rightarrow> av_packet) \<Rightarrow> (u64 \<Rightarrow> bytes) \<Rightarrow> vf_msg event \<Rightarrow> 'd vf_state \<Rightarrow> bool" where
  "vf_from_sender grp conf symb pk ob (ts, Msg m) s = vf_authentic grp conf symb pk ob m"
| "vf_from_sender grp conf symb pk ob (ts, MsgErr e) s = (\<not> panics e)"
| "vf_from_sender grp conf symb pk ob ev s = True"

lemma small_numbered:
  "small k \<Longrightarrow> small (newest_seq sq) \<Longrightarrow> unat raw = unat k \<Longrightarrow> numbered sq raw k"
  by (simp add: small_def numbered_def)

lemma small_newest:
  assumes "small k" "small (newest_seq sq)" "unat raw = unat k"
  shows "small (newest_seq (snd (seq_u32 sq raw)))"
proof -
  have "unat (ucast raw :: u64) = unat k mod 2 ^ 32"
    using assms unsigned_less [of raw, where 'a = nat]
    by (simp add: small_def unsigned_ucast_eq take_bit_nat_eq_self)
  then have "unat (newest_seq (snd (seq_u32 sq raw))) = max (unat (newest_seq sq)) (unat k)"
    using sequencer_seq_exact [of 32 sq "unat k" "ucast raw"] assms by (simp add: seq_u32_def small_def)
  with assms show ?thesis by (simp add: small_def)
qed

definition vf_einv ::
  "'d raptorq \<Rightarrow> (oti \<Rightarrow> 'd \<Rightarrow> bool) \<Rightarrow> (u64 \<Rightarrow> u64) \<Rightarrow> (u64 \<Rightarrow> bool)
     \<Rightarrow> (bytes \<Rightarrow> oti \<Rightarrow> payload_id \<Rightarrow> bytes \<Rightarrow> bool) \<Rightarrow> (bytes \<Rightarrow> oti \<Rightarrow> 'd \<Rightarrow> bool)
     \<Rightarrow> (u64 \<Rightarrow> av_packet) \<Rightarrow> (u64 \<Rightarrow> bytes) \<Rightarrow> 'd vf_state \<Rightarrow> bool" where
  "vf_einv rq good grp conf symb fed pk ob s \<longleftrightarrow>
     vf_oinv rq good grp conf s \<and> vf_content fed pk ob (vf_pending s)
     \<and> small (newest_seq (vf_kseq s)) \<and> small (newest_seq (vf_gseq s))
     \<and> codec_faithful rq symb fed
     \<and> (\<forall>k q. \<not> conf k \<and> media_packet (ob k) = Inr q \<longrightarrow> q = pk k)"

lemma vf_from_sender_lawful:
  assumes "vf_einv rq good grp conf symb fed pk ob s" "vf_from_sender grp conf symb pk ob ev s"
  shows "vf_lawful grp conf ev s"
proof -
  obtain ts w where ev: "ev = (ts, w)" by (cases ev)
  have n: "small (newest_seq (vf_kseq s))" "small (newest_seq (vf_gseq s))"
    using assms(1) by (auto simp: vf_einv_def)
  show ?thesis
  proof (cases w)
    case (Msg m)
    have "vf_follows grp conf s (Msg m)"
      using assms(2) ev Msg small_numbered [OF _ n(1)] small_numbered [OF _ n(2)]
      by (cases m) (simp_all, blast+)
    then show ?thesis using ev Msg by (simp add: vf_lawful_def errors_are_errors_def)
  qed (use assms(2) ev in \<open>auto simp: vf_lawful_def errors_are_errors_def\<close>)
qed

text \<open>What a step owes: genuine output, and in the next state pending packets as they were sent.\<close>

definition vf_keeps_content ::
  "(bytes \<Rightarrow> oti \<Rightarrow> 'd \<Rightarrow> bool) \<Rightarrow> (u64 \<Rightarrow> av_packet) \<Rightarrow> (u64 \<Rightarrow> bytes) \<Rightarrow> emission list
     \<Rightarrow> 'd vf_state status \<Rightarrow> bool" where
  "vf_keeps_content fed pk ob os st \<longleftrightarrow>
     (\<forall>x \<in> set os. genuine pk x)
     \<and> (\<forall>s'. st = Running s' \<longrightarrow> vf_content fed pk ob (vf_pending s')
              \<and> small (newest_seq (vf_kseq s')) \<and> small (newest_seq (vf_gseq s')))"

lemma vf_drain_seqs:
  assumes "vf_drain ts i s = (os, Running s')"
  shows "vf_kseq s' = vf_kseq s \<and> vf_gseq s' = vf_gseq s"
proof -
  have "\<exists>os s'. vf_drain ts i s = (os, Running s') \<and> vf_kseq s' = vf_kseq s \<and> vf_gseq s' = vf_gseq s"
    by (rule vf_drain_induct) auto
  with assms show ?thesis by auto
qed

lemma vf_drain_keeps_content:
  assumes "vf_content fed pk ob (vf_pending s)" "small (newest_seq (vf_kseq s))" "small (newest_seq (vf_gseq s))"
    and "vf_drain ts i s = (os, st)"
  shows "vf_keeps_content fed pk ob os st"
proof -
  obtain s' where s': "st = Running s'" "vf_content fed pk ob (vf_pending s')" "\<forall>x \<in> set os. genuine pk x"
    using vf_drain_content [OF assms(1,4)] by blast
  have "vf_kseq s' = vf_kseq s" "vf_gseq s' = vf_gseq s" using vf_drain_seqs assms(4) s'(1) by blast+
  with s' assms(2,3) show ?thesis by (simp add: vf_keeps_content_def)
qed

lemma vf_keeps_content_simps [simp]:
  "vf_keeps_content fed pk ob [] Finished" "vf_keeps_content fed pk ob [] (Failed e)"
  by (simp_all add: vf_keeps_content_def)

lemma vf_idle_keeps_content:
  "vf_content fed pk ob (vf_pending s) \<Longrightarrow> small (newest_seq (vf_kseq s)) \<Longrightarrow> small (newest_seq (vf_gseq s))
     \<Longrightarrow> vf_keeps_content fed pk ob [] (Running s)"
  by (simp add: vf_keeps_content_def)

lemma vf_einvD:
  assumes "vf_einv rq good grp conf symb fed pk ob s"
  shows "decoder_ok rq good" "vf_inv rq good (vf_pending s)" "vf_oinv rq good grp conf s"
    "vf_content fed pk ob (vf_pending s)" "codec_faithful rq symb fed"
    "small (newest_seq (vf_kseq s))" "small (newest_seq (vf_gseq s))"
    "\<not> conf k \<Longrightarrow> \<forall>q. media_packet (ob k) = Inr q \<longrightarrow> q = pk k"
  using assms by (auto simp: vf_einv_def vf_oinv_def vf_sinv_def)

lemma vf_small_sequenced:
  assumes "vf_einv rq good grp conf symb fed pk ob s" "small k" "small (grp k)"
    "unat raw_k = unat k" "unat raw_g = unat (grp k)"
  shows "vf_unroll_k raw_k s = k" "vf_unroll_g raw_g s = grp k"
    "small (newest_seq (vf_kseq (vf_sequenced raw_k raw_g s)))"
    "small (newest_seq (vf_gseq (vf_sequenced raw_k raw_g s)))"
proof -
  note e = vf_einvD [OF assms(1)]
  have n: "numbered (vf_kseq s) raw_k k" "numbered (vf_gseq s) raw_g (grp k)"
    using small_numbered assms e(6,7) by blast+
  show "vf_unroll_k raw_k s = k" "vf_unroll_g raw_g s = grp k"
    using vf_sequenced_oinv(2,3) [OF e(3) n] .
  show "small (newest_seq (vf_kseq (vf_sequenced raw_k raw_g s)))"
    "small (newest_seq (vf_gseq (vf_sequenced raw_k raw_g s)))"
    using small_newest [OF assms(2) e(6) assms(4)] small_newest [OF assms(3) e(7) assms(5)]
    by (simp_all add: vf_sequenced_def)
qed

lemma vf_datagram_content:
  assumes "vf_einv rq good grp conf symb fed pk ob s"
    and "vf_authentic grp conf symb pk ob (DatagramMsg data raw_k raw_g oti pid)"
    and "snd ev = Msg (DatagramMsg data raw_k raw_g oti pid)" "vf_step rq ev s = (os, st)"
  shows "vf_keeps_content fed pk ob os st"
proof -
  note e = vf_einvD [OF assms(1)]
  obtain k where k: "\<not> conf k" "small k" "small (grp k)" "unat raw_k = unat k" "unat raw_g = unat (grp k)"
    "symb (ob k) oti pid data" using assms(2) by auto
  note u = vf_small_sequenced [OF assms(1) k(2-5)]
  note step = vf_step_datagram [OF assms(3), of rq s, unfolded u(1,2)]
  show ?thesis
  proof (cases "k < vf_next s")
    case True
    with assms(4) step have "os = []" "st = Running (vf_sequenced raw_k raw_g s)" by simp_all
    with vf_idle_keeps_content [of fed pk ob "vf_sequenced raw_k raw_g s"] u(3,4) e(4) show ?thesis by simp
  next
    case False
    show ?thesis
    proof (cases "vf_insert_datagram rq (fst ev 0) (grp k) k oti pid data (vf_pending s)")
      case (Inl f)
      with False assms(4) step have "os = []" "st = Failed f" by simp_all
      then show ?thesis by simp
    next
      case (Inr p)
      have "vf_content fed pk ob p"
        using vf_insert_datagram_content [OF e(1,2,5,4) Inr k(6) e(8) [OF k(1)]] .
      with vf_drain_keeps_content [of fed pk ob "(vf_sequenced raw_k raw_g s)\<lparr>vf_pending := p\<rparr>" "fst ev" 1 os st]
        Inr False assms(4) step u(3,4) show ?thesis by simp
    qed
  qed
qed

lemma vf_stream_content:
  assumes "vf_einv rq good grp conf symb fed pk ob s"
    and "vf_authentic grp conf symb pk ob (StreamMsg packet raw_k raw_g)" "\<forall>h. packet \<noteq> Codec h"
    and "snd ev = Msg (StreamMsg packet raw_k raw_g)" "vf_step rq ev s = (os, st)"
  shows "vf_keeps_content fed pk ob os st"
proof -
  note e = vf_einvD [OF assms(1)]
  obtain k where k: "small k" "small (grp k)" "unat raw_k = unat k" "unat raw_g = unat (grp k)"
    "packet = pk k" using assms(2,3) by auto
  note u = vf_small_sequenced [OF assms(1) k(1-4)]
  note step = vf_step_stream [OF assms(4,3), of rq s, unfolded u(1,2)]
  show ?thesis
  proof (cases "vf_next s \<le> k")
    case False
    with vf_drain_keeps_content [of fed pk ob "vf_sequenced raw_k raw_g s" "fst ev" 1 os st]
      assms(5) step u(3,4) e(4) show ?thesis by simp
  next
    case True
    show ?thesis
    proof (cases "vf_insert_stream_packet (fst ev 0) (grp k) k packet (vf_pending s)")
      case (Inl f)
      with True assms(5) step have "os = []" "st = Failed f" by simp_all
      then show ?thesis by simp
    next
      case (Inr p)
      have "vf_content fed pk ob p" using vf_insert_stream_content [OF e(2,4) Inr k(5)] .
      with vf_drain_keeps_content [of fed pk ob "(vf_sequenced raw_k raw_g s)\<lparr>vf_pending := p\<rparr>" "fst ev" 1 os st]
        Inr True assms(5) step u(3,4) show ?thesis by simp
    qed
  qed
qed

lemma vf_step_content:
  assumes "vf_einv rq good grp conf symb fed pk ob s" "vf_from_sender grp conf symb pk ob ev s"
    and "vf_step rq ev s = (os, st)"
  shows "vf_keeps_content fed pk ob os st"
proof -
  note e = vf_einvD [OF assms(1)]
  obtain ts w where ev: "ev = (ts, w)" by (cases ev)
  show ?thesis
  proof (cases w)
    case (Msg m)
    show ?thesis
    proof (cases m)
      case (StreamMsg packet raw_k raw_g)
      show ?thesis
      proof (cases "\<exists>h. packet = Codec h")
        case True
        with assms(3) ev Msg StreamMsg e(4,6,7) show ?thesis
          by (auto simp: vf_keeps_content_def genuine_def)
      next
        case False
        with vf_stream_content [OF assms(1) _ _ _ assms(3)] assms(2) ev Msg StreamMsg show ?thesis by simp
      qed
    next
      case (DatagramMsg data raw_k raw_g oti pid)
      with vf_datagram_content [OF assms(1) _ _ assms(3)] assms(2) ev Msg show ?thesis by simp
    qed
  next
    case Timer
    then have "(os, st) = ([], Running s) \<or> vf_drain ts 1 s = (os, st)"
      using assms(3) ev by (simp split: option.splits if_splits)
    with vf_idle_keeps_content [OF e(4,6,7)] vf_drain_keeps_content [OF e(4,6,7)] show ?thesis by auto
  qed (use assms(3) ev in auto)
qed

interpretation vf_con: emitting_receiver "vf_step rq" "vf_einv rq good grp conf symb fed pk ob"
  "vf_from_sender grp conf symb pk ob" "genuine pk" for rq good grp conf symb fed pk ob
proof (standard, goal_cases)
  case (1 s e os s')
  have "vf_oinv rq good grp conf s'"
    using vf_step_order [OF vf_einvD(3) [OF 1(1)] vf_from_sender_lawful [OF 1(1,2)] 1(3)]
    by (auto simp: vf_keeps_order_def)
  moreover have "vf_keeps_content fed pk ob os (Running s')" by (rule vf_step_content [OF 1])
  ultimately show ?case using 1(1) by (simp add: vf_einv_def vf_keeps_content_def)
next
  case (2 s e os f)
  from vf_ord.step_no_panic [OF vf_einvD(3) [OF 2(1)] vf_from_sender_lawful [OF 2(1,2)] 2(3)]
  show ?case .
next
  case (3 s e os st x)
  from vf_step_content [OF 3(1-3)] 3(4) show ?case by (simp add: vf_keeps_content_def)
qed

end
