(* ===== verification/Sending.thy ===== *)
theory Sending
  imports VideoFec_Send
begin

text \<open>
  What the video senders put on the wire. They share \<open>start\<close> and \<open>send\<close> and differ in how a frame
  becomes datagrams; the locale \<open>datagram_sender\<close> states what that step owes, and gives for a whole
  list of packets the bytes of the stream and the origin of every datagram.
\<close>

section \<open>What a list of packets puts on the wire\<close>

fun is_media :: "av_packet \<Rightarrow> bool" where
  "is_media (Media h payload) = True"
| "is_media p = False"

fun is_conf :: "av_packet \<Rightarrow> bool" where
  "is_conf (Media h payload) = is_config h"
| "is_conf p = False"

text \<open>The records of the stream and the objects of the datagrams, with their wire numbers.\<close>

fun vf_records :: "u32 \<Rightarrow> u32 \<Rightarrow> av_packet list \<Rightarrow> (u32 \<times> u32 \<times> av_packet) list" where
  "vf_records k g [] = []"
| "vf_records k g (Media h payload # ps) =
     (if is_config h then (k, g + 1, Media h payload) # vf_records (k + 1) (g + 1) ps
      else vf_records (k + 1) g ps)"
| "vf_records k g (p # ps) = (0, 0, p) # vf_records k g ps"

fun vf_sent_objects :: "u32 \<Rightarrow> u32 \<Rightarrow> av_packet list \<Rightarrow> (u32 \<times> u32 \<times> av_packet) list" where
  "vf_sent_objects k g [] = []"
| "vf_sent_objects k g (Media h payload # ps) =
     (if is_config h then vf_sent_objects (k + 1) (g + 1) ps
      else (k, g, Media h payload) # vf_sent_objects (k + 1) g ps)"
| "vf_sent_objects k g (p # ps) = vf_sent_objects k g ps"

definition vf_record_bytes :: "u32 \<times> u32 \<times> av_packet \<Rightarrow> bytes" where
  "vf_record_bytes r = (case r of (k, g, p) \<Rightarrow> put_u32 k @ put_u32 g @ av_enc p)"

text \<open>\<open>confs n ms\<close>: the configs among the first \<open>n\<close> media packets.\<close>

definition confs :: "nat \<Rightarrow> av_packet list \<Rightarrow> nat" where
  "confs n ms = length (filter is_conf (take n ms))"

lemma confs_Cons: "confs (Suc n) (p # ms) = (if is_conf p then Suc (confs n ms) else confs n ms)"
  by (simp add: confs_def)

lemma vf_records_index:
  assumes "(a, b, p) \<in> set (vf_records k g ps)"
  shows "\<not> is_media p \<or> (\<exists>i < length (filter is_media ps). filter is_media ps ! i = p \<and> is_conf p
           \<and> a = k + of_nat i \<and> b = g + of_nat (confs (Suc i) (filter is_media ps)))"
  using assms
proof (induction k g ps rule: vf_records.induct)
  case (2 k g h payload ps)
  let ?ms = "filter is_media ps"
  have shift: ?case if "\<exists>i < length ?ms. ?ms ! i = p \<and> is_conf p \<and> a = k + 1 + of_nat i
      \<and> b = g + (if is_config h then 1 else 0) + of_nat (confs (Suc i) ?ms)"
  proof -
    from that obtain i where "i < length ?ms" "?ms ! i = p" "is_conf p" "a = k + 1 + of_nat i"
      "b = g + (if is_config h then 1 else 0) + of_nat (confs (Suc i) ?ms)" by blast
    then show ?thesis by (intro disjI2 exI [of _ "Suc i"]) (simp add: confs_Cons)
  qed
  show ?case
  proof (cases "is_config h")
    case True
    show ?thesis
    proof (cases "(a, b, p) = (k, g + 1, Media h payload)")
      case eq: True
      then show ?thesis using True by (intro disjI2 exI [of _ 0]) (simp add: confs_def)
    next
      case False
      with "2.prems" True have "(a, b, p) \<in> set (vf_records (k + 1) (g + 1) ps)" by auto
      from "2.IH"(1) [OF True this] show ?thesis using shift by (simp only: True if_True) blast
    qed
  next
    case False
    with "2.prems" have "(a, b, p) \<in> set (vf_records (k + 1) g ps)" by simp
    from "2.IH"(2) [OF False this] show ?thesis using shift by (simp only: False if_False add_0_right) blast
  qed
qed auto

lemma vf_sent_objects_index:
  assumes "(a, b, p) \<in> set (vf_sent_objects k g ps)"
  shows "\<exists>i < length (filter is_media ps). filter is_media ps ! i = p \<and> is_media p \<and> \<not> is_conf p
           \<and> a = k + of_nat i \<and> b = g + of_nat (confs (Suc i) (filter is_media ps))"
  using assms
proof (induction k g ps rule: vf_sent_objects.induct)
  case (2 k g h payload ps)
  let ?ms = "filter is_media ps"
  have shift: ?case if "\<exists>i < length ?ms. ?ms ! i = p \<and> is_media p \<and> \<not> is_conf p \<and> a = k + 1 + of_nat i
      \<and> b = g + (if is_config h then 1 else 0) + of_nat (confs (Suc i) ?ms)"
  proof -
    from that obtain i where "i < length ?ms" "?ms ! i = p" "is_media p" "\<not> is_conf p" "a = k + 1 + of_nat i"
      "b = g + (if is_config h then 1 else 0) + of_nat (confs (Suc i) ?ms)" by blast
    then show ?thesis by (intro exI [of _ "Suc i"]) (simp add: confs_Cons)
  qed
  show ?case
  proof (cases "is_config h")
    case True
    with "2.prems" have "(a, b, p) \<in> set (vf_sent_objects (k + 1) (g + 1) ps)" by simp
    from "2.IH"(1) [OF True this] show ?thesis using shift by (simp only: True if_True)
  next
    case False
    show ?thesis
    proof (cases "(a, b, p) = (k, g, Media h payload)")
      case eq: True
      then show ?thesis using False by (intro exI [of _ 0]) (simp add: confs_def)
    next
      case neq: False
      with "2.prems" False have "(a, b, p) \<in> set (vf_sent_objects (k + 1) g ps)" by auto
      from "2.IH"(2) [OF False this] show ?thesis using shift by (simp only: False if_False add_0_right)
    qed
  qed
qed auto

section \<open>What the sender writes\<close>

lemma put_u64_zero: "put_u64 0 = put_u32 0 @ put_u32 0"
  by (simp add: put_u64_def put_u32_def be_nat_0 replicate_add [symmetric])

lemma vf_write_stream_ok:
  assumes "vf_write_stream buf s = (Inr u, s')"
  shows "wout (vs_stream s') = wout (vs_stream s) @ buf \<and> vs_channel s' = vs_channel s
       \<and> vs_kypacket_seq s' = vs_kypacket_seq s \<and> vs_group_seq s' = vs_group_seq s"
  using assms
  by (auto simp: vf_write_stream_def flush_def write_all_def then_write_def split: option.splits if_splits)

text \<open>The endpoint id and the largest datagram: what does not change while datagrams are sent.\<close>

definition sc_limits :: "send_channel \<Rightarrow> u16 \<times> nat option" where
  "sc_limits c = (sc_endpoint c, sc_max_datagram c)"

lemma send_datagram_limits: "sc_limits (snd (send_datagram dg c)) = sc_limits c"
  by (auto simp: send_datagram_def sc_limits_def split: option.splits nat.splits)

lemma send_datagram_list_limits: "sc_limits (snd (send_datagram_list dgs c)) = sc_limits c"
proof (induction dgs arbitrary: c)
  case (Cons dg dgs)
  then show ?case using send_datagram_limits [of dg c] by (auto split: prod.splits sum.splits)
qed simp

text \<open>One accepted packet: what it adds to the stream and to the datagrams.\<close>

definition vf_sent_one ::
  "(u16 \<times> nat option \<Rightarrow> u32 \<times> u32 \<times> av_packet \<Rightarrow> bytes \<Rightarrow> bool) \<Rightarrow> av_packet list \<Rightarrow> vf_sender \<Rightarrow> vf_sender \<Rightarrow> bool" where
  "vf_sent_one sent_for ps s s' \<longleftrightarrow>
     wout (vs_stream s') = wout (vs_stream s)
       @ concat (map vf_record_bytes (vf_records (vs_kypacket_seq s) (vs_group_seq s) ps))
     \<and> sc_limits (vs_channel s') = sc_limits (vs_channel s)
     \<and> (\<forall>dg \<in> set (sc_sent (vs_channel s')). dg \<in> set (sc_sent (vs_channel s)) \<or>
          (\<exists>x \<in> set (vf_sent_objects (vs_kypacket_seq s) (vs_group_seq s) ps).
             sent_for (sc_limits (vs_channel s)) x dg))"

lemma vf_records_Cons:
  "\<forall>h. p \<noteq> Hole h \<Longrightarrow> vf_records k g (p # ps) = vf_records k g [p]
     @ vf_records (k + (if is_media p then 1 else 0)) (g + (if is_conf p then 1 else 0)) ps"
  "vf_sent_objects k g (p # ps) = vf_sent_objects k g [p]
     @ vf_sent_objects (k + (if is_media p then 1 else 0)) (g + (if is_conf p then 1 else 0)) ps"
  by (cases p; simp)+

section \<open>Senders that differ in their datagrams\<close>

text \<open>
  The contract of \<open>send_datagrams\<close>: it leaves the stream and the numbers alone, and every datagram
  it sends is one \<open>sent_for\<close> the packet with its numbers.
\<close>

locale datagram_sender =
  fixes sd :: "media_packet_header \<Rightarrow> bytes \<Rightarrow> vf_sender \<Rightarrow> unit result \<times> vf_sender"
    and sent_for :: "u16 \<times> nat option \<Rightarrow> u32 \<times> u32 \<times> av_packet \<Rightarrow> bytes \<Rightarrow> bool"
  assumes sd_ok: "sd h payload s = (Inr u, s') \<Longrightarrow>
      vs_stream s' = vs_stream s \<and> vs_kypacket_seq s' = vs_kypacket_seq s \<and> vs_group_seq s' = vs_group_seq s
      \<and> sc_limits (vs_channel s') = sc_limits (vs_channel s)
      \<and> (\<forall>dg \<in> set (sc_sent (vs_channel s')). dg \<in> set (sc_sent (vs_channel s)) \<or>
           sent_for (sc_limits (vs_channel s)) (vs_kypacket_seq s, vs_group_seq s, Media h payload) dg)"
begin

lemma send_ok:
  assumes "vf_send sd p s = (Inr u, s')"
  shows "vf_sent_one sent_for [p] s s' \<and> vs_kypacket_seq s' = vs_kypacket_seq s + (if is_media p then 1 else 0)
       \<and> vs_group_seq s' = vs_group_seq s + (if is_conf p then 1 else 0) \<and> (\<forall>h. p \<noteq> Hole h)"
proof (cases p)
  case (Codec h)
  with assms have "vf_write_stream (put_u64 0 @ av_enc p) s = (Inr u, s')"
    by (simp add: vf_send_def codec_serialize_bytes)
  from vf_write_stream_ok [OF this] Codec show ?thesis
    by (simp add: vf_sent_one_def vf_record_bytes_def put_u64_zero)
next
  case (Media h payload)
  show ?thesis
  proof (cases "is_config h")
    case True
    let ?s1 = "s\<lparr>vs_group_seq := vs_group_seq s + 1\<rparr>"
    obtain s2 where w: "vf_write_stream (put_u32 (vs_kypacket_seq s) @ put_u32 (vs_group_seq s + 1) @ av_enc p) ?s1
        = (Inr (), s2)" "s' = s2\<lparr>vs_kypacket_seq := vs_kypacket_seq s2 + 1\<rparr>"
      using assms Media True by (auto simp: vf_send_def Let_def split: sum.splits prod.splits)
    from vf_write_stream_ok [OF w(1)] w(2) Media True show ?thesis
      by (simp add: vf_sent_one_def vf_record_bytes_def)
  next
    case False
    obtain s1 where w: "sd h payload s = (Inr (), s1)"
      "s' = s1\<lparr>vs_kypacket_seq := vs_kypacket_seq s1 + 1\<rparr>"
      using assms Media False by (auto simp: vf_send_def split: sum.splits prod.splits)
    from sd_ok [OF w(1)] w(2) Media False show ?thesis by (simp add: vf_sent_one_def)
  qed
qed (use assms in \<open>simp add: vf_send_def\<close>)

lemma send_all_ok:
  "vf_send_all sd ps s = (Inr (), s') \<Longrightarrow> vf_sent_one sent_for ps s s' \<and> (\<forall>h. Hole h \<notin> set ps)"
proof (induction ps arbitrary: s)
  case (Cons p ps)
  obtain u s1 where p: "vf_send sd p s = (Inr u, s1)"
    "vf_send_all sd ps s1 = (Inr (), s')"
    using Cons.prems by (auto split: sum.splits prod.splits)
  note one = send_ok [OF p(1)] and rest = Cons.IH [OF p(2)]
  have np: "\<forall>h. p \<noteq> Hole h" using one by blast
  show ?case
  proof (intro conjI)
    note r = vf_records_Cons(1) [OF np, of "vs_kypacket_seq s" "vs_group_seq s" ps]
      vf_records_Cons(2) [of "vs_kypacket_seq s" "vs_group_seq s" p ps]
    have "vs_kypacket_seq s1 = vs_kypacket_seq s + (if is_media p then 1 else 0)"
      "vs_group_seq s1 = vs_group_seq s + (if is_conf p then 1 else 0)" using one by blast+
    note r' = r [folded this]
    have a: "vf_sent_one sent_for [p] s s1" "vf_sent_one sent_for ps s1 s'" using one rest by blast+
    show "vf_sent_one sent_for (p # ps) s s'"
      using a unfolding vf_sent_one_def r'(1) r'(2) map_append concat_append set_append by fastforce
    show "\<forall>h. Hole h \<notin> set (p # ps)" using np rest by auto
  qed
qed (simp add: vf_sent_one_def)

text \<open>A sender from its start.\<close>

lemma started_ok:
  assumes "vf_send_start c (Inr new_writer) = Inr s0" "sc_sent c = []" "vf_send_all sd ps s0 = (Inr (), s)"
  shows "drop 2 (wout (vs_stream s)) = concat (map vf_record_bytes (vf_records 0 0 ps))"
    "\<forall>dg \<in> set (sc_sent (vs_channel s)). \<exists>x \<in> set (vf_sent_objects 0 0 ps). sent_for (sc_limits c) x dg"
    "\<forall>h. Hole h \<notin> set ps"
proof -
  have s0: "s0 = \<lparr>vs_channel = c, vs_stream = new_writer\<lparr>wout := put_u16 (sc_endpoint c)\<rparr>,
      vs_kypacket_seq = 0, vs_group_seq = 0\<rparr>"
    using assms(1) by (simp add: vf_send_start_def open_uni_def write_endpoint_id_def new_writer_def flush_def
        write_all_def)
  from send_all_ok [OF assms(3)] assms(2)
  show "drop 2 (wout (vs_stream s)) = concat (map vf_record_bytes (vf_records 0 0 ps))"
    "\<forall>dg \<in> set (sc_sent (vs_channel s)). \<exists>x \<in> set (vf_sent_objects 0 0 ps). sent_for (sc_limits c) x dg"
    "\<forall>h. Hole h \<notin> set ps"
    unfolding vf_sent_one_def s0 by simp_all
qed

end

end
