(* ===== verification/VideoFec_End.thy ===== *)
theory VideoFec_End
  imports VideoFec_Content Sending
begin

text \<open>
  Sender and receiver of the FEC video protocol together: whatever subset of a sender's
  datagrams arrives, in whatever order and at whatever times, the media packets the client
  receives are a subsequence of the media packets that were sent.
\<close>

declare vf_recv_stream_packets.simps [simp del]

section \<open>What the codec promises the sender\<close>

text \<open>
  The wire formats of RFC 6330 (40 bits for the length, 24 for a symbol id) can be read back;
  the encoder describes an object by its length and produces symbols of it.
\<close>

definition wire_ok :: "'d raptorq \<Rightarrow> bool" where
  "wire_ok rq \<longleftrightarrow>
     (\<forall>oti. unat (transfer_length oti) < 2 ^ 40 \<longrightarrow>
        length (oti_serialize rq oti) = 12 \<and> oti_deserialize rq (oti_serialize rq oti) = oti)
     \<and> (\<forall>pid. unat (encoding_symbol_id pid) < 2 ^ 24 \<longrightarrow>
          length (payload_id_serialize rq pid) = 4
          \<and> payload_id_deserialize rq (payload_id_serialize rq pid) = pid)"

definition encoder_ok :: "'d raptorq \<Rightarrow> (bytes \<Rightarrow> oti \<Rightarrow> payload_id \<Rightarrow> bytes \<Rightarrow> bool) \<Rightarrow> bool" where
  "encoder_ok rq symb \<longleftrightarrow>
     (\<forall>data mtu n oti. length data < 2 ^ 40 \<and> oti = oti_with_defaults rq (of_nat (length data)) mtu \<longrightarrow>
        unat (transfer_length oti) = length data
        \<and> (\<forall>pid s. (pid, s) \<in> set (encoded_packets rq data oti n) \<longrightarrow>
             length (payload_id_serialize rq pid) = 4
             \<and> (validate_oti oti MAX_VIDEO_PAYLOAD = Inr () \<longrightarrow>
                  unat (encoding_symbol_id pid) < 2 ^ 24 \<and> symb data oti pid s)))"

section \<open>What the sender writes\<close>

definition vf_sent_for :: "'d raptorq \<Rightarrow> u16 \<times> nat option \<Rightarrow> u32 \<times> u32 \<times> av_packet \<Rightarrow> bytes \<Rightarrow> bool" where
  "vf_sent_for rq e x dg \<longleftrightarrow>
     (\<exists>mtu n pid sym_bytes oti. oti = oti_with_defaults rq (of_nat (length (av_enc (snd (snd x))))) mtu
        \<and> (pid, sym_bytes) \<in> set (encoded_packets rq (av_enc (snd (snd x))) oti n)
        \<and> dg = put_u16 (fst e) @ put_u32 (fst x) @ put_u32 (fst (snd x)) @ oti_serialize rq oti
                @ payload_id_serialize rq pid @ sym_bytes)"

lemma vf_send_datagrams_ok:
  assumes "vf_send_datagrams rq h payload s = (Inr u, s')"
  shows "vs_stream s' = vs_stream s \<and> vs_kypacket_seq s' = vs_kypacket_seq s \<and> vs_group_seq s' = vs_group_seq s
       \<and> sc_limits (vs_channel s') = sc_limits (vs_channel s)
       \<and> (\<forall>dg \<in> set (sc_sent (vs_channel s')). dg \<in> set (sc_sent (vs_channel s)) \<or>
            vf_sent_for rq (sc_limits (vs_channel s)) (vs_kypacket_seq s, vs_group_seq s, Media h payload) dg)"
proof -
  obtain mtu data where o: "vf_object h payload s = Inr (mtu, data)"
    using assms by (auto simp: vf_send_datagrams_def split: sum.splits)
  then have d: "data = av_enc (Media h payload)"
    by (auto simp: vf_object_def and_then_eq_Inr split: option.splits)
  let ?oti = "oti_with_defaults rq (of_nat (length data)) mtu"
  define n where "n = repair_symbols (div_ceil (length data) (unat (symbol_size ?oti)))"
  let ?dgs = "map (vf_datagram rq s ?oti) (encoded_packets rq data ?oti n)"
  have r: "s' = s\<lparr>vs_channel := snd (send_datagram_list ?dgs (vs_channel s))\<rparr>"
    using assms o by (auto simp: vf_send_datagrams_def Let_def vf_send_packets_def n_def split: if_splits prod.splits
        simp: apsnd_def map_prod_def)
  obtain k where k: "sc_sent (vs_channel s') = sc_sent (vs_channel s) @ take k ?dgs"
    using send_datagram_list_prefix [of ?dgs "vs_channel s"] r by auto
  have "vf_sent_for rq (sc_limits (vs_channel s)) (vs_kypacket_seq s, vs_group_seq s, Media h payload) dg"
    if m: "dg \<in> set ?dgs" for dg
  proof -
    obtain q where q: "q \<in> set (encoded_packets rq data ?oti n)" "dg = vf_datagram rq s ?oti q"
      using m unfolding set_map by blast
    obtain pid b where "q = (pid, b)" by (cases q)
    with q have "(pid, b) \<in> set (encoded_packets rq data ?oti n)" "dg = vf_datagram rq s ?oti (pid, b)"
      by simp_all
    then show ?thesis unfolding vf_sent_for_def d [symmetric] snd_conv fst_conv
      by (intro exI [of _ mtu] exI [of _ n] exI [of _ pid] exI [of _ b] exI [of _ ?oti])
         (simp add: vf_datagram_def write_datagram_header_def sc_limits_def)
  qed
  with k r send_datagram_list_limits [of ?dgs "vs_channel s"] show ?thesis
    by (auto dest: in_set_takeD)
qed

interpretation vf_snd: datagram_sender "vf_send_datagrams rq" "vf_sent_for rq" for rq
  by standard (rule vf_send_datagrams_ok)

section \<open>What the receiver reads\<close>

lemma av_enc_media:
  assumes "av_valid p" "is_media p"
  obtains hdr h payload where "av_enc p = hdr @ payload" "length hdr = MEDIA_HEADER" "hdr ! 0 AND 0x80 \<noteq> 0"
    "media_deserialize hdr = Inr h" "p = Media h payload" "length payload = unat (msize h)"
  using assms
proof (cases rule: av_enc_split)
  case (1 hdr h payload)
  with assms(2) obtain m where "h = MediaH m" by (cases h) auto
  with 1 that [of hdr payload m] show thesis
    by (auto simp: av_header_deserialize_def and_then_eq_Inr SERIALIZED_SIZE_def fec_limits split: if_splits)
qed

lemma av_enc_codec:
  assumes "av_valid (Codec h)"
  obtains hdr where "av_enc (Codec h) = hdr" "length hdr = MEDIA_HEADER" "hdr ! 0 AND 0x80 = 0"
    "codec_deserialize hdr = Inr h"
  using assms
proof (cases rule: av_enc_split)
  case (1 hdr h' payload)
  then have "h' = CodecH h" "payload = []" by (cases h'; simp)+
  with 1 that [of hdr] show thesis
    by (auto simp: av_header_deserialize_def and_then_eq_Inr SERIALIZED_SIZE_def fec_limits split: if_splits)
qed

lemma media_packet_enc:
  assumes "av_valid p" "is_media p" "media_packet (av_enc p) = Inr q"
  shows "q = p"
  using assms(1,2)
proof (cases rule: av_enc_media)
  case (1 hdr h payload)
  with assms(3) show ?thesis by (auto simp: media_packet_def and_then_eq_Inr split: if_splits)
qed

lemma read_stream_enc:
  assumes "av_valid p" "\<forall>h. p \<noteq> Hole h" "rbuf r = av_enc p @ rest" "read_stream_packet r m = Inr (q, r')"
  shows "q = p \<and> rbuf r' = rest"
proof (cases "is_media p")
  case True
  with assms(1) show ?thesis
  proof (cases rule: av_enc_media)
    case (1 hdr h payload)
    have "read_exact MEDIA_HEADER r = Inr (hdr, r\<lparr>rbuf := payload @ rest\<rparr>)"
      by (rule read_exact_append) (use 1 assms(3) in simp_all)
    with 1 assms(4) show ?thesis by (auto simp: read_stream_packet_def split: if_splits)
  qed
next
  case False
  with assms(2) obtain h where p: "p = Codec h" by (cases p) auto
  from assms(1) [unfolded p] show ?thesis
  proof (cases rule: av_enc_codec)
    case (1 hdr)
    have "read_exact MEDIA_HEADER r = Inr (hdr, r\<lparr>rbuf := rest\<rparr>)"
      by (rule read_exact_append) (use 1 assms(3) p in simp_all)
    with 1 p assms(4) show ?thesis by (auto simp: read_stream_packet_def split: if_splits)
  qed
qed

lemma vf_read_record:
  assumes "av_valid p" "\<forall>h. p \<noteq> Hole h" "rbuf r = vf_record_bytes (k, g, p) @ rest"
    and "vf_read_stream_msg r = Inr (m, r')"
  shows "m = StreamMsg p k g \<and> rbuf r' = rest"
proof -
  have "read_exact 8 r = Inr (put_u32 k @ put_u32 g, r\<lparr>rbuf := av_enc p @ rest\<rparr>)"
    by (rule read_exact_append) (use assms(3) in \<open>simp_all add: vf_record_bytes_def\<close>)
  moreover from this obtain q where q: "read_stream_packet (r\<lparr>rbuf := av_enc p @ rest\<rparr>) MAX_VIDEO_PAYLOAD = Inr (q, r')"
    "m = StreamMsg q k g"
    using assms(4) by (auto simp: vf_read_stream_msg_def and_then_eq_Inr)
  with read_stream_enc [OF assms(1,2) _ q(1)] show ?thesis by simp
qed

lemma vf_recv_records:
  assumes "\<forall>x \<in> set rs. av_valid (snd (snd x)) \<and> (\<forall>h. snd (snd x) \<noteq> Hole h)"
    and "rbuf r = concat (map vf_record_bytes rs)" "Inr m \<in> set (vf_recv_stream_packets r)"
  shows "\<exists>k g p. (k, g, p) \<in> set rs \<and> m = StreamMsg p k g"
  using assms
proof (induction rs arbitrary: r)
  case Nil
  then have "read_exact 8 r = Inl (end_err ''early eof'' r)" by (simp add: read_exact_def)
  with Nil.prems(3) show ?case by (subst (asm) vf_recv_stream_packets.simps) (simp add: vf_read_stream_msg_def)
next
  case (Cons x rs)
  obtain k g p where x: "x = (k, g, p)" by (cases x) auto
  show ?case
  proof (cases "vf_read_stream_msg r")
    case (Inl e)
    with Cons.prems(3) show ?thesis by (subst (asm) vf_recv_stream_packets.simps) simp
  next
    case (Inr y)
    obtain m0 r' where y: "y = (m0, r')" by (cases y)
    have "m0 = StreamMsg p k g \<and> rbuf r' = concat (map vf_record_bytes rs)"
      by (rule vf_read_record [of p r k g]) (use Cons.prems x Inr y in auto)
    moreover have "m = m0 \<or> Inr m \<in> set (vf_recv_stream_packets r')"
      using Cons.prems(3) Inr y by (subst (asm) vf_recv_stream_packets.simps) auto
    moreover have "\<exists>k g p. (k, g, p) \<in> set rs \<and> m = StreamMsg p k g"
      if "rbuf r' = concat (map vf_record_bytes rs)" "Inr m \<in> set (vf_recv_stream_packets r')"
      using Cons.IH [OF _ that] Cons.prems(1) by simp
    ultimately show ?thesis using x by auto
  qed
qed

text \<open>A stream that breaks early gives a prefix of the messages.\<close>

lemma read_stream_extend:
  assumes "read_stream_packet r m = Inr (p, r')" "rbuf q = rbuf r @ ext"
  shows "read_stream_packet q m = Inr (p, q\<lparr>rbuf := rbuf r' @ ext\<rparr>)"
proof -
  obtain raw r1 where r1: "read_exact MEDIA_HEADER r = Inr (raw, r1)"
    using assms(1) by (cases "read_exact MEDIA_HEADER r") (auto simp: read_stream_packet_def)
  note q1 = read_exact_extend [OF r1 assms(2)]
  show ?thesis
  proof (cases "raw ! 0 AND 0x80 = 0")
    case True
    then obtain h where "take 4 raw \<noteq> [0, 0, 0, 0]" "codec_deserialize raw = Inr h" "p = Codec h" "r' = r1"
      using assms(1) r1 by (cases "codec_deserialize raw") (auto simp: read_stream_packet_def split: if_splits)
    with True q1 show ?thesis by (simp add: read_stream_packet_def)
  next
    case False
    then obtain h where h: "media_deserialize raw = Inr h"
      using assms(1) r1 by (cases "media_deserialize raw") (auto simp: read_stream_packet_def)
    with False have ok: "is_config h" "\<not> min m MAX_CONFIG_PAYLOAD < unat (msize h)"
      using assms(1) r1 by (auto simp: read_stream_packet_def split: if_splits)
    with False h obtain payload where p: "read_exact (unat (msize h)) r1 = Inr (payload, r')" "p = Media h payload"
      using assms(1) r1 by (cases "read_exact (unat (msize h)) r1") (auto simp: read_stream_packet_def simp del: min_less_iff_disj)
    from read_exact_extend [OF p(1), of "q\<lparr>rbuf := rbuf r1 @ ext\<rparr>" ext] False h ok p(2) q1
    show ?thesis by (simp add: read_stream_packet_def del: min_less_iff_disj)
  qed
qed

lemma vf_recv_extend:
  assumes "Inr m \<in> set (vf_recv_stream_packets r)" "rbuf q = rbuf r @ ext"
  shows "Inr m \<in> set (vf_recv_stream_packets q)"
  using assms
proof (induction r arbitrary: q rule: vf_recv_stream_packets.induct)
  case (1 r)
  obtain m0 r' where y: "vf_read_stream_msg r = Inr (m0, r')"
    using "1.prems"(1)
    by (subst (asm) vf_recv_stream_packets.simps) (auto split: sum.splits)
  have or: "m = m0 \<or> Inr m \<in> set (vf_recv_stream_packets r')"
    using "1.prems"(1) y by (subst (asm) vf_recv_stream_packets.simps) auto
  obtain seqs r1 where s1: "read_exact 8 r = Inr (seqs, r1)"
    using y by (cases "read_exact 8 r") (auto simp: vf_read_stream_msg_def)
  with y obtain p where s2: "read_stream_packet r1 MAX_VIDEO_PAYLOAD = Inr (p, r')"
    "m0 = StreamMsg p (get_u32 (take 4 seqs)) (get_u32 (drop 4 seqs))"
    by (cases "read_stream_packet r1 MAX_VIDEO_PAYLOAD") (auto simp: vf_read_stream_msg_def)
  note s = s1 s2
  have "vf_read_stream_msg q = Inr (m0, q\<lparr>rbuf := rbuf r' @ ext\<rparr>)"
    using read_exact_extend [OF s(1) "1.prems"(2)]
      read_stream_extend [OF s(2), of "q\<lparr>rbuf := rbuf r1 @ ext\<rparr>" ext] s(3)
    by (simp add: vf_read_stream_msg_def)
  moreover have "Inr m \<in> set (vf_recv_stream_packets r') \<Longrightarrow>
      Inr m \<in> set (vf_recv_stream_packets (q\<lparr>rbuf := rbuf r' @ ext\<rparr>))"
    by (rule "1.IH" [OF y]) simp_all
  ultimately show ?case using or
    by (subst vf_recv_stream_packets.simps) auto
qed

lemma vf_parse_sent:
  assumes "encoder_ok rq symb" "wire_ok rq" "length (av_enc p) < 2 ^ 40"
    and "vf_sent_for rq e (a, b, p) dg" "vf_parse rq dg = Inr m"
  shows "\<exists>oti pid data. m = DatagramMsg data a b oti pid \<and> symb (av_enc p) oti pid data"
proof -
  obtain mtu n pid data oti where dg: "oti = oti_with_defaults rq (of_nat (length (av_enc p))) mtu"
    "(pid, data) \<in> set (encoded_packets rq (av_enc p) oti n)"
    "dg = put_u16 (fst e) @ put_u32 a @ put_u32 b @ oti_serialize rq oti @ payload_id_serialize rq pid @ data"
    using assms(4) by (auto simp: vf_sent_for_def)
  have enc: "unat (transfer_length oti) = length (av_enc p)" "length (payload_id_serialize rq pid) = 4"
    "validate_oti oti MAX_VIDEO_PAYLOAD = Inr () \<Longrightarrow> unat (encoding_symbol_id pid) < 2 ^ 24 \<and> symb (av_enc p) oti pid data"
    using assms(1,3) dg(1,2) unfolding encoder_ok_def by blast+
  have len: "length (oti_serialize rq oti) = 12" "oti_deserialize rq (oti_serialize rq oti) = oti"
    using assms(2,3) enc(1) unfolding wire_ok_def by auto
  have parts: "take 4 (drop 2 dg) = put_u32 a" "take 4 (drop 6 dg) = put_u32 b"
    "take 12 (drop 10 dg) = oti_serialize rq oti" "take 4 (drop 22 dg) = payload_id_serialize rq pid"
    "drop 26 dg = data"
    using enc(2) len(1) by (simp_all add: dg(3))
  obtain d o' p' where pd: "parse_datagram rq dg 26 MAX_VIDEO_PAYLOAD = Inr (d, o', p')"
    "m = DatagramMsg d a b o' p'"
    using assms(5) parts by (auto simp: vf_parse_def vf_DATAGRAM_HEADER_SIZE_def and_then_eq_Inr)
  then have v: "validate_oti oti MAX_VIDEO_PAYLOAD = Inr ()" "d = data" "o' = oti"
    "p' = payload_id_deserialize rq (payload_id_serialize rq pid)"
    using parts len by (auto simp: parse_datagram_def Let_def and_then_eq_Inr split: if_splits)
  have "payload_id_deserialize rq (payload_id_serialize rq pid) = pid"
    using assms(2) enc(3) [OF v(1)] unfolding wire_ok_def by blast
  with v pd(2) enc(3) [OF v(1)] show ?thesis by blast
qed

lemma av_enc_length: "av_valid p \<Longrightarrow> is_media p \<Longrightarrow> length (av_enc p) < 2 ^ 40"
proof (elim av_enc_media)
  fix hdr h payload
  assume "av_enc p = hdr @ payload" "length hdr = MEDIA_HEADER" "length payload = unat (msize h)"
  moreover have "unat (msize h) < 2 ^ 32" using unsigned_less [of "msize h"] by simp
  ultimately show ?thesis by (simp add: fec_limits)
qed

section \<open>The numbering a sender uses\<close>

definition sent_conf :: "av_packet list \<Rightarrow> u64 \<Rightarrow> bool" where
  "sent_conf ms k \<longleftrightarrow> unat k < length ms \<and> is_conf (ms ! unat k)"

definition sent_grp :: "av_packet list \<Rightarrow> u64 \<Rightarrow> u64" where
  "sent_grp ms k = of_nat (confs (Suc (unat k)) ms)"

definition sent_pk :: "av_packet \<Rightarrow> av_packet list \<Rightarrow> u64 \<Rightarrow> av_packet" where
  "sent_pk dflt ms k = (if unat k < length ms then ms ! unat k else dflt)"

definition sent_ob :: "av_packet list \<Rightarrow> u64 \<Rightarrow> bytes" where
  "sent_ob ms k = (if unat k < length ms then av_enc (ms ! unat k) else [])"

lemma confs_mono: "i \<le> j \<Longrightarrow> confs i ms \<le> confs j ms"
proof -
  assume "i \<le> j"
  then have "take j ms = take i ms @ take (j - i) (drop i ms)" by (metis le_add_diff_inverse take_add)
  then show ?thesis by (simp add: confs_def)
qed

lemma confs_le: "confs n ms \<le> length ms"
  by (metis confs_def le_trans length_filter_le length_take min.cobounded1)

lemma confs_at: "j < length ms \<Longrightarrow> is_conf (ms ! j) \<Longrightarrow> confs (Suc j) ms = Suc (confs j ms)"
  by (simp add: confs_def take_Suc_conv_app_nth)

lemma unat_sent_grp: "length ms < 2 ^ 31 \<Longrightarrow> unat (sent_grp ms k) = confs (Suc (unat k)) ms"
  using confs_le [of "Suc (unat k)" ms] by (simp add: sent_grp_def unsigned_of_nat take_bit_nat_eq_self)

lemma sent_layout:
  assumes "length ms < 2 ^ 31"
  shows "vf_layout (sent_grp ms) (sent_conf ms)"
  unfolding vf_layout_def
proof (intro conjI allI impI)
  fix j k :: u64
  assume "j \<le> k"
  then show "sent_grp ms j \<le> sent_grp ms k"
    using confs_mono [of "Suc (unat j)" "Suc (unat k)" ms] unat_sent_grp [OF assms] by (simp add: word_le_nat_alt)
next
  fix c k :: u64
  assume c: "sent_conf ms c \<and> sent_grp ms c = sent_grp ms k"
  show "c \<le> k"
  proof (rule ccontr)
    assume "\<not> c \<le> k"
    then have "confs (Suc (unat k)) ms \<le> confs (unat c) ms" by (intro confs_mono) (simp add: word_le_nat_alt)
    moreover have "confs (Suc (unat c)) ms = Suc (confs (unat c) ms)" using c confs_at by (simp add: sent_conf_def)
    ultimately show False using c unat_sent_grp [OF assms] by (metis Suc_n_not_le_n)
  qed
qed

text \<open>Packet \<open>i\<close> of the media packets has the wire numbers of the sender.\<close>

lemma sent_numbers:
  assumes "length ms < 2 ^ 31" "i < length ms"
  defines "k \<equiv> of_nat i :: u64"
  shows "unat k = i" "small k" "small (sent_grp ms k)" "unat (of_nat i :: u32) = unat k"
    "unat (of_nat (confs (Suc i) ms) :: u32) = unat (sent_grp ms k)"
proof -
  show i: "unat k = i" using assms by (simp add: k_def unsigned_of_nat take_bit_nat_eq_self)
  have c: "confs (Suc i) ms < 2 ^ 31" using confs_le [of "Suc i" ms] assms(1) by linarith
  show "small k" using i assms by (simp add: small_def)
  show "small (sent_grp ms k)" using c by (simp add: small_def unat_sent_grp [OF assms(1)] i)
  show "unat (of_nat i :: u32) = unat k" using i assms by (simp add: unsigned_of_nat take_bit_nat_eq_self)
  show "unat (of_nat (confs (Suc i) ms) :: u32) = unat (sent_grp ms k)"
    using c by (simp add: unat_sent_grp [OF assms(1)] i unsigned_of_nat take_bit_nat_eq_self)
qed

section \<open>End to end\<close>

text \<open>
  What can wake the receiver: a message read from some prefix of the stream, a datagram that
  was sent, an error, the end, the timer. Datagrams may be lost, repeated and reordered.
\<close>

fun vf_arrives :: "'d raptorq \<Rightarrow> bytes \<Rightarrow> bytes list \<Rightarrow> vf_msg wakeup \<Rightarrow> bool" where
  "vf_arrives rq bs dgs (Msg m) =
     ((\<exists>n e. Inr m \<in> set (vf_recv_stream_packets \<lparr>rbuf = take n bs, rerr = e\<rparr>))
      \<or> (\<exists>dg \<in> set dgs. vf_parse rq dg = Inr m))"
| "vf_arrives rq bs dgs (MsgErr e) = (\<not> panics e)"
| "vf_arrives rq bs dgs w = True"

lemma vf_records_valid:
  assumes "\<forall>p \<in> set ps. av_valid p" "\<forall>h. Hole h \<notin> set ps" "x \<in> set (vf_records k g ps)"
  shows "av_valid (snd (snd x)) \<and> (\<forall>h. snd (snd x) \<noteq> Hole h)"
  using assms by (induction k g ps rule: vf_records.induct) (auto split: if_splits)

lemma vf_arrives_authentic:
  assumes "encoder_ok rq symb" "wire_ok rq" "\<forall>p \<in> set ps. av_valid p" "\<forall>h. Hole h \<notin> set ps"
    and "length ps < 2 ^ 31"
    and "\<forall>dg \<in> set dgs. \<exists>x \<in> set (vf_sent_objects 0 0 ps). vf_sent_for rq e x dg"
    and "vf_arrives rq (concat (map vf_record_bytes (vf_records 0 0 ps))) dgs (Msg m)"
  defines "ms \<equiv> filter is_media ps"
  shows "vf_authentic (sent_grp ms) (sent_conf ms) symb (sent_pk dflt ms) (sent_ob ms) m"
proof -
  let ?bs = "concat (map vf_record_bytes (vf_records 0 0 ps))"
  have short: "length ms < 2 ^ 31" using assms(5) length_filter_le [of is_media ps] unfolding ms_def by linarith
  consider (stream) n e where "Inr m \<in> set (vf_recv_stream_packets \<lparr>rbuf = take n ?bs, rerr = e\<rparr>)"
    | (datagram) dg where "dg \<in> set dgs" "vf_parse rq dg = Inr m" using assms(7) by auto
  then show ?thesis
  proof cases
    case stream
    have all: "Inr m \<in> set (vf_recv_stream_packets \<lparr>rbuf = ?bs, rerr = e\<rparr>)"
      by (rule vf_recv_extend [OF stream, of _ "drop n ?bs"]) simp
    have "\<forall>x \<in> set (vf_records 0 0 ps). av_valid (snd (snd x)) \<and> (\<forall>h. snd (snd x) \<noteq> Hole h)"
      using vf_records_valid [OF assms(3,4)] by blast
    from vf_recv_records [OF this _ all]
    obtain a b p where r: "(a, b, p) \<in> set (vf_records 0 0 ps)" "m = StreamMsg p a b" by auto
    show ?thesis
    proof (cases "is_media p")
      case False
      with vf_records_valid [OF assms(3,4) r(1)] r(2) show ?thesis by (cases p) auto
    next
      case True
      then obtain i where i: "i < length ms" "ms ! i = p" "is_conf p" "a = of_nat i" "b = of_nat (confs (Suc i) ms)"
        using vf_records_index [OF r(1)] unfolding ms_def by auto
      note n = sent_numbers [OF short i(1)]
      have "sent_conf ms (of_nat i)" "p = sent_pk dflt ms (of_nat i)"
        unfolding sent_conf_def sent_pk_def n(1) using i by simp_all
      with n(2-5) r(2) i(4,5) show ?thesis by auto
    qed
  next
    case datagram
    obtain x where "x \<in> set (vf_sent_objects 0 0 ps)" "vf_sent_for rq e x dg"
      using bspec [OF assms(6) datagram(1)] by blast
    moreover obtain a b p where "x = (a, b, p)" by (cases x)
    ultimately have x: "(a, b, p) \<in> set (vf_sent_objects 0 0 ps)" "vf_sent_for rq e (a, b, p) dg" by simp_all
    obtain i where i: "i < length ms" "ms ! i = p" "is_media p" "\<not> is_conf p" "a = of_nat i"
      "b = of_nat (confs (Suc i) ms)" using vf_sent_objects_index [OF x(1)] unfolding ms_def by auto
    note n = sent_numbers [OF short i(1)]
    have "av_valid p" using i(1,2) assms(3) nth_mem [of i ms] unfolding ms_def by auto
    from vf_parse_sent [OF assms(1,2) av_enc_length [OF this i(3)] x(2) datagram(2)]
    obtain oti pid data where "m = DatagramMsg data a b oti pid" "symb (av_enc p) oti pid data" by blast
    moreover have "\<not> sent_conf ms (of_nat i)" "sent_ob ms (of_nat i) = av_enc p"
      unfolding sent_conf_def sent_ob_def n(1) using i by simp_all
    ultimately show ?thesis using n(2-5) i(5,6) by auto
  qed
qed

lemma vf_end_einv:
  assumes "decoder_ok rq good" "codec_faithful rq symb fed" "\<forall>p \<in> set ms. av_valid p \<and> is_media p"
    and "length ms < 2 ^ 31"
  shows "vf_einv rq good (sent_grp ms) (sent_conf ms) symb fed (sent_pk dflt ms) (sent_ob ms) vf_init"
proof -
  have "vf_oinv rq good (sent_grp ms) (sent_conf ms) vf_init"
    using assms(1) sent_layout [OF assms(4)] vf_groups_new_inv [of rq good]
    by (simp add: vf_oinv_def vf_sinv_def vf_init_def vf_placed_def vf_groups_new_def sequencer_new_def)
  moreover have "q = sent_pk dflt ms k" if "media_packet (sent_ob ms k) = Inr q" for k q
  proof (cases "unat k < length ms")
    case True
    with assms(3) have "av_valid (ms ! unat k)" "is_media (ms ! unat k)" by simp_all
    with that True media_packet_enc show ?thesis by (simp add: sent_ob_def sent_pk_def)
  qed (use that in \<open>simp add: sent_ob_def media_packet_def fec_limits\<close>)
  ultimately show ?thesis using assms(2)
    by (simp add: vf_einv_def vf_init_def vf_groups_new_def vf_content_def sequencer_new_def small_def)
qed

lemma output_packets:
  assumes "\<forall>x \<in> set os. \<forall>k. fst x = Some k \<longrightarrow> snd x = f k"
  shows "map snd (filter (\<lambda>x. fst x \<noteq> None) os) = map f (output_seqs os)"
  using assms by (induction os) (auto simp: output_seqs_def map_filter_def)

lemma vf_authentic_subseq:
  assumes "decoder_ok rq good" "codec_faithful rq symb fed" "\<forall>p \<in> set ms. av_valid p \<and> is_media p"
    and "length ms < 2 ^ 31"
    and ok: "\<And>dflt. run_ok (vf_from_sender (sent_grp ms) (sent_conf ms) symb (sent_pk dflt ms) (sent_ob ms))
      (vf_step rq) es vf_init"
    and run: "run (vf_step rq) es vf_init = (os, st)"
  shows "subseq (map snd (filter (\<lambda>x. fst x \<noteq> None) os)) ms \<and> (\<forall>f. st = Failed f \<longrightarrow> \<not> panics f)"
proof -
  note e = vf_end_einv [OF assms(1-4)]
  have gen: "genuine (sent_pk dflt ms) x" if "x \<in> set os" for x dflt
    by (rule vf_con.run_emits [OF e ok run that])
  have inside: "unat k < length ms \<and> snd x = ms ! unat k" if "x \<in> set os" "fst x = Some k" for x k
    using gen [OF that(1), of "Codec undefined"] gen [OF that(1), of "Hole undefined"] that(2)
    by (auto simp: genuine_def sent_pk_def split: if_splits)
  have "run_ok (vf_lawful (sent_grp ms) (sent_conf ms)) (vf_step rq) es vf_init"
    by (rule vf_con.run_ok_strengthen [OF e ok]) (rule vf_from_sender_lawful)
  from vf_ord.run_order [OF vf_einvD(3) [OF e] this run]
  have "sorted_wrt (<) (output_seqs os)" by blast
  then have "sorted_wrt (<) (map unat (output_seqs os))"
    unfolding sorted_wrt_map by (rule sorted_wrt_mono_rel [rotated]) (simp add: word_less_nat_alt)
  moreover have "\<forall>n \<in> set (map unat (output_seqs os)). n < length ms"
    using inside by (fastforce simp: output_seqs_def map_filter_def)
  ultimately have "subseq (map ((!) ms) (map unat (output_seqs os))) ms" by (rule subseq_nth)
  moreover have "map snd (filter (\<lambda>x. fst x \<noteq> None) os) = map (\<lambda>k. ms ! unat k) (output_seqs os)"
    using inside by (intro output_packets) blast
  moreover have "\<not> panics f" if "st = Failed f" for f
    using vf_con.run_no_panic [OF e ok] run that by blast
  ultimately show ?thesis by (simp add: comp_def)
qed

text \<open>
  C23: Sender and receiver of the FEC video protocol agree. Whatever part of a sender's datagrams
  arrives, repeated and reordered at will, and however much of its stream, the media packets
  the receiver forwards are a subsequence of the media packets that were sent: nothing is
  invented, altered, duplicated or reordered. The receiver does not panic. The codec is
  asked for what RFC 6330 promises: its wire formats can be read back, and a decoder fed
  symbols of one object returns nothing but that object.
\<close>

theorem vf_end_to_end:
  assumes "decoder_ok rq good" "codec_faithful rq symb fed" "encoder_ok rq symb" "wire_ok rq"
    and "vf_send_start c (Inr new_writer) = Inr s0" "sc_sent c = []"
    and "\<forall>p \<in> set ps. av_valid p" "length ps < 2 ^ 31"
    and "vf_send_all (vf_send_datagrams rq) ps s0 = (Inr (), s)"
    and "\<forall>ev \<in> set es. vf_arrives rq (drop 2 (wout (vs_stream s))) (sc_sent (vs_channel s)) (snd ev)"
    and "run (vf_step rq) es vf_init = (os, st)"
  shows "subseq (map snd (filter (\<lambda>x. fst x \<noteq> None) os)) (filter is_media ps)
       \<and> (\<forall>f. st = Failed f \<longrightarrow> \<not> panics f)"
proof (rule vf_authentic_subseq [OF assms(1,2) _ _ _ assms(11)])
  let ?ms = "filter is_media ps"
  note out = vf_snd.started_ok [OF assms(5,6,9)]
  show "\<forall>p \<in> set ?ms. av_valid p \<and> is_media p" using assms(7) by simp
  show "length ?ms < 2 ^ 31" using assms(8) length_filter_le [of is_media ps] by linarith
  fix dflt
  show "run_ok (vf_from_sender (sent_grp ?ms) (sent_conf ?ms) symb (sent_pk dflt ?ms) (sent_ob ?ms))
      (vf_step rq) es vf_init"
  proof (rule run_ok_all)
    fix ev s' assume "ev \<in> set es"
    then have "vf_arrives rq (concat (map vf_record_bytes (vf_records 0 0 ps))) (sc_sent (vs_channel s)) (snd ev)"
      using assms(10) out(1) by simp
    with vf_arrives_authentic [OF assms(3,4,7) out(3) assms(8) out(2)]
    show "vf_from_sender (sent_grp ?ms) (sent_conf ?ms) symb (sent_pk dflt ?ms) (sent_ob ?ms) ev s'"
      by (cases ev; cases "snd ev") auto
  qed
qed

section \<open>The reference codec keeps the promises\<close>

definition ref_symb :: "bytes \<Rightarrow> oti \<Rightarrow> payload_id \<Rightarrow> bytes \<Rightarrow> bool" where
  "ref_symb data oti pid s \<longleftrightarrow>
     length data < 2 ^ 40 \<and> oti = ref_with_defaults (of_nat (length data)) (symbol_size oti)
     \<and> validate_oti oti MAX_VIDEO_PAYLOAD = Inr () \<and> (pid, s) \<in> set (ref_encoded_packets data oti 0)"

definition ref_fed :: "bytes \<Rightarrow> oti \<Rightarrow> ref_decoder \<Rightarrow> bool" where
  "ref_fed data oti d \<longleftrightarrow> fst d = oti \<and>
     (\<forall>b e s. ((b, e), s) \<in> set (snd d) \<longrightarrow>
        ref_symb data oti \<lparr>source_block_number = b, encoding_symbol_id = e\<rparr> s)"

lemma concat_chunks:
  "concat (map (\<lambda>i. take s (drop (i * s) xs)) [0..<n]) = take (n * s) xs"
proof (induction n)
  case (Suc n)
  have "take (Suc n * s) xs = take (n * s) xs @ take s (drop (n * s) xs)"
    by (simp only: mult_Suc add.commute [of s] take_add)
  with Suc show ?case by simp
qed simp

lemma unat_length: "length (data :: bytes) < 2 ^ 40 \<Longrightarrow> unat (of_nat (length data) :: u64) = length data"
  by (simp add: unsigned_of_nat take_bit_nat_eq_self)

lemma ref_symb_facts:
  assumes "ref_symb data oti pid s"
  defines "n \<equiv> div_ceil (length data) (unat (symbol_size oti))"
  shows "n \<le> 131072" "unat (transfer_length oti) = length data" "0 < unat (symbol_size oti)"
    "ref_keys oti = map (\<lambda>e. (0, of_nat e)) [0..<n]" "length data \<le> n * unat (symbol_size oti)"
proof -
  have o: "oti = ref_with_defaults (of_nat (length data)) (symbol_size oti)" and l: "length data < 2 ^ 40"
    and v: "rfc_oti oti" "oti_symbols oti \<le> 131072"
    using assms(1) by (auto simp: ref_symb_def validate_oti_iff)
  show t: "unat (transfer_length oti) = length data"
    by (subst o) (simp add: ref_with_defaults_def unat_length [OF l])
  then have n: "oti_symbols oti = n" by (simp add: oti_symbols_def n_def)
  with v show "n \<le> 131072" by simp
  show z: "0 < unat (symbol_size oti)" using v(1) by (simp add: rfc_oti_def)
  have "source_blocks oti = 1" by (subst o) (simp add: ref_with_defaults_def)
  then show "ref_keys oti = map (\<lambda>e. (0, of_nat e)) [0..<n]" by (simp add: ref_keys_def ref_partition_def n)
  show "length data \<le> n * unat (symbol_size oti)" unfolding n_def by (rule div_ceil_mult_ge [OF z])
qed

lemma ref_symb_bytes:
  assumes "ref_symb data oti \<lparr>source_block_number = 0, encoding_symbol_id = of_nat e\<rparr> s"
    and "e < div_ceil (length data) (unat (symbol_size oti))"
  shows "s = take (unat (symbol_size oti)) (drop (e * unat (symbol_size oti))
     (data @ replicate (div_ceil (length data) (unat (symbol_size oti)) * unat (symbol_size oti) - length data) 0))"
proof -
  let ?z = "unat (symbol_size oti)" and ?n = "div_ceil (length data) (unat (symbol_size oti))"
  obtain i where i: "i < ?n" "(of_nat e :: u32) = of_nat i"
    "s = take ?z (drop (i * ?z) (data @ replicate (?n * ?z - length data) 0))"
    using assms(1) by (auto simp: ref_symb_def ref_encoded_packets_def Let_def)
  have "e < 2 ^ 32" "i < 2 ^ 32" using assms(2) i(1) ref_symb_facts(1) [OF assms(1)] by simp_all
  then have "e = i" using arg_cong [OF i(2), of unat] by (simp add: unsigned_of_nat take_bit_nat_eq_self)
  with i(3) show ?thesis by simp
qed

lemma ref_codec_faithful: "codec_faithful ref_codec ref_symb ref_fed"
  unfolding codec_faithful_def
proof (intro conjI allI impI; (elim conjE)?)
  fix data oti and d :: ref_decoder assume "decoder_new ref_codec oti = Inr d"
  then show "ref_fed data oti d" by (auto simp: ref_fed_def)
next
  fix data oti pid s res and d d' :: ref_decoder
  assume a: "ref_fed data oti d" "ref_symb data oti pid s" "decoder_decode ref_codec d pid s = Inr (d', res)"
  let ?got = "((source_block_number pid, encoding_symbol_id pid), s) # snd d"
  have d': "fst d = oti" "d' = (oti, ?got)" using a(1,3) by (auto simp: ref_fed_def ref_decode_def Let_def)
  show f: "ref_fed data oti d'" using a(1,2) by (cases pid) (auto simp: ref_fed_def d')
  fix x assume "res = Some x"
  let ?z = "unat (symbol_size oti)" and ?n = "div_ceil (length data) (unat (symbol_size oti))"
  let ?padded = "data @ replicate (?n * ?z - length data) 0"
  note r = ref_symb_facts [OF a(2)]
  have all: "\<forall>k \<in> set (ref_keys oti). map_of ?got k \<noteq> None"
    and x: "x = take (length data) (concat (map (\<lambda>k. the (map_of ?got k)) (ref_keys oti)))"
    using a(3) \<open>res = Some x\<close> d'(1) r(2) by (auto simp: ref_decode_def Let_def list_all_iff split: if_splits)
  have "the (map_of ?got (0, of_nat e)) = take ?z (drop (e * ?z) ?padded)" if e: "e < ?n" for e
  proof -
    obtain b where b: "map_of ?got (0, of_nat e) = Some b" using all e r(4) by fastforce
    from map_of_SomeD [OF b] f have "ref_symb data oti \<lparr>source_block_number = 0, encoding_symbol_id = of_nat e\<rparr> b"
      unfolding ref_fed_def d' snd_conv by blast
    from ref_symb_bytes [OF this e] b show ?thesis by simp
  qed
  then have "map (\<lambda>k. the (map_of ?got k)) (ref_keys oti) = map (\<lambda>i. take ?z (drop (i * ?z) ?padded)) [0..<?n]"
    unfolding r(4) map_map comp_def by (intro map_cong) simp_all
  from x [unfolded this concat_chunks] r(5) show "x = data" by simp
qed

lemma ref_encoder_ok: "encoder_ok ref_codec ref_symb"
  unfolding encoder_ok_def
proof (intro allI impI conjI; (elim conjE)?)
  fix data :: bytes and mtu n oti pid s
  assume a: "length data < 2 ^ 40" "oti = oti_with_defaults ref_codec (of_nat (length data)) mtu"
  show "unat (transfer_length oti) = length data"
    by (simp add: a(2) ref_with_defaults_def unat_length [OF a(1)])
  assume m: "(pid, s) \<in> set (encoded_packets ref_codec data oti n)"
  show "length (payload_id_serialize ref_codec pid) = 4" by (simp add: ref_id_serialize_def)
  assume v: "validate_oti oti MAX_VIDEO_PAYLOAD = Inr ()"
  show sy: "ref_symb data oti pid s"
    using a m v by (simp add: ref_symb_def ref_with_defaults_def ref_encoded_packets_def)
  obtain i where "i < div_ceil (length data) (unat (symbol_size oti))" "encoding_symbol_id pid = of_nat i"
    using m by (auto simp: ref_encoded_packets_def Let_def)
  with ref_symb_facts(1) [OF sy] show "unat (encoding_symbol_id pid) < 2 ^ 24"
    by (simp add: unsigned_of_nat take_bit_nat_eq_self)
qed

lemma ref_wire_ok: "wire_ok ref_codec"
  unfolding wire_ok_def
proof (intro allI impI conjI)
  fix oti :: oti assume "unat (transfer_length oti) < 2 ^ 40"
  then have "nat_be (be_nat 5 (unat (transfer_length oti))) = unat (transfer_length oti)"
    by (simp add: nat_be_be_nat)
  then show "oti_deserialize ref_codec (oti_serialize ref_codec oti) = oti"
    by (simp add: ref_oti_deserialize_def ref_oti_serialize_def nth_append)
next
  fix pid :: payload_id assume "unat (encoding_symbol_id pid) < 2 ^ 24"
  then have "nat_be (be_nat 3 (unat (encoding_symbol_id pid))) = unat (encoding_symbol_id pid)"
    by (simp add: nat_be_be_nat)
  then show "payload_id_deserialize ref_codec (payload_id_serialize ref_codec pid) = pid"
    by (simp add: ref_id_deserialize_def ref_id_serialize_def)
qed (simp_all add: ref_oti_serialize_def ref_id_serialize_def)

section \<open>A sender and a receiver\<close>

definition sample_channel :: send_channel where
  "sample_channel = \<lparr>sc_endpoint = 0, sc_max_datagram = Some 42, sc_sent = [], sc_room = None, sc_error = []\<rparr>"

definition sample_sender :: "vf_sender" where
  "sample_sender = \<lparr>vs_channel = sample_channel, vs_stream = new_writer\<lparr>wout := [0, 0]\<rparr>,
     vs_kypacket_seq = 0, vs_group_seq = 0\<rparr>"

definition sample_sender' :: "vf_sender" where
  "sample_sender' = \<lparr>vs_channel = sample_channel\<lparr>sc_sent := [sample_wire]\<rparr>,
     vs_stream = new_writer\<lparr>wout := [0, 0] @ rbuf sample_stream\<rparr>, vs_kypacket_seq = 2, vs_group_seq = 1\<rparr>"

lemma sample_start: "vf_send_start sample_channel (Inr new_writer) = Inr sample_sender"
  by (simp add: vf_send_start_def open_uni_def write_endpoint_id_def new_writer_def flush_def write_all_def
      sample_sender_def sample_channel_def put_u16_def be_nat_numeral)

lemma sample_send:
  "vf_send_all (vf_send_datagrams ref_codec) [sample_config, sample_media] sample_sender = (Inr (), sample_sender')"
proof -
  let ?s1 = "sample_sender\<lparr>vs_stream := new_writer\<lparr>wout := [0, 0] @ rbuf sample_stream\<rparr>,
    vs_kypacket_seq := 1, vs_group_seq := 1\<rparr>"
  have "vf_send (vf_send_datagrams ref_codec) sample_config sample_sender = (Inr (), ?s1)"
    by (simp add: vf_send_def sample_config_def media_serialize_bytes media_word_def push_bit_eq_mult
        vf_write_stream_def sample_sender_def new_writer_def flush_def write_all_def put_u32_def put_u64_def
        be_nat_numeral sample_stream_def)
  moreover have "vf_send (vf_send_datagrams ref_codec) sample_media ?s1 = (Inr (), sample_sender')"
    by (simp add: vf_send_def sample_media_def media_serialize_bytes media_word_def push_bit_eq_mult
        vf_send_datagrams_def vf_object_def vf_DATAGRAM_HEADER_SIZE_def sample_sender_def sample_sender'_def
        sample_channel_def ref_with_defaults_def ref_encoded_packets_def div_ceil_def vf_send_packets_def
        vf_datagram_def write_datagram_header_def send_datagram_def put_u32_def put_u64_def put_u16_def
        be_nat_numeral replicate_numeral sample_wire_def sample_symbol_def sample_oti_def sample_pid_def)
  ultimately show ?thesis by simp
qed

theorem vf_end_to_end_witness:
  "\<exists>s os st. vf_send_all (vf_send_datagrams ref_codec) [sample_config, sample_media] sample_sender = (Inr (), s)
     \<and> run (vf_step ref_codec) sample_events vf_init = (os, st)
     \<and> map snd os = [sample_config, sample_media]
     \<and> subseq (map snd (filter (\<lambda>x. fst x \<noteq> None) os)) (filter is_media [sample_config, sample_media])"
proof -
  obtain s where r: "run (vf_step ref_codec) sample_events vf_init
       = ([(Some 0, sample_config), (Some 1, sample_media)], Running s)" using sample_run by blast
  have v: "\<forall>p \<in> set [sample_config, sample_media]. av_valid p" by (simp add: sample_config_def sample_media_def)
  have "Inr (StreamMsg sample_config 0 1) \<in> set (vf_recv_stream_packets
      \<lparr>rbuf = take 20 (drop 2 (wout (vs_stream sample_sender'))), rerr = None\<rparr>)"
    using sample_stream_parses by (simp add: sample_sender'_def sample_stream_def)
  then have a: "\<forall>ev \<in> set sample_events. vf_arrives ref_codec (drop 2 (wout (vs_stream sample_sender')))
      (sc_sent (vs_channel sample_sender')) (snd ev)"
    using sample_wire_parses by (auto simp: sample_events_def sample_sender'_def)
  have c: "sc_sent sample_channel = []" "length [sample_config, sample_media] < 2 ^ 31"
    by (simp_all add: sample_channel_def)
  from vf_end_to_end [OF ref_decoder_ok ref_codec_faithful ref_encoder_ok ref_wire_ok sample_start c(1) v c(2)
      sample_send a r] r sample_send show ?thesis by auto
qed

end
