(* ===== verification/GopStream.thy ===== *)
theory GopStream
  imports Packets Channel
begin

text \<open>
  The video protocol that opens one stream per group of pictures
  (\<open>driver/av/video_gopstream.rs\<close>): the sender repeats the current codec and config at the
  start of every stream, the receiver follows the newest stream and forwards each codec and
  config once. Counters of 32 bits wrap around.
\<close>

section \<open>The sender\<close>

record gop_sender =
  gs_endpoint :: u16
  gs_current :: "writer option"
  gs_finished :: "writer list"
  gs_gop_id :: u32
  gs_codec_gen :: u32
  gs_codec :: "codec_packet_header option"
  gs_config_gen :: u32
  gs_config :: "(media_packet_header \<times> bytes) option"

definition gop_send_start :: "u16 \<Rightarrow> gop_sender" where
  "gop_send_start endpoint = \<lparr>gs_endpoint = endpoint, gs_current = None, gs_finished = [], gs_gop_id = 0,
     gs_codec_gen = 0, gs_codec = None, gs_config_gen = 0, gs_config = None\<rparr>"

text \<open>
  A key frame starts a new stream: the three numbers, the codec and the config. The gop id is
  already advanced when the writing fails. The stream it replaces is finished, and an error of
  that is only logged.
\<close>

definition gop_ids :: "u32 \<Rightarrow> u32 \<Rightarrow> u32 \<Rightarrow> bytes" where
  "gop_ids i c f = put_u32 i @ put_u32 c @ put_u32 f"

definition gop_preamble :: "gop_sender \<Rightarrow> bytes result" where
  "gop_preamble s =
     (case (gs_codec s, gs_config s) of
        (Some c, Some (h, payload)) \<Rightarrow>
          and_then (codec_serialize c) (\<lambda>codec_bytes.
          and_then (media_serialize h) (\<lambda>config_bytes.
          Inr (gop_ids (gs_gop_id s) (gs_codec_gen s) (gs_config_gen s) @ codec_bytes @ config_bytes @ payload)))
      | _ \<Rightarrow> Inl (Panic ''called `Option::unwrap()` on a `None` value''))"

definition gop_new_stream :: "writer result \<Rightarrow> gop_sender \<Rightarrow> unit result \<times> gop_sender" where
  "gop_new_stream opened s =
     (case map_err protocol_error_new (open_uni opened (gs_endpoint s)) of
        Inl e \<Rightarrow> (Inl e, s)
      | Inr new_stream \<Rightarrow>
          let s1 = s\<lparr>gs_gop_id := gs_gop_id s + 1\<rparr> in
          (case gop_preamble s of
             Inl e \<Rightarrow> (Inl e, s1)
           | Inr buf \<Rightarrow>
               (case then_write (write_all buf new_stream) flush of
                  (Inl e, _) \<Rightarrow> (Inl (protocol_error_new e), s1)
                | (Inr _, new_stream') \<Rightarrow>
                    (Inr (), s1\<lparr>gs_current := Some new_stream',
                       gs_finished := gs_finished s @ (case gs_current s of None \<Rightarrow> [] | Some old \<Rightarrow> [old])\<rparr>))))"

definition gop_write_media :: "media_packet_header \<Rightarrow> bytes \<Rightarrow> gop_sender \<Rightarrow> unit result \<times> gop_sender" where
  "gop_write_media h payload s =
     (case gs_current s of
        None \<Rightarrow> (Inr (), s)
      | Some stream \<Rightarrow>
          (case media_serialize h of
             Inl e \<Rightarrow> (Inl e, s)
           | Inr hdr \<Rightarrow>
               apsnd (\<lambda>w. s\<lparr>gs_current := Some w\<rparr>) (apfst (map_err protocol_error_new)
                 (then_write (then_write (write_all hdr stream) (write_all payload)) flush))))"

fun gop_send :: "writer result \<Rightarrow> av_packet \<Rightarrow> gop_sender \<Rightarrow> unit result \<times> gop_sender" where
  "gop_send opened (Codec h) s = (Inr (), s\<lparr>gs_codec_gen := gs_codec_gen s + 1, gs_codec := Some h\<rparr>)"
| "gop_send opened (Media h payload) s =
     (if is_config h
      then (Inr (), s\<lparr>gs_config_gen := gs_config_gen s + 1, gs_config := Some (h, payload)\<rparr>)
      else if is_key h
      then (case gop_new_stream opened s of
              (Inl e, s1) \<Rightarrow> (Inl e, s1)
            | (Inr _, s1) \<Rightarrow> gop_write_media h payload s1)
      else gop_write_media h payload s)"
| "gop_send opened (Hole h) s = (Inl (Panic ''Unexpected input hole packet''), s)"

fun gop_send_all :: "av_packet list \<Rightarrow> gop_sender \<Rightarrow> unit result \<times> gop_sender" where
  "gop_send_all [] s = (Inr (), s)"
| "gop_send_all (p # ps) s =
     (case gop_send (Inr new_writer) p s of
        (Inl e, s') \<Rightarrow> (Inl e, s')
      | (Inr _, s') \<Rightarrow> gop_send_all ps s')"

definition gop_written :: "gop_sender \<Rightarrow> bytes list" where
  "gop_written s = map wout (gs_finished s @ (case gs_current s of None \<Rightarrow> [] | Some w \<Rightarrow> [w]))"

section \<open>The receiver\<close>

record gop =
  g_id :: u32
  g_codec_gen :: u32
  g_config_gen :: u32

datatype gop_msg = NewStream reader | StreamIds reader gop | NewPacket av_packet u32

record gop_recv =
  gr_gop :: "gop option"
  gr_last_codec_gen :: u32
  gr_last_config_gen :: u32

definition gop_recv_start :: gop_recv where
  "gop_recv_start = \<lparr>gr_gop = None, gr_last_codec_gen = 0, gr_last_config_gen = 0\<rparr>"

definition read_stream_ids :: "reader \<Rightarrow> gop_msg result" where
  "read_stream_ids recv =
     and_then (map_err protocol_error_new (read_exact 12 recv)) (\<lambda>(ids, recv').
     Inr (StreamIds recv' \<lparr>g_id = get_u32 (take 4 ids), g_codec_gen = get_u32 (take 4 (drop 4 ids)),
            g_config_gen = get_u32 (drop 8 ids)\<rparr>))"

text \<open>One round of \<open>read_packets\<close>: the message and what is left to read, or the end of the task.\<close>

definition read_packets_round :: "reader \<Rightarrow> u32 \<Rightarrow> (gop_msg \<times> reader) option" where
  "read_packets_round recv gop_id =
     (case read_packet av_read recv of
        Inl _ \<Rightarrow> None
      | Inr None \<Rightarrow> None
      | Inr (Some (packet, recv')) \<Rightarrow> Some (NewPacket packet gop_id, recv'))"

text \<open>
  What \<open>recv\<close> does with one message: start a task that reads the ids of a stream, follow a newer
  stream instead of the current one, skip the message, return a packet, or panic.
\<close>

datatype gop_action = GReadIds reader | GFollow reader u32 | GSkip | GReturn av_packet | GPanic string

definition gop_packet :: "gop \<Rightarrow> av_packet \<Rightarrow> gop_recv \<Rightarrow> gop_action \<times> gop_recv" where
  "gop_packet g packet s =
     (case packet of
        Codec h \<Rightarrow>
          if g_codec_gen g = gr_last_codec_gen s then (GSkip, s)
          else (GReturn packet, s\<lparr>gr_last_codec_gen := g_codec_gen g\<rparr>)
      | Media h payload \<Rightarrow>
          if is_config h then
            if g_config_gen g = gr_last_config_gen s then (GSkip, s)
            else (GReturn packet, s\<lparr>gr_last_config_gen := g_config_gen g\<rparr>)
          else (GReturn packet, s)
      | Hole h \<Rightarrow> (GPanic ''Unexpected input hole packet'', s))"

fun gop_handle :: "gop_msg \<Rightarrow> gop_recv \<Rightarrow> gop_action \<times> gop_recv" where
  "gop_handle (NewStream recv) s = (GReadIds recv, s)"
| "gop_handle (StreamIds recv g) s =
     (if (case gr_gop s of None \<Rightarrow> True | Some prev \<Rightarrow> g_id g > g_id prev)
      then (GFollow recv (g_id g), s\<lparr>gr_gop := Some g\<rparr>)
      else (GSkip, s))"
| "gop_handle (NewPacket packet gop_id) s =
     (case gr_gop s of
        None \<Rightarrow> (GPanic ''called `Option::unwrap()` on a `None` value'', s)
      | Some g \<Rightarrow> if gop_id = g_id g then gop_packet g packet s else (GSkip, s))"

section \<open>Interleavings\<close>

text \<open>
  Streams waiting to be accepted, the queue of messages, the tasks that read ids, the tasks that
  read packets with the gop they read, and the packets returned so far. Cancelling a task takes
  effect some time later, so a task that is not current may still send or stop.
\<close>

record gop_world =
  gw_waiting :: "reader list"
  gw_queue :: "gop_msg list"
  gw_ids :: "reader list"
  gw_readers :: "(reader \<times> u32) list"
  gw_recv :: gop_recv
  gw_out :: "av_packet list"
  gw_panic :: bool

definition gop_world_start :: "reader list \<Rightarrow> gop_world" where
  "gop_world_start rs = \<lparr>gw_waiting = rs, gw_queue = [], gw_ids = [], gw_readers = [],
     gw_recv = gop_recv_start, gw_out = [], gw_panic = False\<rparr>"

definition gop_perform :: "gop_action \<times> gop_recv \<Rightarrow> gop_world \<Rightarrow> gop_world" where
  "gop_perform a w =
     (let w1 = w\<lparr>gw_recv := snd a\<rparr> in
      case fst a of
        GReadIds recv \<Rightarrow> w1\<lparr>gw_ids := gw_ids w @ [recv]\<rparr>
      | GFollow recv i \<Rightarrow> w1\<lparr>gw_readers := gw_readers w @ [(recv, i)]\<rparr>
      | GSkip \<Rightarrow> w1
      | GReturn packet \<Rightarrow> w1\<lparr>gw_out := gw_out w @ [packet]\<rparr>
      | GPanic _ \<Rightarrow> w1\<lparr>gw_panic := True\<rparr>)"

inductive gop_step :: "gop_world \<Rightarrow> gop_world \<Rightarrow> bool" where
  accept: "gw_waiting w = xs @ r # ys \<Longrightarrow>
     gop_step w (w\<lparr>gw_waiting := xs @ ys, gw_queue := gw_queue w @ [NewStream r]\<rparr>)"
| ids: "gw_ids w = xs @ r # ys \<Longrightarrow> read_stream_ids r = Inr m \<Longrightarrow>
     gop_step w (w\<lparr>gw_ids := xs @ ys, gw_queue := gw_queue w @ [m]\<rparr>)"
| ids_failed: "gw_ids w = xs @ r # ys \<Longrightarrow> read_stream_ids r = Inl e \<Longrightarrow>
     gop_step w (w\<lparr>gw_ids := xs @ ys\<rparr>)"
| read: "gw_readers w = xs @ (r, i) # ys \<Longrightarrow> read_packets_round r i = Some (m, r') \<Longrightarrow>
     gop_step w (w\<lparr>gw_readers := xs @ (r', i) # ys, gw_queue := gw_queue w @ [m]\<rparr>)"
| read_ended: "gw_readers w = xs @ (r, i) # ys \<Longrightarrow> read_packets_round r i = None \<Longrightarrow>
     gop_step w (w\<lparr>gw_readers := xs @ ys\<rparr>)"
| cancelled: "gw_readers w = xs @ (r, i) # ys \<Longrightarrow> gr_gop (gw_recv w) \<noteq> None \<Longrightarrow>
     g_id (the (gr_gop (gw_recv w))) \<noteq> i \<Longrightarrow> gop_step w (w\<lparr>gw_readers := xs @ ys\<rparr>)"
| handle: "gw_queue w = m # ms \<Longrightarrow> \<not> gw_panic w \<Longrightarrow>
     gop_step w (gop_perform (gop_handle m (gw_recv w)) (w\<lparr>gw_queue := ms\<rparr>))"

end
