(* ===== verification/GopStream_Props.thy ===== *)
theory GopStream_Props
  imports GopStream
begin

text \<open>
  The receiver of the stream-per-GOP protocol refines a sequential specification: it reads a
  prefix of some of the streams, in ascending order, and drops repeated codecs and configs. With
  the sender's streams this gives every forwarded frame the codec and config it was sent with.
\<close>

section \<open>The sequential specification\<close>

type_synonym gop_stream = "gop \<times> av_packet list"

definition gop_bytes :: "gop_stream \<Rightarrow> bytes" where
  "gop_bytes x = gop_ids (g_id (fst x)) (g_codec_gen (fst x)) (g_config_gen (fst x))
                 @ concat (map av_enc (snd x))"

definition gop_returned :: "gop_action \<Rightarrow> av_packet list" where
  "gop_returned a = (case a of GReturn p \<Rightarrow> [p] | _ \<Rightarrow> [])"

fun gop_feed :: "gop \<Rightarrow> av_packet list \<Rightarrow> gop_recv \<Rightarrow> av_packet list \<times> gop_recv" where
  "gop_feed g [] s = ([], s)"
| "gop_feed g (p # ps) s =
     (case gop_packet g p s of (a, s1) \<Rightarrow>
      case gop_feed g ps s1 of (os, s2) \<Rightarrow> (gop_returned a @ os, s2))"

fun gop_follow :: "gop_stream list \<Rightarrow> gop_recv \<Rightarrow> av_packet list \<times> gop_recv" where
  "gop_follow [] s = ([], s)"
| "gop_follow ((g, ps) # xs) s =
     (case gop_feed g ps (s\<lparr>gr_gop := Some g\<rparr>) of (os, s1) \<Rightarrow>
      case gop_follow xs s1 of (os', s2) \<Rightarrow> (os @ os', s2))"

lemma gop_feed_snoc:
  "gop_feed g ps s = (os, s1) \<Longrightarrow> gop_packet g p s1 = (a, s2) \<Longrightarrow>
     gop_feed g (ps @ [p]) s = (os @ gop_returned a, s2)"
  by (induction ps arbitrary: s os) (auto split: prod.splits)

lemma gop_follow_snoc:
  "gop_follow (xs @ [(g, ds)]) s = (os, s1) \<Longrightarrow> gop_packet g p s1 = (a, s2) \<Longrightarrow>
     gop_follow (xs @ [(g, ds @ [p])]) s = (os @ gop_returned a, s2)"
proof (induction xs arbitrary: s os)
  case (Cons x xs)
  then show ?case by (cases x) (fastforce split: prod.splits)
qed (auto simp: gop_feed_snoc split: prod.splits)

lemma gop_follow_new:
  "gop_follow xs s = (os, s1) \<Longrightarrow> gop_follow (xs @ [(g, [])]) s = (os, s1\<lparr>gr_gop := Some g\<rparr>)"
  by (induction xs s arbitrary: os rule: gop_follow.induct) (auto split: prod.splits)

lemma gop_packet_gop: "gop_packet g p s = (a, s') \<Longrightarrow> gr_gop s' = gr_gop s"
  by (auto simp: gop_packet_def split: av_packet.splits if_splits)

section \<open>Invariant\<close>

definition streams_ok :: "gop_stream set \<Rightarrow> bool" where
  "streams_ok S \<longleftrightarrow> (\<forall>x \<in> S. \<forall>p \<in> set (snd x). av_valid p \<and> (\<forall>h. p \<noteq> Hole h))"

definition unread :: "gop_stream set \<Rightarrow> reader \<Rightarrow> bool" where
  "unread S r \<longleftrightarrow> (\<exists>x \<in> S. \<exists>n. rbuf r = take n (gop_bytes x))"

definition rest_of :: "av_packet list \<Rightarrow> reader \<Rightarrow> bool" where
  "rest_of ps r \<longleftrightarrow> (\<exists>n. rbuf r = take n (concat (map av_enc ps)))"

fun msg_ok :: "gop_stream set \<Rightarrow> u32 option \<Rightarrow> gop_msg \<Rightarrow> bool" where
  "msg_ok S cur (NewStream r) = unread S r"
| "msg_ok S cur (StreamIds r g) = (\<exists>ps. (g, ps) \<in> S \<and> rest_of ps r)"
| "msg_ok S cur (NewPacket p i) = (\<exists>c. cur = Some c \<and> i \<le> c)"

fun packets_of :: "u32 \<Rightarrow> gop_msg list \<Rightarrow> av_packet list" where
  "packets_of i [] = []"
| "packets_of i (NewPacket p j # ms) = (if j = i then p # packets_of i ms else packets_of i ms)"
| "packets_of i (m # ms) = packets_of i ms"

lemma packets_of_append [simp]: "packets_of i (ms @ ms') = packets_of i ms @ packets_of i ms'"
  by (induction i ms rule: packets_of.induct) auto

definition current_id :: "gop_world \<Rightarrow> u32 option" where
  "current_id w = map_option g_id (gr_gop (gw_recv w))"

definition gop_sources_ok :: "gop_stream set \<Rightarrow> gop_world \<Rightarrow> bool" where
  "gop_sources_ok S w \<longleftrightarrow>
     (\<forall>r \<in> set (gw_waiting w) \<union> set (gw_ids w). unread S r)
     \<and> (\<forall>m \<in> set (gw_queue w). msg_ok S (current_id w) m)
     \<and> (\<forall>x \<in> set (gw_readers w). \<exists>c. current_id w = Some c \<and> snd x \<le> c)
     \<and> distinct (map snd (gw_readers w))"

text \<open>
  The packets of the stream that is being followed: handled, queued and still to be read. \<open>xs\<close> are
  the streams followed before, with what was read of them.
\<close>

definition gop_followed :: "gop_stream set \<Rightarrow> gop_stream list \<Rightarrow> bool" where
  "gop_followed S xs \<longleftrightarrow>
     sorted_wrt (<) (map (\<lambda>x. g_id (fst x)) xs) \<and> (\<forall>x \<in> set xs. \<exists>ps. (fst x, ps) \<in> S \<and> prefix (snd x) ps)"

definition gop_progress :: "gop_stream set \<Rightarrow> gop_world \<Rightarrow> bool" where
  "gop_progress S w \<longleftrightarrow>
     (case gr_gop (gw_recv w) of
        None \<Rightarrow> gw_recv w = gop_recv_start \<and> gw_out w = []
      | Some g \<Rightarrow>
          \<exists>xs ds ps rest. (g, ps) \<in> S \<and> ps = ds @ packets_of (g_id g) (gw_queue w) @ rest
            \<and> (\<forall>x \<in> set (gw_readers w). snd x = g_id g \<longrightarrow> rest_of rest (fst x))
            \<and> gop_followed S (xs @ [(g, ds)])
            \<and> gop_follow (xs @ [(g, ds)]) gop_recv_start = (gw_out w, gw_recv w))"

definition gop_inv :: "gop_stream set \<Rightarrow> gop_world \<Rightarrow> bool" where
  "gop_inv S w \<longleftrightarrow> gop_sources_ok S w \<and> gop_progress S w \<and> \<not> gw_panic w"

lemma gop_inv_start:
  "\<forall>r \<in> set rs. unread S r \<Longrightarrow> gop_inv S (gop_world_start rs)"
  by (simp add: gop_inv_def gop_sources_ok_def gop_progress_def gop_world_start_def gop_recv_start_def
      current_id_def)

section \<open>Reading\<close>

lemma read_stream_ids_ok:
  assumes "unread S r" "read_stream_ids r = Inr m"
  shows "msg_ok S cur m \<and> packets_of i [m] = []"
proof -
  obtain g ps n where x: "(g, ps) \<in> S" "rbuf r = take n (gop_bytes (g, ps))"
    using assms(1) by (auto simp: unread_def)
  obtain bs r' where r': "read_exact 12 r = Inr (bs, r')"
    using assms(2) by (cases "read_exact 12 r") (auto simp: read_stream_ids_def)
  let ?ids = "gop_ids (g_id g) (g_codec_gen g) (g_config_gen g)"
  have l: "length ?ids = 12" by (simp add: gop_ids_def)
  have n: "12 \<le> length (rbuf r)" "bs = take 12 (rbuf r)" "rbuf r' = drop 12 (rbuf r)"
    using r' by (auto simp: read_exact_def split: if_splits)
  then have "12 \<le> n" using x(2) by simp
  then have b: "bs = ?ids" "rbuf r' = take (n - 12) (concat (map av_enc ps))"
    using n x(2) l by (simp_all add: gop_bytes_def min_def)
  have "m = StreamIds r' g"
    using assms(2) r' b(1) by (cases g) (auto simp: read_stream_ids_def gop_ids_def)
  with x(1) b(2) show ?thesis by (auto simp: rest_of_def)
qed

lemma read_round_ok:
  assumes "rest_of rest r" "\<forall>p \<in> set rest. av_valid p" "read_packets_round r i = Some (m, r')"
  shows "\<exists>p rest'. m = NewPacket p i \<and> rest = p # rest' \<and> rest_of rest' r'"
proof -
  obtain n where n: "rbuf r = take n (concat (map av_enc rest))" using assms(1) by (auto simp: rest_of_def)
  obtain p where p: "av_read r = Inr (Some (p, r'))" "m = NewPacket p i"
    using assms(3) by (auto simp: read_packets_round_def read_packet_def map_err_def split: sum.splits option.splits)
  let ?q = "r\<lparr>rbuf := concat (map av_enc rest)\<rparr>" and ?e = "drop n (concat (map av_enc rest))"
  have q: "av_read ?q = Inr (Some (p, ?q\<lparr>rbuf := rbuf r' @ ?e\<rparr>))"
    by (rule av_read_extend [OF p(1)]) (simp add: n)
  show ?thesis
  proof (cases rest)
    case Nil
    then have "rbuf r = []" using n by simp
    with av_read_progress [OF p(1)] show ?thesis by simp
  next
    case (Cons p0 rest')
    with assms(2) have "av_read ?q = Inr (Some (p0, ?q\<lparr>rbuf := concat (map av_enc rest')\<rparr>))"
      by (intro av_read_enc) simp_all
    with q have e: "p = p0" "rbuf r' @ ?e = concat (map av_enc rest')"
      by (auto dest: arg_cong [where f = rbuf])
    then have "rbuf r' = take (length (rbuf r')) (concat (map av_enc rest'))" by (metis append_eq_conv_conj)
    with e Cons p(2) show ?thesis unfolding rest_of_def by blast
  qed
qed

section \<open>Every step keeps the invariant\<close>

lemma gop_progressI:
  assumes "gr_gop (gw_recv w) = Some g" "(g, ds @ packets_of (g_id g) (gw_queue w) @ rest) \<in> S"
    and "\<And>r. (r, g_id g) \<in> set (gw_readers w) \<Longrightarrow> rest_of rest r"
    and "gop_followed S (xs @ [(g, ds)])" "gop_follow (xs @ [(g, ds)]) gop_recv_start = (gw_out w, gw_recv w)"
  shows "gop_progress S w"
  unfolding gop_progress_def assms(1) option.case
  by (intro exI [of _ xs] exI [of _ ds] exI [of _ rest] exI conjI) (use assms in auto)

lemma gop_progress_cong:
  assumes "gop_progress S w" "gw_recv w' = gw_recv w" "gw_out w' = gw_out w"
    and "\<And>i. packets_of i (gw_queue w') = packets_of i (gw_queue w)"
    and "set (gw_readers w') \<subseteq> set (gw_readers w)"
  shows "gop_progress S w'"
  using assms by (fastforce simp: gop_progress_def split: option.splits)

lemma gop_step_read:
  assumes "streams_ok S" "gop_inv S w" "gw_readers w = xs @ (r, i) # ys" "read_packets_round r i = Some (m, r')"
  shows "gop_inv S (w\<lparr>gw_readers := xs @ (r', i) # ys, gw_queue := gw_queue w @ [m]\<rparr>)"
proof -
  obtain p where m: "m = NewPacket p i"
    using assms(4) by (auto simp: read_packets_round_def split: sum.splits option.splits)
  have so: "gop_sources_ok S w" and pr: "gop_progress S w" and np: "\<not> gw_panic w"
    using assms(2) by (simp_all add: gop_inv_def)
  obtain c where c: "current_id w = Some c" "i \<le> c" using so assms(3) by (auto simp: gop_sources_ok_def)
  then obtain g where g: "gr_gop (gw_recv w) = Some g" "g_id g = c" by (auto simp: current_id_def)
  have "gop_sources_ok S (w\<lparr>gw_readers := xs @ (r', i) # ys, gw_queue := gw_queue w @ [m]\<rparr>)"
    using so assms(3) c m by (auto simp: gop_sources_ok_def current_id_def)
  moreover have "gop_progress S (w\<lparr>gw_readers := xs @ (r', i) # ys, gw_queue := gw_queue w @ [m]\<rparr>)"
  proof -
    obtain zs ds ps rest where z: "(g, ps) \<in> S" "ps = ds @ packets_of c (gw_queue w) @ rest"
      "\<forall>x \<in> set (gw_readers w). snd x = c \<longrightarrow> rest_of rest (fst x)"
      "gop_followed S (zs @ [(g, ds)])" "gop_follow (zs @ [(g, ds)]) gop_recv_start = (gw_out w, gw_recv w)"
      using pr g by (auto simp: gop_progress_def)
    have rd: "rest_of rest q" if "(q, c) \<in> set (gw_readers w)" for q using bspec [OF z(3) that] by simp
    show ?thesis
    proof (cases "i = c")
      case False
      with z(1,2,4,5) rd assms(3) m g show ?thesis
        by (intro gop_progressI [of _ g ds rest S zs]) auto
    next
      case True
      have v: "\<forall>q \<in> set rest. av_valid q" using assms(1) z(1,2) by (auto simp: streams_ok_def)
      have "rest_of rest r" using z(3) assms(3) True by simp
      from read_round_ok [OF this v assms(4)] obtain p' rest' where "m = NewPacket p' i" "rest = p' # rest'"
        "rest_of rest' r'" by blast
      with m have rest': "rest = p # rest'" "rest_of rest' r'" by simp_all
      have "distinct (map snd (xs @ (r, i) # ys))" using so assms(3) by (simp add: gop_sources_ok_def)
      then have only: "(q, c) \<notin> set xs \<union> set ys" for q using True by (force simp: image_iff)
      have "rest_of rest' q" if "(q, c) \<in> set (xs @ (r', i) # ys)" for q using that only [of q] rest' by simp
      with z(1,2,4,5) rest' m g True show ?thesis
        by (intro gop_progressI [of _ g ds rest' S zs]) simp_all
    qed
  qed
  ultimately show ?thesis using np by (simp add: gop_inv_def)
qed

lemma gop_follow_newer:
  assumes "gop_inv S w" "gw_queue w = StreamIds r g # ms"
    and "case gr_gop (gw_recv w) of None \<Rightarrow> True | Some prev \<Rightarrow> g_id prev < g_id g"
  shows "gop_inv S (w\<lparr>gw_queue := ms, gw_recv := (gw_recv w)\<lparr>gr_gop := Some g\<rparr>,
           gw_readers := gw_readers w @ [(r, g_id g)]\<rparr>)" (is "gop_inv S ?w")
proof -
  have so: "gop_sources_ok S w" and pr: "gop_progress S w" using assms(1) by (simp_all add: gop_inv_def)
  have old: "\<exists>c. current_id w = Some c \<and> i \<le> c \<Longrightarrow> i < g_id g" for i
    using assms(3) by (auto simp: current_id_def split: option.splits)
  have mo: "\<forall>m \<in> set ms. msg_ok S (current_id w) m" and rd: "\<forall>x \<in> set (gw_readers w). snd x < g_id g"
    using so assms(2) old unfolding gop_sources_ok_def by auto
  have "msg_ok S (Some (g_id g)) m" if "m \<in> set ms" for m
    using mo that old by (cases m) (auto simp: less_imp_le)
  with so rd assms(2) have "gop_sources_ok S ?w"
    by (auto simp: gop_sources_ok_def current_id_def less_imp_le)
  moreover have "gop_progress S ?w"
  proof -
    obtain ps where ps: "(g, ps) \<in> S" "rest_of ps r" using so assms(2) by (auto simp: gop_sources_ok_def)
    have "packets_of (g_id g) ms = []"
      using mo old by (induction "g_id g" ms rule: packets_of.induct) auto
    moreover obtain xs where xs: "gop_followed S (xs @ [(g, [])])" "gop_follow xs gop_recv_start = (gw_out w, gw_recv w)"
    proof (cases "gr_gop (gw_recv w)")
      case None
      with pr that [of "[]"] ps show thesis by (auto simp: gop_progress_def gop_followed_def)
    next
      case (Some prev)
      with pr obtain zs ds where z: "gop_followed S (zs @ [(prev, ds)])"
        "gop_follow (zs @ [(prev, ds)]) gop_recv_start = (gw_out w, gw_recv w)" by (auto simp: gop_progress_def)
      from z(1) assms(3) Some ps have "gop_followed S ((zs @ [(prev, ds)]) @ [(g, [])])"
        by (force simp: gop_followed_def sorted_wrt_append)
      with z(2) that show thesis by blast
    qed
    moreover have "\<forall>x \<in> set (gw_readers w). snd x \<noteq> g_id g" using rd by auto
    ultimately show ?thesis using ps gop_follow_new [OF xs(2), of g]
      by (intro gop_progressI [of _ g "[]" ps S xs]) auto
  qed
  ultimately show ?thesis using assms(1) by (simp add: gop_inv_def)
qed

lemma gop_current_packet:
  assumes "streams_ok S" "gop_inv S w" "gw_queue w = NewPacket p (g_id g) # ms" "gr_gop (gw_recv w) = Some g"
  shows "gop_inv S (gop_perform (gop_packet g p (gw_recv w)) (w\<lparr>gw_queue := ms\<rparr>))"
proof -
  have so: "gop_sources_ok S w" and pr: "gop_progress S w" using assms(2) by (simp_all add: gop_inv_def)
  obtain xs ds ps rest where z: "(g, ps) \<in> S" "ps = ds @ (p # packets_of (g_id g) ms) @ rest"
    "\<forall>x \<in> set (gw_readers w). snd x = g_id g \<longrightarrow> rest_of rest (fst x)"
    "gop_followed S (xs @ [(g, ds)])" "gop_follow (xs @ [(g, ds)]) gop_recv_start = (gw_out w, gw_recv w)"
    using pr assms(3,4) by (auto simp: gop_progress_def)
  obtain a s' where a: "gop_packet g p (gw_recv w) = (a, s')" by (cases "gop_packet g p (gw_recv w)")
  have s': "gr_gop s' = Some g" using gop_packet_gop [OF a] assms(4) by simp
  have "\<forall>h. p \<noteq> Hole h" using assms(1) z(1,2) by (auto simp: streams_ok_def)
  then have "a = GSkip \<or> a = GReturn p" using a by (auto simp: gop_packet_def split: av_packet.splits if_splits)
  then have w': "gop_perform (a, s') (w\<lparr>gw_queue := ms\<rparr>)
      = w\<lparr>gw_queue := ms, gw_recv := s', gw_out := gw_out w @ gop_returned a\<rparr>"
    by (auto simp: gop_perform_def gop_returned_def)
  have "prefix (ds @ [p]) ps" using z(2) by simp
  then have "gop_followed S (xs @ [(g, ds @ [p])])" using z(1,4) by (fastforce simp: gop_followed_def sorted_wrt_append)
  with z gop_follow_snoc [OF z(5) a] s'
  have "gop_progress S (w\<lparr>gw_queue := ms, gw_recv := s', gw_out := gw_out w @ gop_returned a\<rparr>)"
    by (intro gop_progressI [of _ g "ds @ [p]" rest S xs]) auto
  moreover have "gop_sources_ok S (w\<lparr>gw_queue := ms, gw_recv := s', gw_out := gw_out w @ gop_returned a\<rparr>)"
    using so assms(3,4) s' by (auto simp: gop_sources_ok_def current_id_def)
  ultimately show ?thesis using assms(2) unfolding a w' by (simp add: gop_inv_def)
qed

lemma gop_handle_inv:
  assumes "streams_ok S" "gop_inv S w" "gw_queue w = m # ms"
  shows "gop_inv S (gop_perform (gop_handle m (gw_recv w)) (w\<lparr>gw_queue := ms\<rparr>))"
proof -
  have so: "gop_sources_ok S w" and pr: "gop_progress S w" using assms(2) by (simp_all add: gop_inv_def)
  have skip: "gop_inv S (w\<lparr>gw_queue := ms, gw_ids := is\<rparr>)"
    if "\<And>i. packets_of i [m] = [] \<or> current_id w \<noteq> Some i" "\<forall>r \<in> set is. unread S r" for "is"
  proof -
    have "gop_progress S (w\<lparr>gw_queue := ms, gw_ids := is\<rparr>)"
    proof (cases "gr_gop (gw_recv w)")
      case (Some g)
      then have "packets_of (g_id g) [m] = []" using that(1) by (auto simp: current_id_def)
      then have "packets_of (g_id g) (gw_queue w) = packets_of (g_id g) ms"
        using packets_of_append [of "g_id g" "[m]" ms] assms(3) by simp
      with pr Some show ?thesis by (simp add: gop_progress_def)
    qed (use pr in \<open>simp add: gop_progress_def\<close>)
    with so assms(2,3) that(2) show ?thesis by (auto simp: gop_inv_def gop_sources_ok_def current_id_def)
  qed
  have same: "w\<lparr>gw_queue := ms, gw_recv := gw_recv w\<rparr> = w\<lparr>gw_queue := ms, gw_ids := gw_ids w\<rparr>" by simp
  have ids: "\<forall>r \<in> set (gw_ids w). unread S r" using so by (simp add: gop_sources_ok_def)
  show ?thesis
  proof (cases m)
    case (NewStream r)
    with so assms(3) have "unread S r" by (simp add: gop_sources_ok_def)
    with skip [of "gw_ids w @ [r]"] NewStream ids show ?thesis by (simp add: gop_perform_def)
  next
    case (StreamIds r g)
    show ?thesis
    proof (cases "case gr_gop (gw_recv w) of None \<Rightarrow> True | Some prev \<Rightarrow> g_id prev < g_id g")
      case True
      with gop_follow_newer [OF assms(2) _ True] StreamIds assms(3) show ?thesis by (simp add: gop_perform_def)
    next
      case False
      with skip [of "gw_ids w"] StreamIds ids same show ?thesis by (simp add: gop_perform_def)
    qed
  next
    case (NewPacket p i)
    with so assms(3) obtain g where g: "gr_gop (gw_recv w) = Some g"
      by (auto simp: gop_sources_ok_def current_id_def)
    show ?thesis
    proof (cases "i = g_id g")
      case True
      with gop_current_packet [OF assms(1,2) _ g] NewPacket assms(3) g show ?thesis by simp
    next
      case False
      then have "packets_of j [m] = [] \<or> current_id w \<noteq> Some j" for j
        using NewPacket g by (auto simp: current_id_def)
      with skip [OF _ ids] NewPacket g False same show ?thesis by (simp add: gop_perform_def)
    qed
  qed
qed

lemma gop_step_inv:
  assumes "streams_ok S" "gop_inv S w" "gop_step w w'"
  shows "gop_inv S w'"
proof -
  have so: "gop_sources_ok S w" and pr: "gop_progress S w" and np: "\<not> gw_panic w"
    using assms(2) by (simp_all add: gop_inv_def)
  have d: "distinct (map snd (gw_readers w))" using so by (simp add: gop_sources_ok_def)
  from assms(3) show ?thesis
  proof (cases rule: gop_step.cases)
    case (accept xs r ys)
    have "gop_sources_ok S w'" using so accept by (auto simp: gop_sources_ok_def current_id_def)
    moreover have "gop_progress S w'" by (rule gop_progress_cong [OF pr]) (simp_all add: accept)
    ultimately show ?thesis using np accept(1) by (simp add: gop_inv_def)
  next
    case (ids xs r ys m)
    have u: "unread S r" using so ids(2) by (simp add: gop_sources_ok_def)
    note m = read_stream_ids_ok [OF this ids(3)]
    have "gop_sources_ok S w'" using so ids(1,2) m by (auto simp: gop_sources_ok_def current_id_def)
    moreover have "gop_progress S w'"
      by (rule gop_progress_cong [OF pr]) (use m in \<open>simp_all add: ids(1) del: packets_of.simps\<close>)
    ultimately show ?thesis using np ids(1) by (simp add: gop_inv_def)
  next
    case (ids_failed xs r ys e)
    have "gop_sources_ok S w'" using so ids_failed by (auto simp: gop_sources_ok_def current_id_def)
    moreover have "gop_progress S w'" by (rule gop_progress_cong [OF pr]) (simp_all add: ids_failed)
    ultimately show ?thesis using np ids_failed(1) by (simp add: gop_inv_def)
  next
    case (read xs r i ys m r')
    from gop_step_read [OF assms(1,2) read(2,3)] show ?thesis by (simp add: read(1))
  next
    case (read_ended xs r i ys)
    have "gop_sources_ok S w'" using so read_ended by (auto simp: gop_sources_ok_def current_id_def)
    moreover have "gop_progress S w'" by (rule gop_progress_cong [OF pr]) (auto simp: read_ended)
    ultimately show ?thesis using np read_ended(1) by (simp add: gop_inv_def)
  next
    case (cancelled xs r i ys)
    have "gop_sources_ok S w'" using so cancelled by (auto simp: gop_sources_ok_def current_id_def)
    moreover have "gop_progress S w'" by (rule gop_progress_cong [OF pr]) (auto simp: cancelled)
    ultimately show ?thesis using np cancelled(1) by (simp add: gop_inv_def)
  next
    case (handle m ms)
    with gop_handle_inv [OF assms(1,2) handle(2)] show ?thesis by simp
  qed
qed

text \<open>The receiver refines the sequential specification.\<close>

lemma gop_refines:
  assumes "streams_ok S" "\<forall>r \<in> set rs. unread S r" "gop_step\<^sup>*\<^sup>* (gop_world_start rs) w"
  shows "\<not> gw_panic w \<and> (\<exists>xs. gop_followed S xs \<and> gw_out w = fst (gop_follow xs gop_recv_start))"
proof -
  have "gop_inv S w" using assms(3)
    by (induction rule: rtranclp_induct) (auto intro: gop_inv_start [OF assms(2)] gop_step_inv [OF assms(1)])
  then have p: "\<not> gw_panic w" "gop_progress S w" by (simp_all add: gop_inv_def)
  show ?thesis
  proof (cases "gr_gop (gw_recv w)")
    case None
    with p show ?thesis by (auto simp: gop_progress_def gop_followed_def intro!: exI [of _ "[]"])
  next
    case (Some g)
    with p(2) obtain xs ds where "gop_followed S (xs @ [(g, ds)])"
      "gop_follow (xs @ [(g, ds)]) gop_recv_start = (gw_out w, gw_recv w)" by (auto simp: gop_progress_def)
    then show ?thesis using p(1) by (metis fst_conv)
  qed
qed

section \<open>Codec and config in force\<close>

text \<open>Every frame of a list of packets with the codec and config that precede it.\<close>

fun contexts ::
  "codec_packet_header option \<Rightarrow> (media_packet_header \<times> bytes) option \<Rightarrow> av_packet list
     \<Rightarrow> (av_packet \<times> codec_packet_header option \<times> (media_packet_header \<times> bytes) option) list" where
  "contexts c f [] = []"
| "contexts c f (Codec h # ps) = contexts (Some h) f ps"
| "contexts c f (Media h payload # ps) =
     (if is_config h then contexts c (Some (h, payload)) ps else (Media h payload, c, f) # contexts c f ps)"
| "contexts c f (Hole h # ps) = contexts c f ps"

fun frame :: "av_packet \<Rightarrow> bool" where
  "frame (Media h payload) = (\<not> is_config h)"
| "frame p = False"

fun codecs :: "av_packet list \<Rightarrow> codec_packet_header list" where
  "codecs [] = []"
| "codecs (Codec h # ps) = h # codecs ps"
| "codecs (p # ps) = codecs ps"

fun configs :: "av_packet list \<Rightarrow> (media_packet_header \<times> bytes) list" where
  "configs [] = []"
| "configs (Media h payload # ps) = (if is_config h then (h, payload) # configs ps else configs ps)"
| "configs (p # ps) = configs ps"

text \<open>Frames of one stream, which starts with its codec and config.\<close>

fun gop_frames ::
  "gop_stream \<Rightarrow> (av_packet \<times> codec_packet_header option \<times> (media_packet_header \<times> bytes) option) list" where
  "gop_frames (g, Codec c # Media h payload # ms) = map (\<lambda>m. (m, Some c, Some (h, payload))) ms"
| "gop_frames x = []"

text \<open>A stream of a sender that has seen the codecs \<open>cs\<close> and the configs \<open>fs\<close>.\<close>

definition sent_stream ::
  "codec_packet_header list \<Rightarrow> (media_packet_header \<times> bytes) list \<Rightarrow> gop_stream \<Rightarrow> bool" where
  "sent_stream cs fs x \<longleftrightarrow>
     (\<exists>j k ms. j < length cs \<and> k < length fs \<and> g_codec_gen (fst x) = of_nat (Suc j)
        \<and> g_config_gen (fst x) = of_nat (Suc k) \<and> is_config (fst (fs ! k))
        \<and> snd x = Codec (cs ! j) # Media (fst (fs ! k)) (snd (fs ! k)) # ms \<and> (\<forall>m \<in> set ms. frame m))"

text \<open>A generation of the receiver stands for the codec or config it forwarded last.\<close>

definition stands_for :: "'a list \<Rightarrow> u32 \<Rightarrow> 'a option \<Rightarrow> bool" where
  "stands_for xs n x \<longleftrightarrow> (n = 0 \<and> x = None) \<or> (\<exists>j < length xs. n = of_nat (Suc j) \<and> x = Some (xs ! j))"

lemma stands_for_eq:
  assumes "stands_for xs n x" "length xs < 2 ^ 32 - 1" "j < length xs" "n = of_nat (Suc j)"
  shows "x = Some (xs ! j)"
proof -
  have u: "unat (of_nat (Suc i) :: u32) = Suc i" if "i < length xs" for i
    using that assms(2) by (simp add: unsigned_of_nat take_bit_nat_eq_self del: of_nat_Suc)
  from assms(1) show ?thesis unfolding stands_for_def
  proof (elim disjE conjE exE)
    assume "n = 0"
    with u [OF assms(3)] assms(4) show ?thesis by simp
  next
    fix i assume "i < length xs" "n = of_nat (Suc i)" "x = Some (xs ! i)"
    with u [of i] u [OF assms(3)] assms(4) show ?thesis by (metis Suc_inject)
  qed
qed

lemma contexts_append:
  "contexts c f (ps @ qs) = contexts c f ps
     @ contexts (if codecs ps = [] then c else Some (last (codecs ps)))
         (if configs ps = [] then f else Some (last (configs ps))) qs"
  by (induction c f ps rule: contexts.induct) auto

lemma contexts_frames: "\<forall>m \<in> set ms. frame m \<Longrightarrow> contexts c f ms = map (\<lambda>m. (m, c, f)) ms"
proof (induction ms)
  case (Cons m ms)
  then show ?case by (cases m) auto
qed simp

lemma frames_plain: "\<forall>m \<in> set ms. frame m \<Longrightarrow> codecs ms = [] \<and> configs ms = []"
proof (induction ms)
  case (Cons m ms)
  then show ?case by (cases m) auto
qed simp

lemma gop_feed_frames: "\<forall>m \<in> set ms. frame m \<Longrightarrow> gop_feed g ms s = (ms, s)"
proof (induction ms)
  case (Cons m ms)
  then show ?case by (cases m) (auto simp: gop_packet_def gop_returned_def)
qed simp

text \<open>Reading a prefix of one stream.\<close>

lemma gop_feed_contexts:
  assumes "sent_stream cs fs (g, ps)" "prefix qs ps" "length cs < 2 ^ 32 - 1" "length fs < 2 ^ 32 - 1"
    and "stands_for cs (gr_last_codec_gen s) c" "stands_for fs (gr_last_config_gen s) f"
    and "gop_feed g qs s = (os, s')"
  obtains c' f' where "stands_for cs (gr_last_codec_gen s') c'" "stands_for fs (gr_last_config_gen s') f'"
    "\<forall>rest. contexts c f (os @ rest) = gop_frames (g, qs) @ contexts c' f' rest"
proof -
  obtain j k ms where x: "j < length cs" "k < length fs" "g_codec_gen g = of_nat (Suc j)"
    "g_config_gen g = of_nat (Suc k)" "is_config (fst (fs ! k))"
    "ps = Codec (cs ! j) # Media (fst (fs ! k)) (snd (fs ! k)) # ms" "\<forall>m \<in> set ms. frame m"
    using assms(1) by (auto simp: sent_stream_def)
  let ?s1 = "s\<lparr>gr_last_codec_gen := g_codec_gen g\<rparr>" and ?s2 = "s\<lparr>gr_last_codec_gen := g_codec_gen g,
    gr_last_config_gen := g_config_gen g\<rparr>"
  have cj: "c = Some (cs ! j)" if "g_codec_gen g = gr_last_codec_gen s"
    using stands_for_eq [OF assms(5,3) x(1)] x(3) that by simp
  have fk: "f = Some (fs ! k)" if "g_config_gen g = gr_last_config_gen s"
    using stands_for_eq [OF assms(6,4) x(2)] x(4) that by simp
  have st: "stands_for cs (g_codec_gen g) (Some (cs ! j))" "stands_for fs (g_config_gen g) (Some (fs ! k))"
    using x by (auto simp: stands_for_def)
  consider "qs = []" | "qs = [Codec (cs ! j)]"
    | ns where "qs = Codec (cs ! j) # Media (fst (fs ! k)) (snd (fs ! k)) # ns" "prefix ns ms"
    using assms(2) x(6) by (auto simp: prefix_Cons)
  then show thesis
  proof cases
    case 1
    with assms(5-7) that [of c f] show thesis by simp
  next
    case 2
    have "s' = ?s1" using assms(7) 2 by (auto simp: gop_packet_def gop_returned_def split: if_splits)
    moreover have "os = [] \<and> c = Some (cs ! j) \<or> os = [Codec (cs ! j)]"
      using assms(7) 2 cj by (auto simp: gop_packet_def gop_returned_def split: if_splits)
    ultimately show thesis using that [of "Some (cs ! j)" f] st assms(6) 2 by auto
  next
    case (3 ns)
    have fr: "\<forall>m \<in> set ns. frame m" using x(7) 3(2) by (auto dest: set_mono_prefix)
    define a where "a = (if g_codec_gen g = gr_last_codec_gen s then [] else [Codec (cs ! j)])"
    define b where "b = (if g_config_gen g = gr_last_config_gen s then []
        else [Media (fst (fs ! k)) (snd (fs ! k))])"
    have o: "os = a @ b @ ns" "s' = ?s2" using assms(7) 3 x(5)
      by (auto simp: a_def b_def gop_packet_def gop_returned_def gop_feed_frames [OF fr] split: if_splits)
    have "a = [] \<and> c = Some (cs ! j) \<or> a = [Codec (cs ! j)]"
      "b = [] \<and> f = Some (fs ! k) \<or> b = [Media (fst (fs ! k)) (snd (fs ! k))]"
      using cj fk by (simp_all add: a_def b_def)
    then have "contexts c f (os @ rest) = gop_frames (g, qs) @ contexts (Some (cs ! j)) (Some (fs ! k)) rest" for rest
      unfolding o using x(5) 3(1) contexts_frames [OF fr] frames_plain [OF fr] contexts_append [of _ _ ns rest]
      by (elim disjE conjE) simp_all
    with that st o(2) show thesis by simp
  qed
qed

lemma gop_follow_contexts:
  assumes "length cs < 2 ^ 32 - 1" "length fs < 2 ^ 32 - 1"
    and "\<forall>x \<in> set xs. \<exists>ps. sent_stream cs fs (fst x, ps) \<and> prefix (snd x) ps"
    and "stands_for cs (gr_last_codec_gen s) c" "stands_for fs (gr_last_config_gen s) f"
  shows "contexts c f (fst (gop_follow xs s)) = concat (map gop_frames xs)"
  using assms(3-5)
proof (induction xs arbitrary: s c f)
  case (Cons x xs)
  obtain g qs where x: "x = (g, qs)" by (cases x)
  obtain ps where ps: "sent_stream cs fs (g, ps)" "prefix qs ps" using Cons.prems(1) x by auto
  obtain os s1 where o: "gop_feed g qs (s\<lparr>gr_gop := Some g\<rparr>) = (os, s1)" by (cases "gop_feed g qs (s\<lparr>gr_gop := Some g\<rparr>)")
  have st: "stands_for cs (gr_last_codec_gen (s\<lparr>gr_gop := Some g\<rparr>)) c"
    "stands_for fs (gr_last_config_gen (s\<lparr>gr_gop := Some g\<rparr>)) f" using Cons.prems by simp_all
  obtain c' f' where c': "stands_for cs (gr_last_codec_gen s1) c'" "stands_for fs (gr_last_config_gen s1) f'"
    "\<forall>rest. contexts c f (os @ rest) = gop_frames (g, qs) @ contexts c' f' rest"
    by (rule gop_feed_contexts [OF ps assms(1,2) st o])
  have "contexts c' f' (fst (gop_follow xs s1)) = concat (map gop_frames xs)"
    using Cons.IH c'(1,2) Cons.prems(1) by simp
  with c'(3) x o show ?case by (simp add: split_beta)
qed simp

section \<open>The sender's streams\<close>

text \<open>
  A frame after a new codec or config is a key frame: producers start a group of pictures when
  they change either. \<open>keyed True\<close> is the state after a change.
\<close>

fun keyed :: "bool \<Rightarrow> av_packet list \<Rightarrow> bool" where
  "keyed fresh [] = True"
| "keyed fresh (Media h payload # ps) =
     (if is_config h then keyed True ps else (fresh \<longrightarrow> is_key h) \<and> keyed False ps)"
| "keyed fresh (p # ps) = keyed True ps"

text \<open>
  After the packets \<open>ps\<close> a sender has written the streams \<open>X\<close>; unless a codec or config came in between,
  the open one has the codec and config in force.
\<close>

definition gop_sent :: "u16 \<Rightarrow> av_packet list \<Rightarrow> bool \<Rightarrow> gop_stream list \<Rightarrow> gop_sender \<Rightarrow> bool" where
  "gop_sent e ps fresh X s \<longleftrightarrow>
     gs_endpoint s = e
     \<and> gs_codec_gen s = of_nat (length (codecs ps)) \<and> gs_config_gen s = of_nat (length (configs ps))
     \<and> gs_codec s = (if codecs ps = [] then None else Some (last (codecs ps)))
     \<and> gs_config s = (if configs ps = [] then None else Some (last (configs ps)))
     \<and> gs_gop_id s = of_nat (length X)
     \<and> gop_written s = map (\<lambda>x. put_u16 e @ gop_bytes x) X
     \<and> (\<forall>w. gs_current s = Some w \<longrightarrow> wcap w = None) \<and> (gs_current s = None \<longrightarrow> X = [])
     \<and> map (\<lambda>x. g_id (fst x)) X = map of_nat [0..<length X]
     \<and> (\<forall>x \<in> set X. sent_stream (codecs ps) (configs ps) x \<and> (\<forall>p \<in> set (snd x). p \<in> set ps))
     \<and> (\<not> fresh \<longrightarrow> X \<noteq> [] \<longrightarrow> codecs ps \<noteq> [] \<and> configs ps \<noteq> [] \<and>
          (\<exists>ms. snd (last X) = Codec (last (codecs ps))
             # Media (fst (last (configs ps))) (snd (last (configs ps))) # ms))
     \<and> subseq (concat (map gop_frames X)) (contexts None None ps)"

lemma codecs_append [simp]: "codecs (ps @ qs) = codecs ps @ codecs qs"
  by (induction ps rule: codecs.induct) auto

lemma configs_append [simp]: "configs (ps @ qs) = configs ps @ configs qs"
  by (induction ps rule: configs.induct) auto

lemma configs_config: "f \<in> set (configs ps) \<Longrightarrow> is_config (fst f)"
  by (induction ps rule: configs.induct) (auto split: if_splits)

lemma configs_mem: "(h, payload) \<in> set (configs ps) \<Longrightarrow> Media h payload \<in> set ps"
  by (induction ps rule: configs.induct) (auto split: if_splits)

lemma codecs_mem: "h \<in> set (codecs ps) \<Longrightarrow> Codec h \<in> set ps"
  by (induction ps rule: codecs.induct) auto

lemma sent_stream_mono:
  assumes "sent_stream cs fs x" shows "sent_stream (cs @ cs') (fs @ fs') x"
proof -
  obtain j k ms where "j < length cs" "k < length fs" "g_codec_gen (fst x) = of_nat (Suc j)"
    "g_config_gen (fst x) = of_nat (Suc k)" "is_config (fst (fs ! k))"
    "snd x = Codec (cs ! j) # Media (fst (fs ! k)) (snd (fs ! k)) # ms" "\<forall>m \<in> set ms. frame m"
    using assms unfolding sent_stream_def by blast
  then show ?thesis unfolding sent_stream_def
    by (intro exI [of _ j] exI [of _ k] exI [of _ ms]) (simp add: nth_append)
qed

lemma gop_sent_plain:
  assumes "gop_sent e ps fresh X s" "\<not> frame p" "\<forall>h. p \<noteq> Hole h" "gop_send opened p s = (Inr u, s')"
  shows "gop_sent e (ps @ [p]) True X s'"
proof -
  have "\<forall>x \<in> set X. sent_stream (codecs (ps @ [p])) (configs (ps @ [p])) x"
    using assms(1) sent_stream_mono by (auto simp: gop_sent_def)
  moreover have "contexts None None (ps @ [p]) = contexts None None ps"
    using assms(2,3) by (cases p) (simp_all add: contexts_append)
  ultimately show ?thesis using assms by (cases p) (auto simp: gop_sent_def gop_written_def)
qed

lemma gop_write_media_ok:
  assumes "gs_current s = Some w" "wcap w = None" "av_valid (Media h payload)"
  shows "gop_write_media h payload s = (Inr (), s\<lparr>gs_current := Some (w\<lparr>wout := wout w @ av_enc (Media h payload)\<rparr>)\<rparr>)"
  using assms by (simp add: gop_write_media_def media_serialize_bytes flush_def)

lemma contexts_frame:
  assumes "frame p"
  shows "contexts None None (ps @ [p]) = contexts None None ps
    @ [(p, if codecs ps = [] then None else Some (last (codecs ps)),
        if configs ps = [] then None else Some (last (configs ps)))]"
  using assms by (cases p) (simp_all add: contexts_append)

lemma frame_plain: "frame p \<Longrightarrow> codecs [p] = [] \<and> configs [p] = []"
  by (cases p) simp_all

lemma gop_sent_append:
  assumes "gop_sent e ps False (Y @ [(g, qs)]) s" "frame p" "gs_current s = Some w"
  shows "gop_sent e (ps @ [p]) False (Y @ [(g, qs @ [p])])
           (s\<lparr>gs_current := Some (w\<lparr>wout := wout w @ av_enc p\<rparr>)\<rparr>)"
proof -
  let ?c = "last (codecs ps)" and ?f = "last (configs ps)"
  note fp = frame_plain [OF assms(2)]
  obtain ms where qs: "qs = Codec ?c # Media (fst ?f) (snd ?f) # ms" "codecs ps \<noteq> []" "configs ps \<noteq> []"
    using assms(1) by (auto simp: gop_sent_def)
  have w: "map wout (gs_finished s) = map (\<lambda>x. put_u16 e @ gop_bytes x) Y" "wout w = put_u16 e @ gop_bytes (g, qs)"
    using assms(1,3) by (auto simp: gop_sent_def gop_written_def)
  have "sent_stream (codecs ps) (configs ps) (g, qs)" using assms(1) by (simp add: gop_sent_def)
  then have "sent_stream (codecs ps) (configs ps) (g, qs @ [p])"
    using assms(2) unfolding sent_stream_def by fastforce
  moreover have "concat (map gop_frames (Y @ [(g, qs @ [p])]))
      = concat (map gop_frames (Y @ [(g, qs)])) @ [(p, Some ?c, Some ?f)]" using qs(1) by simp
  moreover have "subseq (concat (map gop_frames (Y @ [(g, qs)]))) (contexts None None ps)"
    using assms(1) unfolding gop_sent_def by blast
  then have "subseq (concat (map gop_frames (Y @ [(g, qs)])) @ [(p, Some ?c, Some ?f)]) (contexts None None (ps @ [p]))"
    unfolding contexts_frame [OF assms(2)] using qs(2,3) by (intro list_emb_append_mono) simp_all
  ultimately show ?thesis using assms(1,3) fp qs w
    unfolding gop_sent_def gop_written_def by (auto simp: gop_bytes_def)
qed

lemma gop_sent_opened:
  assumes "gop_sent e ps fresh X s" "frame p" "\<forall>q \<in> set ps. av_valid q"
    and "gop_new_stream (Inr new_writer) s = (Inr u, s')"
  obtains g w where "gs_current s' = Some w" "wcap w = None"
    "gop_sent e ps False (X @ [(g, [Codec (last (codecs ps)), Media (fst (last (configs ps))) (snd (last (configs ps)))])]) s'"
proof -
  let ?c = "last (codecs ps)" and ?f = "last (configs ps)"
  have n: "codecs ps \<noteq> []" "configs ps \<noteq> []"
    using assms(1,4) by (auto simp: gop_sent_def gop_new_stream_def gop_preamble_def Let_def open_uni_def
        write_endpoint_id_def new_writer_def flush_def write_all_def split: option.splits prod.splits sum.splits if_splits)
  have v: "pts (fst ?f) < 0x2000000000000000"
    using assms(3) configs_mem [of "fst ?f" "snd ?f" ps] n(2) by force
  define g where "g = \<lparr>g_id = of_nat (length X), g_codec_gen = gs_codec_gen s, g_config_gen = gs_config_gen s\<rparr>"
  define x where "x = (g, [Codec ?c, Media (fst ?f) (snd ?f)])"
  define w where "w = new_writer\<lparr>wout := put_u16 e @ gop_bytes x\<rparr>"
  have pre: "gop_preamble s = Inr (gop_bytes x)"
    using assms(1) n v by (cases ?f)
      (simp add: gop_sent_def gop_preamble_def gop_bytes_def x_def g_def codec_serialize_bytes media_serialize_bytes)
  have op: "open_uni (Inr new_writer) (gs_endpoint s) = Inr (new_writer\<lparr>wout := put_u16 e\<rparr>)"
    using assms(1) by (simp add: gop_sent_def open_uni_def write_endpoint_id_def new_writer_def flush_def write_all_def)
  have s': "s' = s\<lparr>gs_gop_id := gs_gop_id s + 1, gs_current := Some w,
      gs_finished := gs_finished s @ (case gs_current s of None \<Rightarrow> [] | Some old \<Rightarrow> [old])\<rparr>"
    using assms(4) unfolding gop_new_stream_def op pre by (simp add: w_def new_writer_def flush_def)
  have "is_config (fst ?f)" using configs_config [of ?f ps] n(2) by simp
  then have "sent_stream (codecs ps) (configs ps) x" unfolding sent_stream_def
    using assms(1) n by (intro exI [of _ "length (codecs ps) - 1"] exI [of _ "length (configs ps) - 1"] exI [of _ "[]"])
      (simp add: x_def g_def gop_sent_def last_conv_nth)
  moreover have "Codec ?c \<in> set ps" "Media (fst ?f) (snd ?f) \<in> set ps"
    using codecs_mem [of ?c ps] configs_mem [of "fst ?f" "snd ?f" ps] n by simp_all
  moreover have "gop_written s' = map (\<lambda>x. put_u16 e @ gop_bytes x) (X @ [x])"
    using assms(1) by (simp add: s' gop_sent_def gop_written_def w_def)
  ultimately have "gop_sent e ps False (X @ [x]) s'"
    using assms(1) n unfolding gop_sent_def by (auto simp: s' w_def new_writer_def x_def g_def)
  with that [of w g] show thesis by (simp add: s' x_def w_def new_writer_def)
qed

lemma gop_sent_frame:
  assumes "gop_sent e ps fresh X s" "p = Media h payload" "\<not> is_config h" "fresh \<longrightarrow> is_key h"
    and "av_valid p" "\<forall>q \<in> set ps. av_valid q" "gop_send (Inr new_writer) p s = (Inr u, s')"
  shows "\<exists>X'. gop_sent e (ps @ [p]) False X' s'"
proof -
  have fr: "frame p" using assms(2,3) by simp
  show ?thesis
  proof (cases "is_key h")
    case True
    obtain u1 s1 where o: "gop_new_stream (Inr new_writer) s = (Inr u1, s1)" "gop_write_media h payload s1 = (Inr u, s')"
      using assms(2,3,7) True by (auto split: prod.splits sum.splits)
    from assms(1) fr assms(6) o(1) show ?thesis
    proof (cases rule: gop_sent_opened)
      case (1 g w)
      from gop_write_media_ok [OF 1(1,2)] assms(2,5) o(2)
      have "s' = s1\<lparr>gs_current := Some (w\<lparr>wout := wout w @ av_enc p\<rparr>)\<rparr>" by simp
      with gop_sent_append [OF 1(3) fr 1(1)] show ?thesis by blast
    qed
  next
    case False
    then have w: "gop_write_media h payload s = (Inr u, s')" using assms(2,3,7) by simp
    show ?thesis
    proof (cases "gs_current s")
      case None
      then have "s' = s" "X = []" using w assms(1) by (simp_all add: gop_write_media_def gop_sent_def)
      with assms(1) frame_plain [OF fr] show ?thesis by (intro exI [of _ "[]"]) (simp add: gop_sent_def)
    next
      case (Some wr)
      then have "wcap wr = None" using assms(1) by (simp add: gop_sent_def)
      with gop_write_media_ok [OF Some] assms(2,5) w
      have s': "s' = s\<lparr>gs_current := Some (wr\<lparr>wout := wout wr @ av_enc p\<rparr>)\<rparr>" by simp
      have "map (\<lambda>x. put_u16 e @ gop_bytes x) X \<noteq> []" using assms(1) Some by (auto simp: gop_sent_def gop_written_def)
      then obtain Y g qs where X: "X = Y @ [(g, qs)]" by (cases X rule: rev_cases) auto
      have "\<not> fresh" using assms(4) False by simp
      with gop_sent_append [of e ps Y g qs s p wr] assms(1) X fr Some s' show ?thesis by auto
    qed
  qed
qed

lemma gop_send_all_sent:
  assumes "gop_sent e ps fresh X s" "keyed fresh qs" "\<forall>q \<in> set (ps @ qs). av_valid q"
    and "gop_send_all qs s = (Inr (), s')"
  shows "\<exists>fresh X. gop_sent e (ps @ qs) fresh X s' \<and> (\<forall>h. Hole h \<notin> set qs)"
  using assms
proof (induction qs arbitrary: ps fresh X s)
  case (Cons p qs)
  obtain u s1 where p: "gop_send (Inr new_writer) p s = (Inr u, s1)" "gop_send_all qs s1 = (Inr (), s')"
    using Cons.prems(4) by (auto split: prod.splits sum.splits)
  have np: "\<forall>h. p \<noteq> Hole h" using p(1) by auto
  have "\<exists>fresh' X'. gop_sent e (ps @ [p]) fresh' X' s1 \<and> keyed fresh' qs"
  proof (cases "frame p")
    case True
    then obtain h payload where m: "p = Media h payload" "\<not> is_config h" by (cases p) auto
    have "\<exists>X'. gop_sent e (ps @ [p]) False X' s1"
      by (rule gop_sent_frame [OF Cons.prems(1) m _ _ _ p(1)]) (use Cons.prems(2,3) m in auto)
    with Cons.prems(2) m show ?thesis by auto
  next
    case False
    have "keyed True qs" using Cons.prems(2) False np by (cases p) auto
    with gop_sent_plain [OF Cons.prems(1) False np p(1)] show ?thesis by blast
  qed
  then obtain fresh' X' where "gop_sent e (ps @ [p]) fresh' X' s1" "keyed fresh' qs" by blast
  from Cons.IH [OF this _ p(2)] Cons.prems(3) np show ?case by auto
qed auto

lemma codecs_length: "length (codecs ps) \<le> length ps" "length (configs ps) \<le> length ps"
  by (induction ps rule: codecs.induct) auto

lemma gop_new_stream_written:
  "length (gop_written (snd (gop_new_stream opened s))) \<le> Suc (length (gop_written s))"
  by (simp add: gop_new_stream_def gop_written_def Let_def split: sum.split prod.split option.split)

lemma gop_write_media_written: "length (gop_written (snd (gop_write_media h payload s))) = length (gop_written s)"
  by (simp add: gop_write_media_def gop_written_def split: sum.split prod.split option.split)

lemma gop_send_written: "length (gop_written (snd (gop_send opened p s))) \<le> Suc (length (gop_written s))"
proof (cases p)
  case (Media h payload)
  then show ?thesis
    using gop_new_stream_written [of opened s] gop_write_media_written [of h payload]
    by (cases "gop_new_stream opened s") (auto simp: gop_written_def split: sum.split)
qed (auto simp: gop_written_def)

lemma gop_send_all_written:
  "gop_send_all ps s = (r, s') \<Longrightarrow> length (gop_written s') \<le> length (gop_written s) + length ps"
proof (induction ps arbitrary: s)
  case (Cons p ps)
  obtain u s1 where u: "gop_send (Inr new_writer) p s = (u, s1)" by (cases "gop_send (Inr new_writer) p s")
  with gop_send_written [of "Inr new_writer" p s] Cons show ?case by (cases u) force+
qed simp

lemma gop_frames_prefix:
  assumes "prefix qs ps" shows "subseq (gop_frames (g, qs)) (gop_frames (g, ps))"
proof (cases "(g, qs)" rule: gop_frames.cases)
  case (1 g c h payload ms)
  then obtain ns where "ps = Codec c # Media h payload # ms @ ns" using assms by (auto simp: prefix_def)
  with 1 show ?thesis by (simp add: list_emb_prefix)
qed auto

lemma subseq_concat_pointwise:
  "\<forall>x \<in> set xs. subseq (h x) (k x) \<Longrightarrow> subseq (concat (map h xs)) (concat (map k xs))"
  by (induction xs) (auto intro: list_emb_append_mono)

lemma gop_followed_frames:
  assumes "gop_followed (set X) xs" "map (\<lambda>x. g_id (fst x)) X = map of_nat [0..<length X]" "length X < 2 ^ 32"
  shows "subseq (concat (map gop_frames xs)) (concat (map gop_frames X))"
proof -
  have at: "unat (g_id (fst x)) < length X \<and> subseq (gop_frames x) (gop_frames (X ! unat (g_id (fst x))))"
    if x: "x \<in> set xs" for x
  proof -
    obtain ps where ps: "(fst x, ps) \<in> set X" "prefix (snd x) ps"
      using assms(1) x unfolding gop_followed_def by blast
    then obtain i where i: "i < length X" "X ! i = (fst x, ps)" by (auto simp: in_set_conv_nth)
    have "g_id (fst (X ! i)) = of_nat i" using i(1) arg_cong [OF assms(2), of "\<lambda>l. l ! i"] by simp
    then have "unat (g_id (fst x)) = i" using i assms(3) by (simp add: unsigned_of_nat take_bit_nat_eq_self)
    with i gop_frames_prefix [OF ps(2), of "fst x"] show ?thesis by simp
  qed
  let ?is = "map (\<lambda>x. unat (g_id (fst x))) xs"
  have "sorted_wrt (<) (map (\<lambda>x. g_id (fst x)) xs)" using assms(1) by (simp add: gop_followed_def)
  then have "sorted_wrt (<) ?is" unfolding sorted_wrt_map
    by (rule sorted_wrt_mono_rel [rotated]) (simp add: word_less_nat_alt)
  then have "subseq (map ((!) X) ?is) X" using at by (intro subseq_nth) auto
  from subseq_concat_map [OF this, of gop_frames]
  have "subseq (concat (map (\<lambda>x. gop_frames (X ! unat (g_id (fst x)))) xs)) (concat (map gop_frames X))"
    by (simp add: comp_def)
  moreover have "subseq (concat (map gop_frames xs)) (concat (map (\<lambda>x. gop_frames (X ! unat (g_id (fst x)))) xs))"
    using at by (intro subseq_concat_pointwise) blast
  ultimately show ?thesis by (rule subseq_order.trans [rotated])
qed

text \<open>
  C24: The stream-per-GOP protocol delivers what was sent, for a producer whose first frame after every
  new codec or config is a key frame (\<open>keyed\<close>). The sender does not enforce this: a frame that is no
  key frame goes to the current stream, which starts with the codec and config of its key frame. For such a
  producer, and fewer than \<open>2 ^ 32 - 1\<close> packets, streams may arrive in any order, be cut
  off anywhere or get lost, and the tasks of the receiver may interleave in any way: the frames
  the client receives are a subsequence of the frames that were sent, and each of them comes after exactly
  the codec and the config it was sent under. The receiver does not panic.
\<close>

theorem gop_end_to_end:
  assumes "\<forall>p \<in> set ps. av_valid p" "keyed False ps" "length ps < 2 ^ 32 - 1"
    and "gop_send_all ps (gop_send_start e) = (Inr (), s)"
    and "\<forall>r \<in> set rs. \<exists>bs \<in> set (gop_written s). \<exists>n. rbuf r = take n (drop 2 bs)"
    and "gop_step\<^sup>*\<^sup>* (gop_world_start rs) w"
  shows "\<not> gw_panic w \<and> subseq (contexts None None (gw_out w)) (contexts None None ps)"
proof -
  have "gop_sent e [] False [] (gop_send_start e)" by (simp add: gop_sent_def gop_send_start_def gop_written_def)
  from gop_send_all_sent [OF this assms(2) _ assms(4)] assms(1)
  obtain fresh X where X: "gop_sent e ps fresh X s" "\<forall>h. Hole h \<notin> set ps" by auto
  have wr: "gop_written s = map (\<lambda>x. put_u16 e @ gop_bytes x) X"
    and ids: "map (\<lambda>x. g_id (fst x)) X = map of_nat [0..<length X]"
    and st: "\<forall>x \<in> set X. sent_stream (codecs ps) (configs ps) x \<and> (\<forall>p \<in> set (snd x). p \<in> set ps)"
    and sub: "subseq (concat (map gop_frames X)) (contexts None None ps)"
    using X(1) unfolding gop_sent_def by blast+
  have "gop_written (gop_send_start e) = []" by (simp add: gop_send_start_def gop_written_def)
  then have "length (gop_written s) \<le> length ps" using gop_send_all_written [OF assms(4)] by simp
  then have len: "length X < 2 ^ 32" using assms(3) wr by simp
  have ok: "streams_ok (set X)" using st X(2) assms(1) by (force simp: streams_ok_def)
  have un: "\<forall>r \<in> set rs. unread (set X) r" using assms(5) wr by (fastforce simp: unread_def)
  obtain xs where np: "\<not> gw_panic w" and xs: "gop_followed (set X) xs" "gw_out w = fst (gop_follow xs gop_recv_start)"
    using gop_refines [OF ok un assms(6)] by blast
  have pre: "\<forall>x \<in> set xs. \<exists>qs. sent_stream (codecs ps) (configs ps) (fst x, qs) \<and> prefix (snd x) qs"
    using xs(1) st unfolding gop_followed_def by blast
  have "contexts None None (gw_out w) = concat (map gop_frames xs)"
    unfolding xs(2) using codecs_length [of ps] assms(3)
    by (intro gop_follow_contexts [OF _ _ pre]) (simp_all add: stands_for_def gop_recv_start_def)
  with gop_followed_frames [OF xs(1) ids len] sub np show ?thesis by (simp add: subseq_order.trans)
qed

text \<open>A stream that arrives alone and complete is delivered completely.\<close>

lemma gop_delivers_rest:
  assumes "gw_queue w = []" "gw_readers w = [(r, g_id g)]" "gr_gop (gw_recv w) = Some g" "\<not> gw_panic w"
    and "rbuf r = concat (map av_enc ps)" "\<forall>p \<in> set ps. av_valid p \<and> (\<forall>h. p \<noteq> Hole h)"
  shows "\<exists>w'. gop_step\<^sup>*\<^sup>* w w' \<and> gw_out w' = gw_out w @ fst (gop_feed g ps (gw_recv w))"
  using assms
proof (induction ps arbitrary: w r)
  case (Cons p ps)
  let ?r = "r\<lparr>rbuf := concat (map av_enc ps)\<rparr>"
  have "read_packets_round r (g_id g) = Some (NewPacket p (g_id g), ?r)"
    using Cons.prems(5,6) av_read_enc [of p r "concat (map av_enc ps)"]
    by (simp add: read_packets_round_def read_packet_def)
  then have 1: "gop_step w (w\<lparr>gw_readers := [(?r, g_id g)], gw_queue := [NewPacket p (g_id g)]\<rparr>)"
    using gop_step.read [of w "[]" r "g_id g" "[]"] Cons.prems(1,2) by simp
  obtain a s1 where a: "gop_packet g p (gw_recv w) = (a, s1)" by (cases "gop_packet g p (gw_recv w)")
  have "\<forall>h. p \<noteq> Hole h" using Cons.prems(6) by simp
  then have "a = GSkip \<or> a = GReturn p" using a by (auto simp: gop_packet_def split: av_packet.splits if_splits)
  let ?w = "w\<lparr>gw_readers := [(?r, g_id g)], gw_queue := [], gw_recv := s1, gw_out := gw_out w @ gop_returned a\<rparr>"
  have "gop_step (w\<lparr>gw_readers := [(?r, g_id g)], gw_queue := [NewPacket p (g_id g)]\<rparr>) ?w"
    using gop_step.handle [of "w\<lparr>gw_readers := [(?r, g_id g)], gw_queue := [NewPacket p (g_id g)]\<rparr>"
        "NewPacket p (g_id g)" "[]"] a \<open>a = GSkip \<or> a = GReturn p\<close> Cons.prems(3,4)
    by (auto simp: gop_perform_def gop_returned_def)
  with 1 have "gop_step\<^sup>*\<^sup>* w ?w" by (meson converse_rtranclp_into_rtranclp rtranclp.rtrancl_refl)
  moreover obtain w' where "gop_step\<^sup>*\<^sup>* ?w w'" "gw_out w' = gw_out ?w @ fst (gop_feed g ps (gw_recv ?w))"
    using Cons.IH [of ?w ?r] Cons.prems gop_packet_gop [OF a] by auto
  ultimately show ?case using a by (intro exI [of _ w']) (auto simp: split_beta)
qed auto

lemma gop_delivers:
  assumes "\<forall>p \<in> set ps. av_valid p \<and> (\<forall>h. p \<noteq> Hole h)" "rbuf r = gop_bytes (g, ps)"
  shows "\<exists>w. gop_step\<^sup>*\<^sup>* (gop_world_start [r]) w \<and> gw_out w = fst (gop_follow [(g, ps)] gop_recv_start)"
proof -
  let ?w0 = "gop_world_start [r]" and ?r = "r\<lparr>rbuf := concat (map av_enc ps)\<rparr>"
  let ?w1 = "?w0\<lparr>gw_waiting := [], gw_queue := [NewStream r]\<rparr>"
  let ?w2 = "?w0\<lparr>gw_waiting := [], gw_ids := [r]\<rparr>"
  let ?w3 = "?w0\<lparr>gw_waiting := [], gw_queue := [StreamIds ?r g]\<rparr>"
  let ?w4 = "?w0\<lparr>gw_waiting := [], gw_recv := gop_recv_start\<lparr>gr_gop := Some g\<rparr>, gw_readers := [(?r, g_id g)]\<rparr>"
  have ids: "read_stream_ids r = Inr (StreamIds ?r g)"
    using assms(2) read_exact_append [of r "gop_ids (g_id g) (g_codec_gen g) (g_config_gen g)" _ 12]
    by (cases g) (simp add: read_stream_ids_def gop_bytes_def gop_ids_def)
  have "gop_step ?w0 ?w1" using gop_step.accept [of ?w0 "[]" r "[]"] by (simp add: gop_world_start_def)
  moreover have "gop_step ?w1 ?w2"
    using gop_step.handle [of ?w1 "NewStream r" "[]"] by (simp add: gop_world_start_def gop_perform_def)
  moreover have "gop_step ?w2 ?w3" using gop_step.ids [of ?w2 "[]" r "[]", OF _ ids] by (simp add: gop_world_start_def)
  moreover have "gop_step ?w3 ?w4"
    using gop_step.handle [of ?w3 "StreamIds ?r g" "[]"]
    by (simp add: gop_world_start_def gop_perform_def gop_recv_start_def)
  ultimately have 4: "gop_step\<^sup>*\<^sup>* ?w0 ?w4"
    by (meson converse_rtranclp_into_rtranclp rtranclp.rtrancl_refl)
  have "\<exists>w. gop_step\<^sup>*\<^sup>* ?w4 w \<and> gw_out w = gw_out ?w4 @ fst (gop_feed g ps (gw_recv ?w4))"
    by (rule gop_delivers_rest [of _ ?r]) (use assms in \<open>simp_all add: gop_world_start_def\<close>)
  then obtain w where "gop_step\<^sup>*\<^sup>* ?w4 w" "gw_out w = fst (gop_feed g ps (gop_recv_start\<lparr>gr_gop := Some g\<rparr>))"
    by (auto simp: gop_world_start_def)
  with 4 show ?thesis by (intro exI [of _ w]) (simp add: split_beta)
qed

definition sample_codec :: av_packet where
  "sample_codec = Codec \<lparr>codec = 7, rotation = 0, frame_size = 0\<rparr>"
definition sample_gop_config :: av_packet where
  "sample_gop_config = Media \<lparr>is_config = True, is_key = False, pts = 0, msize = 1\<rparr> [9]"
definition sample_key :: av_packet where
  "sample_key = Media \<lparr>is_config = False, is_key = True, pts = 5, msize = 2\<rparr> [1, 2]"

lemmas sample_gop_defs = sample_codec_def sample_gop_config_def sample_key_def

lemma sample_gop_send:
  "\<exists>s. gop_send_all [sample_codec, sample_gop_config, sample_key] (gop_send_start 3) = (Inr (), s)
     \<and> gop_written s = [put_u16 3 @ gop_bytes (\<lparr>g_id = 0, g_codec_gen = 1, g_config_gen = 1\<rparr>,
          [sample_codec, sample_gop_config, sample_key])]"
  by (simp add: sample_gop_defs gop_send_start_def gop_new_stream_def gop_preamble_def codec_serialize_bytes
      media_serialize_bytes open_uni_def write_endpoint_id_def new_writer_def flush_def write_all_def
      gop_write_media_def gop_written_def gop_bytes_def)

theorem gop_end_to_end_witness:
  "\<exists>s w. gop_send_all [sample_codec, sample_gop_config, sample_key] (gop_send_start 3) = (Inr (), s)
     \<and> gop_step\<^sup>*\<^sup>* (gop_world_start [\<lparr>rbuf = drop 2 (gop_written s ! 0), rerr = None\<rparr>]) w
     \<and> gw_out w = [sample_codec, sample_gop_config, sample_key]
     \<and> subseq (contexts None None (gw_out w)) (contexts None None [sample_codec, sample_gop_config, sample_key])"
proof -
  let ?ps = "[sample_codec, sample_gop_config, sample_key]"
  let ?g = "\<lparr>g_id = 0, g_codec_gen = 1, g_config_gen = 1\<rparr> :: gop"
  obtain s where s: "gop_send_all ?ps (gop_send_start 3) = (Inr (), s)"
    "gop_written s = [put_u16 3 @ gop_bytes (?g, ?ps)]" using sample_gop_send by blast
  let ?r = "\<lparr>rbuf = drop 2 (gop_written s ! 0), rerr = None\<rparr>"
  have v: "\<forall>p \<in> set ?ps. av_valid p \<and> (\<forall>h. p \<noteq> Hole h)" by (simp add: sample_gop_defs)
  have "rbuf ?r = gop_bytes (?g, ?ps)" using s(2) by simp
  from gop_delivers [OF v this] obtain w where w: "gop_step\<^sup>*\<^sup>* (gop_world_start [?r]) w"
    "gw_out w = fst (gop_follow [(?g, ?ps)] gop_recv_start)" by blast
  have out: "gw_out w = ?ps"
    unfolding w(2) by (simp add: sample_gop_defs gop_recv_start_def gop_packet_def gop_returned_def)
  have k: "keyed False ?ps" "length ?ps < 2 ^ 32 - 1" by (simp_all add: sample_gop_defs)
  have "\<forall>r \<in> set [?r]. \<exists>bs \<in> set (gop_written s). \<exists>n. rbuf r = take n (drop 2 bs)"
    using s(2) by (auto intro: exI [of _ "length (gop_bytes (?g, ?ps))"])
  from gop_end_to_end [OF _ k s(1) this w(1)] v s(1) w(1) out show ?thesis by blast
qed

end
