(* ===== verification/Segments.thy ===== *)
theory Segments
  imports Receiver Channel
begin

text \<open>
  Packets cut into numbered datagrams, as the drivers without forward error correction send
  them (\<open>driver/av/video_unreliable.rs\<close> and, with the same code, \<open>driver/av/audio_unreliable.rs\<close>):
  the cutting, the buffer that puts the segments of one packet together, and the pending packets
  of one group.
\<close>

section \<open>Cutting a packet\<close>

text \<open>
  The loop of \<open>send_datagrams\<close> over what is left of the packet: the number of the datagram, the
  flag of the last one, the payload. The model's room is positive.
\<close>

fun cut_segments :: "nat \<Rightarrow> nat \<Rightarrow> bytes \<Rightarrow> (nat \<times> bool \<times> bytes) list" where
  "cut_segments room n data =
     (if data = [] \<or> room = 0 then []
      else (n, length data \<le> room, take room data) # cut_segments room (Suc n) (drop room data))"

declare cut_segments.simps [simp del]

text \<open>The number of a datagram and the flag of the last one share a word.\<close>

definition number_and_end :: "nat \<Rightarrow> bool \<Rightarrow> u32" where
  "number_and_end n last_one = (of_nat n :: u32) OR (if last_one then push_bit 31 1 else 0)"

definition datagram_number :: "u32 \<Rightarrow> nat" where
  "datagram_number w = unat (w AND (push_bit 31 1 - 1))"

definition datagram_end :: "u32 \<Rightarrow> bool" where
  "datagram_end w = (w AND push_bit 31 1 \<noteq> 0)"

section \<open>The segments of one packet\<close>

record seg_buffer =
  sb_seq :: u64
  sb_total :: "nat option"
  sb_slots :: "bytes option list"
  sb_count :: nat
  sb_bytes :: nat

record seg_packet =
  sp_packet :: av_packet
  sp_seq :: u64
  sp_instant :: instant

definition seg_new :: "u64 \<Rightarrow> seg_buffer" where
  "seg_new k = \<lparr>sb_seq = k, sb_total = None, sb_slots = [], sb_count = 0, sb_bytes = 0\<rparr>"

definition seg_is_complete :: "seg_buffer \<Rightarrow> bool" where
  "seg_is_complete s = (sb_total s = Some (sb_count s))"

fun merge_segments :: "bytes option list \<Rightarrow> bytes result" where
  "merge_segments [] = Inr []"
| "merge_segments (None # xs) = Inl (Panic ''Unexpected None segment'')"
| "merge_segments (Some x # xs) = and_then (merge_segments xs) (\<lambda>ys. Inr (x @ ys))"

definition set_segment :: "nat \<Rightarrow> bytes \<Rightarrow> bool \<Rightarrow> seg_buffer \<Rightarrow> seg_buffer result" where
  "set_segment i segment last_one s =
     (let s1 = (if i \<ge> length (sb_slots s)
                then s\<lparr>sb_slots := sb_slots s @ replicate (i + 1 - length (sb_slots s)) None\<rparr> else s)
      in case sb_slots s1 ! i of
           None \<Rightarrow>
             let s2 = s1\<lparr>sb_bytes := sb_bytes s1 + length segment, sb_slots := (sb_slots s1)[i := Some segment],
                         sb_count := sb_count s1 + 1\<rparr>
             in if last_one
                then and_then (assert_that (sb_total s2 = None) ''self.total_segments.is_none()'') (\<lambda>_.
                     Inr (s2\<lparr>sb_total := Some (i + 1)\<rparr>))
                else Inr s2
         | Some _ \<Rightarrow> Inr s1)"

definition seg_assemble :: "instant \<Rightarrow> seg_buffer \<Rightarrow> seg_packet result" where
  "seg_assemble now s =
     and_then (assert_that (seg_is_complete s) ''self.is_complete()'') (\<lambda>_.
     and_then (merge_segments (sb_slots s)) (\<lambda>data.
     if length data < SERIALIZED_SIZE then Inl (Panic ''range end index out of range'')
     else and_then (media_deserialize (take SERIALIZED_SIZE data)) (\<lambda>header.
          Inr \<lparr>sp_packet = Media header (drop SERIALIZED_SIZE data), sp_seq = sb_seq s, sp_instant = now\<rparr>)))"

section \<open>The pending packets of one group\<close>

record pgroup =
  pg_config :: config_packet
  pg_datagrams :: "seg_packet list"
  pg_segments :: "seg_buffer list"

definition pg_new :: pgroup where
  "pg_new = \<lparr>pg_config = CNone, pg_datagrams = [], pg_segments = []\<rparr>"

definition pg_insert_stream_packet :: "u64 \<Rightarrow> av_packet \<Rightarrow> pgroup \<Rightarrow> pgroup result" where
  "pg_insert_stream_packet k packet g =
     and_then (assert_that (config_is_none (pg_config g)) ''config_packet.is_none()'') (\<lambda>_.
     Inr (g\<lparr>pg_config := CReady packet k\<rparr>))"

definition pg_prepare_segments :: "u64 \<Rightarrow> pgroup \<Rightarrow> nat \<times> pgroup" where
  "pg_prepare_segments k g =
     (case binary_search_by_key sb_seq k (pg_segments g) of
        Inr i \<Rightarrow> (i, g)
      | Inl i \<Rightarrow> (i, g\<lparr>pg_segments := insert_at i (seg_new k) (pg_segments g)\<rparr>))"

definition pg_insert_packet :: "seg_packet \<Rightarrow> pgroup \<Rightarrow> pgroup" where
  "pg_insert_packet d g =
     (case binary_search_by_key sp_seq (sp_seq d) (pg_datagrams g) of
        Inl i \<Rightarrow> g\<lparr>pg_datagrams := insert_at i d (pg_datagrams g)\<rparr>
      | Inr _ \<Rightarrow> g)"

definition pg_insert_datagram ::
  "instant \<Rightarrow> u64 \<Rightarrow> nat \<Rightarrow> bool \<Rightarrow> bytes \<Rightarrow> pgroup \<Rightarrow> pgroup result" where
  "pg_insert_datagram now k n last_one data g =
     (case binary_search_by_key sp_seq k (pg_datagrams g) of
        Inr _ \<Rightarrow> Inr g
      | Inl _ \<Rightarrow>
          let (i, g1) = pg_prepare_segments k g in
          and_then (set_segment n data last_one (pg_segments g1 ! i)) (\<lambda>s.
          if seg_is_complete s
          then and_then (seg_assemble now s) (\<lambda>d.
               Inr (pg_insert_packet d (g1\<lparr>pg_segments := remove_at i (pg_segments g1)\<rparr>)))
          else Inr (g1\<lparr>pg_segments := (pg_segments g1)[i := s]\<rparr>)))"

definition pg_drop_expired :: "u64 \<Rightarrow> pgroup \<Rightarrow> pgroup" where
  "pg_drop_expired k g =
     (let i = (case binary_search_by_key sb_seq k (pg_segments g) of Inr i \<Rightarrow> i | Inl i \<Rightarrow> i) in
      g\<lparr>pg_segments := drop i (pg_segments g)\<rparr>)"

text \<open>Taking the config or the first packet, once one of them is known to be ready.\<close>

definition pg_take_config :: "pgroup \<Rightarrow> (u64 \<times> av_packet \<times> pgroup) result" where
  "pg_take_config g =
     (case pg_config g of
        CReady packet k \<Rightarrow> Inr (k, packet, g\<lparr>pg_config := CSent\<rparr>)
      | _ \<Rightarrow> Inl (Panic ''assertion failed: config_packet.is_ready()''))"

definition pg_take_datagram :: "pgroup \<Rightarrow> (u64 \<times> av_packet \<times> pgroup) result" where
  "pg_take_datagram g =
     (case pg_datagrams g of
        [] \<Rightarrow> Inl (Panic ''Expected a pending datagram'')
      | d # ds \<Rightarrow> Inr (sp_seq d, sp_packet d, pg_drop_expired (sp_seq d) (g\<lparr>pg_datagrams := ds\<rparr>)))"

end
