(* ===== verification/Segments_Props.thy ===== *)
theory Segments_Props
  imports Segments
begin

text \<open>
  Segments of a packet can arrive in any order and more than once: the buffer never panics on
  them, is complete exactly when all have arrived, and then gives the packet back. The same for a
  whole group of pending packets.
\<close>

section \<open>Numbers of datagrams\<close>

lemma number_bits:
  assumes "n < 2 ^ 31"
  shows "bit (of_nat n :: u32) 31 = False" "bit (of_nat n :: u32) i \<Longrightarrow> i < 31"
proof -
  have "bit (of_nat n :: u32) i \<longleftrightarrow> bit n i \<and> i < 32" for i by (auto simp: bit_of_nat_iff)
  moreover have "\<not> bit n i" if "31 \<le> i" for i
  proof -
    have "n < 2 ^ i" using assms that by (meson less_le_trans one_le_numeral power_increasing)
    then show ?thesis by (simp add: bit_iff_odd)
  qed
  ultimately show "bit (of_nat n :: u32) 31 = False" "bit (of_nat n :: u32) i \<Longrightarrow> i < 31"
    by (auto simp: not_le [symmetric])
qed

lemma bit_flag32: "k < 32 \<Longrightarrow> bit (push_bit k 1 :: u32) i \<longleftrightarrow> i = k"
  by (auto simp: bit_simps)

lemma number_roundtrip:
  assumes "n < 2 ^ 31"
  shows "datagram_number (number_and_end n e) = n" "datagram_end (number_and_end n e) = e"
proof -
  define fl where "fl = (push_bit 31 1 :: u32)"
  have f: "bit fl i \<longleftrightarrow> i = 31" for i unfolding fl_def by (rule bit_flag32) simp
  have m: "fl - 1 = mask 31" by (simp add: fl_def mask_eq_exp_minus_1 push_bit_eq_mult)
  have w: "number_and_end n e = of_nat n OR (if e then fl else 0)" by (simp add: number_and_end_def fl_def)
  have "(of_nat n OR (if e then fl else 0)) AND mask 31 = (of_nat n :: u32)"
    by (rule bit_eqI) (use number_bits [OF assms] in \<open>auto simp: bit_and_iff bit_or_iff bit_mask_iff f\<close>)
  then have "datagram_number (number_and_end n e) = unat (of_nat n :: u32)"
    unfolding datagram_number_def fl_def [symmetric] m w by (rule arg_cong)
  then show "datagram_number (number_and_end n e) = n" using assms by (simp add: unsigned_of_nat take_bit_nat_eq_self)
  have "bit (number_and_end n e) 31 \<longleftrightarrow> e" unfolding w using number_bits [OF assms] by (auto simp: bit_or_iff f)
  then show "datagram_end (number_and_end n e) = e"
    unfolding datagram_end_def bit_iff_and_push_bit_not_eq_0 .
qed

section \<open>Cutting\<close>

text \<open>The pieces of a packet, and the segments as numbered pieces.\<close>

fun pieces :: "nat \<Rightarrow> bytes \<Rightarrow> bytes list" where
  "pieces room data = (if data = [] \<or> room = 0 then [] else take room data # pieces room (drop room data))"

declare pieces.simps [simp del]

lemma pieces_Nil: "pieces room [] = []"
  by (simp add: pieces.simps)

lemma pieces_concat: "0 < room \<Longrightarrow> concat (pieces room data) = data"
  by (induction room data rule: pieces.induct) (subst pieces.simps, auto simp: pieces_Nil)

lemma pieces_nonempty: "0 < room \<Longrightarrow> data \<noteq> [] \<Longrightarrow> pieces room data \<noteq> []"
  by (subst pieces.simps) simp

lemma cut_segments_pieces:
  assumes "0 < room"
  shows "cut_segments room n data
    = map (\<lambda>i. (n + i, Suc i = length (pieces room data), pieces room data ! i)) [0..<length (pieces room data)]"
proof (induction room data arbitrary: n rule: pieces.induct)
  case (1 room data)
  show ?case
  proof (cases "data = [] \<or> room = 0")
    case True
    then have "pieces room data = []" by (subst pieces.simps) simp
    with True show ?thesis by (subst cut_segments.simps) simp
  next
    case False
    have p: "pieces room data = take room data # pieces room (drop room data)" using False by (subst pieces.simps) simp
    have e: "length data \<le> room \<longleftrightarrow> pieces room (drop room data) = []"
      using False pieces_nonempty [of room "drop room data"] by (auto simp: pieces_Nil)
    have s: "[0..<Suc m] = 0 # map Suc [0..<m]" for m
      using upt_conv_Cons [of 0 "Suc m"] map_Suc_upt [of 0 m] by (simp del: upt_Suc)
    define ps where "ps = pieces room (drop room data)"
    have "cut_segments room n data = (n, length data \<le> room, take room data) # cut_segments room (Suc n) (drop room data)"
      using False by (subst cut_segments.simps) simp
    also have "\<dots> = (n, ps = [], take room data)
        # map (\<lambda>i. (Suc n + i, Suc i = length ps, ps ! i)) [0..<length ps]"
      unfolding 1 [OF False, of "Suc n"] e ps_def ..
    also have "\<dots> = map (\<lambda>i. (n + i, Suc i = length (take room data # ps), (take room data # ps) ! i))
        [0..<length (take room data # ps)]"
      unfolding length_Cons s by simp
    finally show ?thesis unfolding p ps_def .
  qed
qed

section \<open>The buffer\<close>

text \<open>A buffer that holds some of the pieces \<open>cs\<close>.\<close>

definition seg_wf :: "bytes list \<Rightarrow> seg_buffer \<Rightarrow> bool" where
  "seg_wf cs s \<longleftrightarrow>
     length (sb_slots s) \<le> length cs
     \<and> (\<forall>i < length (sb_slots s). sb_slots s ! i = None \<or> sb_slots s ! i = Some (cs ! i))
     \<and> sb_count s = length (filter (\<lambda>x. x \<noteq> None) (sb_slots s))
     \<and> sb_total s = (if sb_slots s \<noteq> [] \<and> length (sb_slots s) = length cs \<and> last (sb_slots s) \<noteq> None
                     then Some (length cs) else None)"

lemma seg_new_wf: "seg_wf cs (seg_new k)"
  by (simp add: seg_wf_def seg_new_def)

lemma filter_update_count:
  "i < length xs \<Longrightarrow> xs ! i = None \<Longrightarrow>
     length (filter (\<lambda>x. x \<noteq> None) (xs[i := Some y])) = Suc (length (filter (\<lambda>x. x \<noteq> None) xs))"
proof (induction xs arbitrary: i)
  case (Cons x xs)
  then show ?case by (cases i) auto
qed simp

lemma seg_complete_iff:
  assumes "seg_wf cs s" "cs \<noteq> []"
  shows "seg_is_complete s \<longleftrightarrow> sb_slots s = map Some cs"
proof
  assume "seg_is_complete s"
  then have l: "length (sb_slots s) = length cs" and c: "length (filter (\<lambda>x. x \<noteq> None) (sb_slots s)) = length cs"
    using assms(1) by (auto simp: seg_is_complete_def seg_wf_def split: if_splits)
  have "x \<noteq> None" if "x \<in> set (sb_slots s)" for x
    using length_filter_less [OF that, of "\<lambda>x. x \<noteq> None"] l c by auto
  with assms(1) l show "sb_slots s = map Some cs"
    by (intro nth_equalityI) (auto simp: seg_wf_def all_set_conv_all_nth)
next
  assume "sb_slots s = map Some cs"
  moreover have "length (filter (\<lambda>x. x \<noteq> None) (map Some cs)) = length cs" by (simp add: comp_def)
  ultimately show "seg_is_complete s" using assms unfolding seg_is_complete_def seg_wf_def by (simp add: last_map)
qed

lemma merge_segments_Some: "merge_segments (map Some cs) = Inr (concat cs)"
  by (induction cs) auto

definition filled :: "seg_buffer \<Rightarrow> nat set" where
  "filled s = {i. i < length (sb_slots s) \<and> sb_slots s ! i \<noteq> None}"

lemma seg_complete_filled:
  assumes "seg_wf cs s" "cs \<noteq> []"
  shows "seg_is_complete s \<longleftrightarrow> filled s = {..<length cs}"
proof
  assume "seg_is_complete s"
  then show "filled s = {..<length cs}" using seg_complete_iff [OF assms] by (auto simp: filled_def)
next
  assume f: "filled s = {..<length cs}"
  have all: "i < length (sb_slots s) \<and> sb_slots s ! i \<noteq> None" if "i < length cs" for i
    using that f by (auto simp: filled_def)
  from all [of "length cs - 1"] assms have l: "length (sb_slots s) = length cs"
    by (cases cs) (auto simp: seg_wf_def)
  have "sb_slots s ! i = Some (cs ! i)" if "i < length cs" for i
  proof -
    have "\<forall>i < length (sb_slots s). sb_slots s ! i = None \<or> sb_slots s ! i = Some (cs ! i)"
      using assms(1) by (simp add: seg_wf_def)
    with all [OF that] show ?thesis by metis
  qed
  then have "sb_slots s = map Some cs" using l by (intro nth_equalityI) simp_all
  then show "seg_is_complete s" using seg_complete_iff [OF assms] by simp
qed

text \<open>Room for one more segment.\<close>

definition seg_grown :: "nat \<Rightarrow> seg_buffer \<Rightarrow> seg_buffer" where
  "seg_grown n s = (if n \<ge> length (sb_slots s)
     then s\<lparr>sb_slots := sb_slots s @ replicate (n + 1 - length (sb_slots s)) None\<rparr> else s)"

lemma pad_positions:
  "{i. i < length (xs @ replicate m None) \<and> (xs @ replicate m None) ! i \<noteq> None} = {i. i < length xs \<and> xs ! i \<noteq> None}"
proof -
  have "i < length (xs @ replicate m None) \<and> (xs @ replicate m None) ! i \<noteq> None \<longleftrightarrow> i < length xs \<and> xs ! i \<noteq> None" for i
    by (cases "i < length xs") (auto simp: nth_append)
  then show ?thesis by blast
qed

lemma seg_grown_slots: "sb_slots (seg_grown n s) = sb_slots s @ replicate (n + 1 - length (sb_slots s)) None"
  by (simp add: seg_grown_def)

lemma seg_grown_wf:
  assumes "seg_wf cs s" "n < length cs"
  shows "seg_wf cs (seg_grown n s)" "n < length (sb_slots (seg_grown n s))" "filled (seg_grown n s) = filled s"
    "sb_seq (seg_grown n s) = sb_seq s"
proof -
  show "seg_wf cs (seg_grown n s)"
    using assms by (auto simp: seg_wf_def seg_grown_def nth_append)
  show "n < length (sb_slots (seg_grown n s))" "sb_seq (seg_grown n s) = sb_seq s" by (auto simp: seg_grown_def)
  show "filled (seg_grown n s) = filled s" unfolding filled_def seg_grown_slots by (rule pad_positions)
qed

lemma last_update_other: "xs \<noteq> [] \<Longrightarrow> Suc n \<noteq> length xs \<Longrightarrow> last (xs[n := y]) = last xs"
  by (cases xs rule: rev_cases) (auto simp: list_update_append split: nat.splits)

lemma set_segment_ok:
  assumes "seg_wf cs s" "n < length cs"
  obtains s' where "set_segment n (cs ! n) (Suc n = length cs) s = Inr s'" "seg_wf cs s'" "sb_seq s' = sb_seq s"
    "filled s' = insert n (filled s)"
proof -
  define s1 where "s1 = seg_grown n s"
  note g = seg_grown_wf [OF assms, folded s1_def]
  have st: "set_segment n (cs ! n) (Suc n = length cs) s =
      (case sb_slots s1 ! n of
         None \<Rightarrow>
           let s2 = s1\<lparr>sb_bytes := sb_bytes s1 + length (cs ! n), sb_slots := (sb_slots s1)[n := Some (cs ! n)],
                       sb_count := sb_count s1 + 1\<rparr>
           in if Suc n = length cs
              then and_then (assert_that (sb_total s2 = None) ''self.total_segments.is_none()'') (\<lambda>_.
                   Inr (s2\<lparr>sb_total := Some (n + 1)\<rparr>))
              else Inr s2
       | Some _ \<Rightarrow> Inr s1)"
    unfolding set_segment_def seg_grown_def [symmetric] s1_def [symmetric] Let_def by simp
  show thesis
  proof (cases "sb_slots s1 ! n")
    case (Some x)
    with g st that [of s1] show thesis by (auto simp: filled_def insert_absorb)
  next
    case None
    let ?s2 = "s1\<lparr>sb_bytes := sb_bytes s1 + length (cs ! n), sb_slots := (sb_slots s1)[n := Some (cs ! n)],
                  sb_count := sb_count s1 + 1\<rparr>"
    let ?s' = "if Suc n = length cs then ?s2\<lparr>sb_total := Some (n + 1)\<rparr> else ?s2"
    have ne: "sb_slots s1 \<noteq> []" using g(2) by auto
    have tot: "sb_total s1 = None" if "Suc n = length cs"
    proof -
      have "last (sb_slots s1) = None" if "length (sb_slots s1) = length cs"
        using None \<open>Suc n = length cs\<close> that ne by (metis diff_Suc_1 last_conv_nth)
      with g(1) show ?thesis by (auto simp: seg_wf_def)
    qed
    with st None have 1: "set_segment n (cs ! n) (Suc n = length cs) s = Inr ?s'" by (simp add: Let_def)
    have "sb_total ?s' = (if length (sb_slots s1) = length cs \<and> last ((sb_slots s1)[n := Some (cs ! n)]) \<noteq> None
        then Some (length cs) else None)"
    proof (cases "Suc n = length cs")
      case True
      then have "length (sb_slots s1) = length cs" using g(1,2) by (simp add: seg_wf_def)
      with True [symmetric] ne show ?thesis by (simp add: last_list_update)
    next
      case False
      with g(1) ne show ?thesis by (simp add: seg_wf_def last_update_other)
    qed
    then have 2: "seg_wf cs ?s'"
      using g(1,2) None ne filter_update_count [OF g(2) None] by (auto simp: seg_wf_def nth_list_update)
    have "filled ?s' = insert n (filled s1)" using g(2) by (auto simp: filled_def nth_list_update)
    with that [OF 1 2] g(3,4) show thesis by simp
  qed
qed

lemma seg_assemble_ok:
  assumes "seg_wf cs s" "cs \<noteq> []" "seg_is_complete s" "concat cs = av_enc p" "av_valid p" "\<exists>h payload. p = Media h payload"
  shows "seg_assemble now s = Inr \<lparr>sp_packet = p, sp_seq = sb_seq s, sp_instant = now\<rparr>"
proof -
  have sl: "sb_slots s = map Some cs" using seg_complete_iff [OF assms(1,2)] assms(3) by simp
  obtain h payload where p: "p = Media h payload" using assms(6) by blast
  with assms(5) show ?thesis
  proof (cases rule: av_enc_split)
    case (1 hdr h' payload')
    then have "h' = MediaH h" "payload' = payload" using p by (cases h'; auto)+
    with 1 p have "media_deserialize hdr = Inr h" "length hdr = SERIALIZED_SIZE" "av_enc p = hdr @ payload"
      by (auto simp: av_header_deserialize_def and_then_eq_Inr split: if_splits)
    with sl assms(3,4) p show ?thesis by (simp add: seg_assemble_def merge_segments_Some)
  qed
qed

lemma av_enc_nonempty:
  assumes "av_valid (Media h payload)" shows "av_enc (Media h payload) \<noteq> []"
proof -
  have "length (put_u32 (msize h)) = 4" by simp
  with assms show ?thesis by (auto simp: media_serialize_bytes simp del: length_put)
qed

section \<open>Any order of arrival\<close>

fun feed_segments :: "(nat \<times> bool \<times> bytes) list \<Rightarrow> seg_buffer \<Rightarrow> seg_buffer result" where
  "feed_segments [] s = Inr s"
| "feed_segments ((n, e, data) # as) s = and_then (set_segment n data e s) (feed_segments as)"

lemma cut_segments_mem:
  "0 < room \<Longrightarrow> (n, e, data) \<in> set (cut_segments room 0 bs) \<longleftrightarrow>
     n < length (pieces room bs) \<and> e = (Suc n = length (pieces room bs)) \<and> data = pieces room bs ! n"
  by (auto simp: cut_segments_pieces)

lemma feed_segments_ok:
  assumes "seg_wf cs s" "\<forall>x \<in> set as. fst x < length cs \<and> snd x = (Suc (fst x) = length cs, cs ! fst x)"
  shows "\<exists>s'. feed_segments as s = Inr s' \<and> seg_wf cs s' \<and> sb_seq s' = sb_seq s \<and> filled s' = filled s \<union> fst ` set as"
  using assms
proof (induction as arbitrary: s)
  case (Cons a as)
  obtain n where a: "a = (n, Suc n = length cs, cs ! n)" "n < length cs"
    using Cons.prems(2) by (cases a) auto
  obtain s1 where s1: "set_segment n (cs ! n) (Suc n = length cs) s = Inr s1" "seg_wf cs s1" "sb_seq s1 = sb_seq s"
    "filled s1 = insert n (filled s)" by (rule set_segment_ok [OF Cons.prems(1) a(2)])
  obtain s' where "feed_segments as s1 = Inr s'" "seg_wf cs s'" "sb_seq s' = sb_seq s1"
    "filled s' = filled s1 \<union> fst ` set as" using Cons.IH [OF s1(2)] Cons.prems(2) by auto
  with s1 a(1) show ?case by auto
qed simp

text \<open>
  C25: A packet cut into datagrams is put together again from any arrival of its segments: in any
  order and however often they are repeated, no segment panics the receiver, the packet is
  complete exactly when every segment has arrived, and it is then the packet that was sent.
\<close>

theorem segments_reassemble:
  assumes "av_valid (Media h payload)" "0 < room"
    and "set as \<subseteq> set (cut_segments room 0 (av_enc (Media h payload)))"
  shows "\<exists>s. feed_segments as (seg_new k) = Inr s
       \<and> (seg_is_complete s \<longleftrightarrow> set as = set (cut_segments room 0 (av_enc (Media h payload))))
       \<and> (seg_is_complete s \<longrightarrow>
            seg_assemble now s = Inr \<lparr>sp_packet = Media h payload, sp_seq = k, sp_instant = now\<rparr>)"
proof -
  let ?p = "Media h payload" and ?cs = "pieces room (av_enc (Media h payload))"
  let ?seg = "\<lambda>i. (i, Suc i = length ?cs, ?cs ! i)"
  have ne: "?cs \<noteq> []" using av_enc_nonempty [OF assms(1)] assms(2) by (intro pieces_nonempty)
  have cut: "cut_segments room 0 (av_enc ?p) = map ?seg [0..<length ?cs]" using assms(2) by (simp add: cut_segments_pieces)
  have as: "\<forall>x \<in> set as. fst x < length ?cs \<and> snd x = (Suc (fst x) = length ?cs, ?cs ! fst x)"
    using assms(3) unfolding cut by auto
  obtain s where s: "feed_segments as (seg_new k) = Inr s" "seg_wf ?cs s" "sb_seq s = k" "filled s = fst ` set as"
    using feed_segments_ok [OF seg_new_wf [of ?cs k] as] by (auto simp: filled_def seg_new_def)
  have own: "set as = ?seg ` (fst ` set as)" using as by (force simp: image_iff)
  have "set as = set (map ?seg [0..<length ?cs]) \<longleftrightarrow> fst ` set as = {..<length ?cs}"
  proof
    assume "set as = set (map ?seg [0..<length ?cs])"
    then have "set as = ?seg ` {..<length ?cs}" by (simp add: atLeast0LessThan)
    then have "fst ` set as = fst ` ?seg ` {..<length ?cs}" by (rule arg_cong)
    then show "fst ` set as = {..<length ?cs}" by (simp add: image_image)
  next
    assume f: "fst ` set as = {..<length ?cs}"
    have "set as = ?seg ` {..<length ?cs}" using own unfolding f .
    then show "set as = set (map ?seg [0..<length ?cs])" by (simp add: atLeast0LessThan)
  qed
  then have "seg_is_complete s \<longleftrightarrow> set as = set (cut_segments room 0 (av_enc ?p))"
    unfolding cut using seg_complete_filled [OF s(2) ne] s(4) by simp
  moreover have "seg_assemble now s = Inr \<lparr>sp_packet = ?p, sp_seq = k, sp_instant = now\<rparr>" if "seg_is_complete s"
    using seg_assemble_ok [OF s(2) ne that _ assms(1)] s(3) pieces_concat [OF assms(2)] by blast
  ultimately show ?thesis using s(1) by blast
qed

theorem segments_reassemble_witness:
  "\<exists>s. feed_segments [(1, True, [0, 2, 5, 6]), (0, False, [0x80, 0, 0, 0, 0, 0, 0, 1, 0, 0]), (1, True, [0, 2, 5, 6])] (seg_new 9) = Inr s
     \<and> seg_assemble 4 s
       = Inr \<lparr>sp_packet = Media \<lparr>is_config = False, is_key = False, pts = 1, msize = 2\<rparr> [5, 6], sp_seq = 9, sp_instant = 4\<rparr>"
proof -
  let ?h = "\<lparr>is_config = False, is_key = False, pts = 1, msize = 2\<rparr>"
  let ?as = "[(1, True, [0, 2, 5, 6]), (0, False, [0x80, 0, 0, 0, 0, 0, 0, 1, 0, 0]), (1, True, [0, 2, 5, 6])]"
  have "media_word ?h = 0x8000000000000001" by (simp add: media_word_def push_bit_eq_mult)
  then have e: "av_enc (Media ?h [5, 6]) = [0x80, 0, 0, 0, 0, 0, 0, 1, 0, 0, 0, 2, 5, 6]"
    by (simp add: media_serialize_bytes put_u64_def put_u32_def be_nat_numeral)
  have c: "cut_segments 10 0 (av_enc (Media ?h [5, 6])) = [(0, False, [0x80, 0, 0, 0, 0, 0, 0, 1, 0, 0]), (1, True, [0, 2, 5, 6])]"
    unfolding e by (simp add: cut_segments.simps)
  have "av_valid (Media ?h [5, 6])" by simp
  from segments_reassemble [OF this, of 10 ?as 9 4] show ?thesis unfolding c by auto
qed

section \<open>Pending packets\<close>

text \<open>
  A group in which everything is genuine: \<open>pk k\<close> is packet number \<open>k\<close> and \<open>cs k\<close> its pieces, \<open>P\<close> and \<open>C\<close> are
  the numbers of frames and of the config that belong to the group, and nothing that waits is
  below \<open>lo\<close>.
\<close>

definition objects_ok :: "(u64 \<Rightarrow> av_packet) \<Rightarrow> (u64 \<Rightarrow> bytes list) \<Rightarrow> (u64 \<Rightarrow> bool) \<Rightarrow> bool" where
  "objects_ok pk cs P \<longleftrightarrow>
     (\<forall>k. P k \<longrightarrow> av_valid (pk k) \<and> (\<exists>h payload. pk k = Media h payload) \<and> cs k \<noteq> [] \<and> concat (cs k) = av_enc (pk k))"

definition pg_ok ::
  "(u64 \<Rightarrow> av_packet) \<Rightarrow> (u64 \<Rightarrow> bytes list) \<Rightarrow> (u64 \<Rightarrow> bool) \<Rightarrow> (u64 \<Rightarrow> bool) \<Rightarrow> u64 \<Rightarrow> pgroup \<Rightarrow> bool" where
  "pg_ok pk cs P C lo g \<longleftrightarrow>
     sorted_key sp_seq (pg_datagrams g) \<and> sorted_key sb_seq (pg_segments g)
     \<and> (\<forall>d \<in> set (pg_datagrams g). P (sp_seq d) \<and> lo \<le> sp_seq d \<and> sp_packet d = pk (sp_seq d))
     \<and> (\<forall>s \<in> set (pg_segments g). P (sb_seq s) \<and> seg_wf (cs (sb_seq s)) s)
     \<and> (\<forall>p k. pg_config g = CReady p k \<longrightarrow> C k \<and> lo \<le> k \<and> p = pk k)"

lemma pg_new_ok: "pg_ok pk cs P C lo pg_new"
  by (simp add: pg_ok_def pg_new_def)

lemma pg_prepare_ok:
  assumes "pg_ok pk cs P C lo g" "P k" "pg_prepare_segments k g = (i, g')"
  obtains ys s zs where "pg_ok pk cs P C lo g'" "pg_segments g' = ys @ s # zs" "i = length ys" "sb_seq s = k"
    "pg_config g' = pg_config g" "pg_datagrams g' = pg_datagrams g"
proof -
  have so: "sorted_key sb_seq (pg_segments g)" using assms(1) by (simp add: pg_ok_def)
  show thesis
  proof (cases "binary_search_by_key sb_seq k (pg_segments g)")
    case (Inr j)
    obtain ys s zs where "pg_segments g = ys @ s # zs" "j = length ys" "sb_seq s = k"
      by (rule binary_search_Ok [OF so Inr])
    with assms Inr that show thesis by (simp add: pg_prepare_segments_def)
  next
    case (Inl j)
    obtain ys zs where z: "pg_segments g = ys @ zs" "j = length ys" "\<forall>y \<in> set ys. sb_seq y < k" "\<forall>z \<in> set zs. k < sb_seq z"
      by (rule binary_search_Err [OF so Inl])
    then have g': "g' = g\<lparr>pg_segments := ys @ seg_new k # zs\<rparr>" "i = length ys"
      using assms(3) Inl by (simp_all add: pg_prepare_segments_def vec_simps)
    have "sb_seq (seg_new k) = k" by (simp add: seg_new_def)
    with z assms(1,2) seg_new_wf have "pg_ok pk cs P C lo g'"
      by (auto simp: pg_ok_def g' sorted_key_append dest: less_trans)
    with g' that [of ys "seg_new k" zs] show thesis by (simp add: seg_new_def)
  qed
qed

lemma pg_insert_packet_ok:
  assumes "pg_ok pk cs P C lo g" "P (sp_seq d)" "lo \<le> sp_seq d" "sp_packet d = pk (sp_seq d)"
  shows "pg_ok pk cs P C lo (pg_insert_packet d g) \<and> pg_config (pg_insert_packet d g) = pg_config g"
proof -
  have so: "sorted_key sp_seq (pg_datagrams g)" using assms(1) by (simp add: pg_ok_def)
  show ?thesis
  proof (cases "binary_search_by_key sp_seq (sp_seq d) (pg_datagrams g)")
    case (Inl j)
    obtain ys zs where z: "pg_datagrams g = ys @ zs" "j = length ys" "\<forall>y \<in> set ys. sp_seq y < sp_seq d"
      "\<forall>z \<in> set zs. sp_seq d < sp_seq z" by (rule binary_search_Err [OF so Inl])
    then have "pg_insert_packet d g = g\<lparr>pg_datagrams := ys @ d # zs\<rparr>"
      using Inl by (simp add: pg_insert_packet_def vec_simps)
    with z assms show ?thesis by (auto simp: pg_ok_def sorted_key_append dest: less_trans)
  qed (use assms in \<open>simp add: pg_insert_packet_def\<close>)
qed

lemma pg_insert_datagram_ok:
  assumes "objects_ok pk cs P" "pg_ok pk cs P C lo g" "P k" "lo \<le> k" "n < length (cs k)"
  shows "\<exists>g'. pg_insert_datagram now k n (Suc n = length (cs k)) (cs k ! n) g = Inr g' \<and> pg_ok pk cs P C lo g'
           \<and> pg_config g' = pg_config g"
proof (cases "binary_search_by_key sp_seq k (pg_datagrams g)")
  case (Inr i)
  with assms(2) show ?thesis by (simp add: pg_insert_datagram_def)
next
  case (Inl j)
  have ob: "av_valid (pk k)" "\<exists>h payload. pk k = Media h payload" "cs k \<noteq> []" "concat (cs k) = av_enc (pk k)"
    using assms(1,3) by (simp_all add: objects_ok_def)
  obtain i g1 where p: "pg_prepare_segments k g = (i, g1)" by (cases "pg_prepare_segments k g")
  obtain ys s zs where g1: "pg_ok pk cs P C lo g1" "pg_segments g1 = ys @ s # zs" "i = length ys" "sb_seq s = k"
    "pg_config g1 = pg_config g" "pg_datagrams g1 = pg_datagrams g" by (rule pg_prepare_ok [OF assms(2,3) p])
  have "seg_wf (cs k) s" using g1(1,2,4) by (auto simp: pg_ok_def)
  then obtain s' where s': "set_segment n (cs k ! n) (Suc n = length (cs k)) s = Inr s'" "seg_wf (cs k) s'" "sb_seq s' = k"
    using set_segment_ok [OF _ assms(5)] g1(4) by metis
  show ?thesis
  proof (cases "seg_is_complete s'")
    case False
    let ?g = "g1\<lparr>pg_segments := ys @ s' # zs\<rparr>"
    have "pg_ok pk cs P C lo ?g"
      using g1(1,2,4) s' assms(3) by (auto simp: pg_ok_def sorted_key_append)
    with Inl p g1 s'(1) False show ?thesis by (simp add: pg_insert_datagram_def vec_simps)
  next
    case True
    let ?g = "g1\<lparr>pg_segments := ys @ zs\<rparr>" and ?d = "\<lparr>sp_packet = pk k, sp_seq = k, sp_instant = now\<rparr>"
    have as: "seg_assemble now s' = Inr ?d" using seg_assemble_ok [OF s'(2) ob(3) True ob(4,1,2)] s'(3) by simp
    have "pg_ok pk cs P C lo ?g" using g1(1,2) by (auto simp: pg_ok_def sorted_key_append)
    from pg_insert_packet_ok [OF this, of ?d] assms(3,4)
    show ?thesis using Inl p g1 s'(1) True as by (simp add: pg_insert_datagram_def vec_simps)
  qed
qed

end
