(* ===== verification/VideoUnreliable.thy ===== *)
theory VideoUnreliable
  imports Segments VideoFec_Send
begin

text \<open>
  The unreliable video protocol without forward error correction
  (\<open>driver/av/video_unreliable.rs\<close>). Groups hold the config and the frames that follow it;
  each wake-up of the processing loop forwards at most one packet.
\<close>

section \<open>The sender\<close>

definition vu_DATAGRAM_HEADER_SIZE :: nat where "vu_DATAGRAM_HEADER_SIZE = 14"

text \<open>
  The state of the sender is the one of the FEC variant, and so are \<open>start\<close> and, but for the
  datagrams, \<open>send\<close>.
\<close>

definition vu_send_start :: "send_channel \<Rightarrow> writer result \<Rightarrow> vf_sender result" where
  "vu_send_start = vf_send_start"

definition vu_datagram :: "vf_sender \<Rightarrow> nat \<times> bool \<times> bytes \<Rightarrow> bytes" where
  "vu_datagram s x =
     write_datagram_header (sc_endpoint (vs_channel s)) [] @ put_u32 (vs_kypacket_seq s) @ put_u32 (vs_group_seq s)
       @ put_u32 (number_and_end (fst x) (fst (snd x))) @ snd (snd x)"

definition vu_send_datagrams :: "media_packet_header \<Rightarrow> bytes \<Rightarrow> vf_sender \<Rightarrow> unit result \<times> vf_sender" where
  "vu_send_datagrams h payload s =
     (case sc_max_datagram (vs_channel s) of
        None \<Rightarrow> (Inl (ProtocolError ''Datagram not supported''), s)
      | Some m \<Rightarrow>
          (case and_then (assert_that (m > vu_DATAGRAM_HEADER_SIZE) ''max_datagram_size > DATAGRAM_HEADER_SIZE'')
                  (\<lambda>_. media_serialize h) of
             Inl e \<Rightarrow> (Inl e, s)
           | Inr header \<Rightarrow>
               let data = header @ payload; room = m - vu_DATAGRAM_HEADER_SIZE in
               if min room (length data) \<ge> 2 ^ 16 then (Inl (Panic ''payload_size < 1 << 16''), s)
               else apsnd (\<lambda>c. s\<lparr>vs_channel := c\<rparr>)
                 (send_datagram_list (map (vu_datagram s) (cut_segments room 0 data)) (vs_channel s))))"

definition vu_send :: "av_packet \<Rightarrow> vf_sender \<Rightarrow> unit result \<times> vf_sender" where
  "vu_send = vf_send vu_send_datagrams"

section \<open>Reader tasks\<close>

datatype vu_msg = VStream av_packet u32 u32 | VDatagram bytes u32 u32 nat bool

definition vu_read_stream_msg :: "reader \<Rightarrow> (vu_msg \<times> reader) result" where
  "vu_read_stream_msg r =
     and_then (map_err protocol_error_new (read_exact 8 r)) (\<lambda>(seqs, r1).
     and_then (read_packet av_read r1) (\<lambda>p.
     case p of
       None \<Rightarrow> Inl (ProtocolError ''Missing packet data on stream'')
     | Some (packet, r2) \<Rightarrow> Inr (VStream packet (get_u32 (take 4 seqs)) (get_u32 (drop 4 seqs)), r2)))"

lemma vu_read_stream_progress:
  assumes "vu_read_stream_msg r = Inr (m, r')"
  shows "length (rbuf r') < length (rbuf r)"
proof -
  obtain seqs r1 where r1: "read_exact 8 r = Inr (seqs, r1)"
    using assms by (cases "read_exact 8 r") (auto simp: vu_read_stream_msg_def)
  then obtain p where "av_read r1 = Inr (Some (p, r'))"
    using assms by (auto simp: vu_read_stream_msg_def read_packet_def and_then_eq_Inr map_err_def
        split: sum.splits option.splits)
  from av_read_progress [OF this] r1 show ?thesis by (auto simp: read_exact_eq_Inr)
qed

text \<open>
  A reader task ends at the first error, which is only logged: the messages it sent before, and
  the error.
\<close>

function vu_recv_stream_packets :: "reader \<Rightarrow> vu_msg list \<times> fault" where
  "vu_recv_stream_packets r =
     (case vu_read_stream_msg r of
        Inl e \<Rightarrow> ([], e)
      | Inr (m, r') \<Rightarrow> (case vu_recv_stream_packets r' of (ms, e) \<Rightarrow> (m # ms, e)))"
  by pat_completeness auto
termination
  by (relation "measure (\<lambda>r. length (rbuf r))") (auto dest: vu_read_stream_progress)

declare vu_recv_stream_packets.simps [simp del]

definition vu_parse :: "bytes \<Rightarrow> vu_msg result" where
  "vu_parse datagram =
     and_then (assert_that (length datagram \<ge> vu_DATAGRAM_HEADER_SIZE) ''datagram.len() >= DATAGRAM_HEADER_SIZE'') (\<lambda>_.
     let w = get_u32 (take 4 (drop 10 datagram)) in
     Inr (VDatagram (drop 14 datagram) (get_u32 (take 4 (drop 2 datagram))) (get_u32 (take 4 (drop 6 datagram)))
            (datagram_number w) (datagram_end w)))"

fun vu_recv_datagrams :: "bytes result list \<Rightarrow> vu_msg list \<times> fault option" where
  "vu_recv_datagrams [] = ([], None)"
| "vu_recv_datagrams (dg # dgs) =
     (case and_then (map_err protocol_error_new dg) vu_parse of
        Inl e \<Rightarrow> ([], Some e)
      | Inr m \<Rightarrow> (case vu_recv_datagrams dgs of (ms, e) \<Rightarrow> (m # ms, e)))"

section \<open>Pending groups\<close>

record vu_group =
  vg_seq :: u64
  vg_body :: pgroup

definition vu_prepare_group :: "u64 \<Rightarrow> vu_group list \<Rightarrow> nat \<times> vu_group list" where
  "vu_prepare_group gs p =
     (case binary_search_by_key vg_seq gs p of
        Inr i \<Rightarrow> (i, p)
      | Inl i \<Rightarrow> (i, insert_at i \<lparr>vg_seq = gs, vg_body = pg_new\<rparr> p))"

definition vu_insert_stream_packet :: "u64 \<Rightarrow> u64 \<Rightarrow> av_packet \<Rightarrow> vu_group list \<Rightarrow> vu_group list result" where
  "vu_insert_stream_packet gs k packet p =
     (let (i, p1) = vu_prepare_group gs p in
      and_then (pg_insert_stream_packet k packet (vg_body (p1 ! i))) (\<lambda>g.
      Inr (p1[i := (p1 ! i)\<lparr>vg_body := g\<rparr>])))"

definition vu_insert_datagram ::
  "instant \<Rightarrow> u64 \<Rightarrow> u64 \<Rightarrow> nat \<Rightarrow> bool \<Rightarrow> bytes \<Rightarrow> vu_group list \<Rightarrow> vu_group list result" where
  "vu_insert_datagram now gs k n last_one data p =
     (let (i, p1) = vu_prepare_group gs p in
      and_then (pg_insert_datagram now k n last_one data (vg_body (p1 ! i))) (\<lambda>g.
      Inr (p1[i := (p1 ! i)\<lparr>vg_body := g\<rparr>])))"

definition vu_min_instant :: "vu_group list \<Rightarrow> instant option" where
  "vu_min_instant p = list_min (List.map_filter (\<lambda>g. list_min (map sp_instant (pg_datagrams (vg_body g)))) p)"

definition vu_MAX_BUFFERING :: nat where "vu_MAX_BUFFERING = 50000"

fun vu_next_loop ::
  "vu_group list \<Rightarrow> instant \<Rightarrow> u64 \<Rightarrow> nat \<Rightarrow> vu_group list \<Rightarrow> instant option option \<Rightarrow> next_packet" where
  "vu_next_loop all now nxt i [] cached = NNone"
| "vu_next_loop all now nxt i (x # xs) cached =
     (let g = vg_body x in
      if config_is_none (pg_config g) then vu_next_loop all now nxt (Suc i) xs cached
      else if (case pg_config g of CReady _ k \<Rightarrow> k = nxt | _ \<Rightarrow> False) then NReady i True
      else case pg_datagrams g of
        [] \<Rightarrow> vu_next_loop all now nxt (Suc i) xs cached
      | d # _ \<Rightarrow>
          if sp_seq d = nxt then NReady i (config_is_ready (pg_config g))
          else
            let m = (case cached of Some c \<Rightarrow> c | None \<Rightarrow> vu_min_instant all) in
            (case m of
               None \<Rightarrow> vu_next_loop all now nxt (Suc i) xs (Some m)
             | Some t \<Rightarrow>
                 if t + vu_MAX_BUFFERING \<le> now then NReady i (config_is_ready (pg_config g))
                 else NDeadline (t + vu_MAX_BUFFERING)))"

definition vu_next_packet :: "instant \<Rightarrow> u64 \<Rightarrow> vu_group list \<Rightarrow> next_packet" where
  "vu_next_packet now nxt p = vu_next_loop p now nxt 0 p None"

datatype vu_action = VPacket u64 av_packet | VDeadline instant | VNone

definition vu_take_next_packet :: "instant \<Rightarrow> u64 \<Rightarrow> vu_group list \<Rightarrow> (vu_action \<times> vu_group list) result" where
  "vu_take_next_packet now nxt p =
     (case vu_next_packet now nxt p of
        NNone \<Rightarrow> Inr (VNone, p)
      | NDeadline t \<Rightarrow> Inr (VDeadline t, p)
      | NReady i is_cfg \<Rightarrow>
          (case drop i p of
             [] \<Rightarrow> Inl (Panic ''index out of bounds'')
           | x # xs \<Rightarrow>
               and_then (assert_that (\<not> config_is_none (pg_config (vg_body x))) ''config_packet.is_none()'') (\<lambda>_.
               and_then (if is_cfg then pg_take_config (vg_body x) else pg_take_datagram (vg_body x)) (\<lambda>(k, packet, g).
               Inr (VPacket k packet, x\<lparr>vg_body := g\<rparr> # xs)))))"

section \<open>The processing loop\<close>

record vu_state =
  vu_gseq :: sequencer
  vu_kseq :: sequencer
  vu_pending :: "vu_group list"
  vu_next :: u64
  vu_deadline :: "instant option"
  vu_stats :: protocol_stats

definition vu_init :: vu_state where
  "vu_init = \<lparr>vu_gseq = sequencer_new, vu_kseq = sequencer_new, vu_pending = [], vu_next = 0,
     vu_deadline = None, vu_stats = stats_new\<rparr>"

text \<open>What follows every wake-up that is not skipped: at most one packet is taken.\<close>

definition vu_forward :: "instant \<Rightarrow> vu_state \<Rightarrow> emission list \<times> vu_state status" where
  "vu_forward now s =
     (case vu_take_next_packet now (vu_next s) (vu_pending s) of
        Inl e \<Rightarrow> ([], Failed e)
      | Inr (VNone, p) \<Rightarrow> ([], Running (s\<lparr>vu_pending := p, vu_deadline := None\<rparr>))
      | Inr (VDeadline t, p) \<Rightarrow> ([], Running (s\<lparr>vu_pending := p, vu_deadline := Some t\<rparr>))
      | Inr (VPacket k packet, p) \<Rightarrow>
          let stats = (if k > vu_next s
                       then (vu_stats s)\<lparr>dropped_packets :=
                              add_opt (dropped_packets (vu_stats s)) (unat (k - vu_next s))\<rparr>
                       else vu_stats s)
          in ([(Some k, packet)],
              Running (s\<lparr>vu_pending := p, vu_stats := stats, vu_next := k + 1, vu_deadline := None\<rparr>)))"

definition vu_sequenced :: "u32 \<Rightarrow> u32 \<Rightarrow> vu_state \<Rightarrow> u64 \<times> u64 \<times> vu_state" where
  "vu_sequenced raw_k raw_g s =
     (let (k, kq) = seq_u32 (vu_kseq s) raw_k; (g, gq) = seq_u32 (vu_gseq s) raw_g
      in (k, g, s\<lparr>vu_kseq := kq, vu_gseq := gq\<rparr>))"

text \<open>Errors of the reader tasks do not reach the loop.\<close>

definition vu_step :: "vu_msg event \<Rightarrow> vu_state \<Rightarrow> emission list \<times> vu_state status" where
  "vu_step ev s =
     (let ts = fst ev in
      case snd ev of
        Closed \<Rightarrow> ([], Finished)
      | MsgErr e \<Rightarrow> ([], Running s)
      | Timer \<Rightarrow>
          (case vu_deadline s of
             Some t \<Rightarrow> if t \<le> ts 0 then vu_forward (ts 1) s else ([], Running s)
           | None \<Rightarrow> ([], Running s))
      | Msg (VStream packet raw_k raw_g) \<Rightarrow>
          (case packet of
             Codec h \<Rightarrow> ([(None, packet)], Running s)
           | _ \<Rightarrow>
             (case vu_sequenced raw_k raw_g s of (k, g, s1) \<Rightarrow>
                if k \<ge> vu_next s
                then (case vu_insert_stream_packet g k packet (vu_pending s) of
                        Inl e \<Rightarrow> ([], Failed e)
                      | Inr p \<Rightarrow> vu_forward (ts 1) (s1\<lparr>vu_pending := p\<rparr>))
                else vu_forward (ts 1) s1))
      | Msg (VDatagram data raw_k raw_g n last_one) \<Rightarrow>
          (case vu_sequenced raw_k raw_g s of (k, g, s1) \<Rightarrow>
             if k < vu_next s then ([], Running s1)
             else (case vu_insert_datagram (ts 0) g k n last_one data (vu_pending s) of
                     Inl e \<Rightarrow> ([], Failed e)
                   | Inr p \<Rightarrow> vu_forward (ts 1) (s1\<lparr>vu_pending := p\<rparr>))))"

section \<open>The driver\<close>

text \<open>
  The client end: the packets queued for it and the handles of the three tasks. An error of
  \<open>process\<close> is only logged; the queue then ends.
\<close>

record vu_driver =
  vd_client :: "av_packet list"
  vd_tasks :: "string list"

definition vu_recv_start :: "reader result \<Rightarrow> emission list \<times> 's status \<Rightarrow> vu_driver result" where
  "vu_recv_start accepted outcome =
     and_then (map_err protocol_error_new accepted) (\<lambda>stream.
     Inr \<lparr>vd_client = map snd (fst outcome),
          vd_tasks = [''recv_stream_packets'', ''recv_datagrams'', ''process'']\<rparr>)"

definition vu_recv :: "vu_driver \<Rightarrow> av_packet option result \<times> vu_driver" where
  "vu_recv d =
     (case vd_client d of
        [] \<Rightarrow> (Inr None, d)
      | p # ps \<Rightarrow> (Inr (Some p), d\<lparr>vd_client := ps\<rparr>))"

definition vu_drop :: "vu_driver \<Rightarrow> vu_driver" where
  "vu_drop d = d\<lparr>vd_tasks := []\<rparr>"

end
