(* ===== verification/Logged.thy ===== *)
theory Logged
  imports Receiver
begin

text \<open>
  Runs with a history: some admissibility conditions speak about what arrived earlier (a stream
  delivers each config packet once), which the state of a loop does not record. The history is
  kept beside the state; the run itself is the same.
\<close>

definition log_entry :: "('e \<Rightarrow> 'l option) \<Rightarrow> 'e \<Rightarrow> 'l list \<Rightarrow> 'l list" where
  "log_entry entry e l = (case entry e of None \<Rightarrow> l | Some x \<Rightarrow> x # l)"

fun logged ::
  "('e \<Rightarrow> 'l option) \<Rightarrow> ('e \<Rightarrow> 's \<Rightarrow> 'o list \<times> 's status) \<Rightarrow> 'e \<Rightarrow> 'l list \<times> 's \<Rightarrow> 'o list \<times> ('l list \<times> 's) status" where
  "logged entry step e (l, s) = apsnd (map_status (Pair (log_entry entry e l))) (step e s)"

lemma map_status_eq:
  "map_status f st = Running s' \<longleftrightarrow> (\<exists>s. st = Running s \<and> s' = f s)"
  "Running s' = map_status f st \<longleftrightarrow> (\<exists>s. st = Running s \<and> s' = f s)"
  "map_status f st = Failed e \<longleftrightarrow> st = Failed e"
  "Failed e = map_status f st \<longleftrightarrow> st = Failed e"
  by (cases st; auto)+

lemma logged_cases:
  assumes "logged entry step e (l, s) = (os, st)"
  obtains st1 where "step e s = (os, st1)" "st = map_status (Pair (log_entry entry e l)) st1"
  using assms by (cases "step e s") auto

lemma run_logged: "run (logged entry step) es (l, s) = (os, st) \<Longrightarrow> run step es s = (os, map_status snd st)"
proof (induction es arbitrary: l s os st)
  case (Cons e es)
  obtain o1 st1 where st1: "step e s = (o1, st1)" by (cases "step e s")
  show ?case
  proof (cases st1)
    case (Running s1)
    obtain o2 st2 where r: "run (logged entry step) es (log_entry entry e l, s1) = (o2, st2)"
      by (cases "run (logged entry step) es (log_entry entry e l, s1)")
    with Cons.prems st1 Running have "os = o1 @ o2" "st = st2" by auto
    with Cons.IH [OF r] st1 Running show ?thesis by simp
  qed (use Cons.prems st1 in auto)
qed auto

lemma run_logged_exists:
  assumes "run step es s = (os, st)"
  obtains st' where "run (logged entry step) es (l, s) = (os, st')" "st = map_status snd st'"
proof -
  obtain os' st' where r: "run (logged entry step) es (l, s) = (os', st')"
    by (cases "run (logged entry step) es (l, s)")
  from run_logged [OF r] assms r that show thesis by simp
qed

lemma run_ok_logged:
  assumes "\<And>e l s. e \<in> set es \<Longrightarrow> (\<And>x. entry e = Some x \<Longrightarrow> x \<notin> set l) \<Longrightarrow> ok e (l, s)"
    and "distinct (List.map_filter entry es)" "set (List.map_filter entry es) \<inter> set l = {}"
  shows "run_ok ok (logged entry step) es (l, s)"
  using assms
proof (induction es arbitrary: l s)
  case (Cons e es)
  have e: "ok e (l, s)"
    by (rule Cons.prems(1)) (use Cons.prems(3) in \<open>auto simp: List.map_filter_simps\<close>)
  have "run_ok ok (logged entry step) es (log_entry entry e l, s')" for s'
    by (rule Cons.IH) (use Cons.prems in \<open>auto simp: List.map_filter_simps log_entry_def split: option.splits\<close>)
  with e show ?case by (cases "step e s"; cases "snd (step e s)") auto
qed simp

end
