(* ===== verification/VideoUnreliable_Props.thy ===== *)
theory VideoUnreliable_Props
  imports VideoUnreliable Segments_Props Logged VideoFec_End
begin

text \<open>
  Sender and receiver of the unreliable video protocol: what is pending is genuine and in order,
  no message of a sender panics the receiver, and the packets forwarded are a subsequence of
  those sent. Packets that are ready can nevertheless stay in the receiver.
\<close>

section \<open>Pending groups\<close>

definition frame_of :: "(u64 \<Rightarrow> u64) \<Rightarrow> (u64 \<Rightarrow> bool) \<Rightarrow> u64 \<Rightarrow> u64 \<Rightarrow> bool" where
  "frame_of grp conf g k \<longleftrightarrow> \<not> conf k \<and> small k \<and> grp k = g"

definition config_of :: "(u64 \<Rightarrow> u64) \<Rightarrow> (u64 \<Rightarrow> bool) \<Rightarrow> u64 \<Rightarrow> u64 \<Rightarrow> bool" where
  "config_of grp conf g k \<longleftrightarrow> conf k \<and> small k \<and> grp k = g"

text \<open>
  Every group is genuine, nothing pending is below \<open>lo\<close>, and the config of a group is one of
  those that have arrived (\<open>L\<close>).
\<close>

definition vu_group_ok ::
  "(u64 \<Rightarrow> av_packet) \<Rightarrow> (u64 \<Rightarrow> bytes list) \<Rightarrow> (u64 \<Rightarrow> u64) \<Rightarrow> (u64 \<Rightarrow> bool) \<Rightarrow> u64 set \<Rightarrow> u64 \<Rightarrow> vu_group \<Rightarrow> bool" where
  "vu_group_ok pk cs grp conf L lo x \<longleftrightarrow>
     pg_ok pk cs (frame_of grp conf (vg_seq x)) (config_of grp conf (vg_seq x)) lo (vg_body x)
     \<and> (\<not> config_is_none (pg_config (vg_body x)) \<longrightarrow> (\<exists>k \<in> L. config_of grp conf (vg_seq x) k))"

definition vu_ok ::
  "(u64 \<Rightarrow> av_packet) \<Rightarrow> (u64 \<Rightarrow> bytes list) \<Rightarrow> (u64 \<Rightarrow> u64) \<Rightarrow> (u64 \<Rightarrow> bool) \<Rightarrow> u64 set \<Rightarrow> u64 \<Rightarrow> vu_group list \<Rightarrow> bool" where
  "vu_ok pk cs grp conf L lo p \<longleftrightarrow> sorted_key vg_seq p \<and> (\<forall>x \<in> set p. vu_group_ok pk cs grp conf L lo x)"

lemma vu_group_new_ok: "vg_body x = pg_new \<Longrightarrow> vu_group_ok pk cs grp conf L lo x"
  using pg_new_ok by (simp add: vu_group_ok_def pg_new_def)

lemma vu_ok_more: "vu_ok pk cs grp conf L lo p \<Longrightarrow> L \<subseteq> L' \<Longrightarrow> vu_ok pk cs grp conf L' lo p"
  unfolding vu_ok_def vu_group_ok_def by blast

lemma vu_prepare_ok:
  assumes "vu_ok pk cs grp conf L lo p" "vu_prepare_group gs p = (i, p')"
  obtains ys x zs where "p' = ys @ x # zs" "i = length ys" "vg_seq x = gs" "vu_ok pk cs grp conf L lo p'"
proof -
  have so: "sorted_key vg_seq p" using assms(1) by (simp add: vu_ok_def)
  show thesis
  proof (cases "binary_search_by_key vg_seq gs p")
    case (Inr j)
    obtain ys x zs where "p = ys @ x # zs" "j = length ys" "vg_seq x = gs" by (rule binary_search_Ok [OF so Inr])
    with assms Inr that [of ys x zs] show thesis by (simp add: vu_prepare_group_def)
  next
    case (Inl j)
    obtain ys zs where z: "p = ys @ zs" "j = length ys" "\<forall>y \<in> set ys. vg_seq y < gs" "\<forall>z \<in> set zs. gs < vg_seq z"
      by (rule binary_search_Err [OF so Inl])
    let ?x = "\<lparr>vg_seq = gs, vg_body = pg_new\<rparr>"
    have p': "p' = ys @ ?x # zs" "i = length ys" using assms(2) Inl z by (simp_all add: vu_prepare_group_def vec_simps)
    have "vu_ok pk cs grp conf L lo p'"
      using z assms(1) vu_group_new_ok [of ?x pk cs grp conf L lo]
      by (auto simp: vu_ok_def p' sorted_key_append dest: less_trans)
    with p' that show thesis by simp
  qed
qed

lemma vu_replace_ok:
  assumes "vu_ok pk cs grp conf L lo (ys @ x # zs)" "vu_group_ok pk cs grp conf L' lo x'" "vg_seq x' = vg_seq x" "L \<subseteq> L'"
  shows "vu_ok pk cs grp conf L' lo (ys @ x' # zs)"
  using assms(2,3) vu_ok_more [OF assms(1,4)] by (auto simp: vu_ok_def sorted_key_append)

lemma vu_insert_datagram_ok:
  assumes "objects_ok pk cs (\<lambda>k. \<not> conf k \<and> small k)" "vu_ok pk cs grp conf L lo p"
    and "\<not> conf k" "small k" "lo \<le> k" "n < length (cs k)"
  shows "\<exists>p'. vu_insert_datagram now (grp k) k n (Suc n = length (cs k)) (cs k ! n) p = Inr p'
           \<and> vu_ok pk cs grp conf L lo p'"
proof -
  obtain i p1 where p1: "vu_prepare_group (grp k) p = (i, p1)" by (cases "vu_prepare_group (grp k) p")
  obtain ys x zs where x: "p1 = ys @ x # zs" "i = length ys" "vg_seq x = grp k" "vu_ok pk cs grp conf L lo p1"
    by (rule vu_prepare_ok [OF assms(2) p1])
  have ob: "objects_ok pk cs (frame_of grp conf (grp k))" using assms(1) by (auto simp: objects_ok_def frame_of_def)
  have f: "frame_of grp conf (grp k) k" using assms(3,4) by (simp add: frame_of_def)
  have gx: "vu_group_ok pk cs grp conf L lo x" using x(1,4) by (simp add: vu_ok_def)
  then have "pg_ok pk cs (frame_of grp conf (grp k)) (config_of grp conf (grp k)) lo (vg_body x)"
    by (simp add: vu_group_ok_def x(3))
  from pg_insert_datagram_ok [OF ob this f assms(5,6), of now]
  obtain g' where g': "pg_insert_datagram now k n (Suc n = length (cs k)) (cs k ! n) (vg_body x) = Inr g'"
    "pg_ok pk cs (frame_of grp conf (grp k)) (config_of grp conf (grp k)) lo g'" "pg_config g' = pg_config (vg_body x)"
    by blast
  with gx x(3) have "vu_group_ok pk cs grp conf L lo (x\<lparr>vg_body := g'\<rparr>)" by (simp add: vu_group_ok_def)
  from vu_replace_ok [OF x(4) [unfolded x(1)] this] have "vu_ok pk cs grp conf L lo (ys @ x\<lparr>vg_body := g'\<rparr> # zs)" by simp
  with p1 x(1,2) g'(1) show ?thesis by (simp add: vu_insert_datagram_def)
qed

text \<open>A group has one config: of two configs neither is before the other.\<close>

lemma layout_config:
  assumes "vf_layout grp conf" "config_of grp conf g c" "config_of grp conf g k"
  shows "c = k"
  using assms unfolding vf_layout_def config_of_def by (metis order_antisym)

lemma vu_insert_stream_ok:
  assumes "vf_layout grp conf" "vu_ok pk cs grp conf L lo p" "conf k" "small k" "lo \<le> k" "k \<notin> L"
  shows "\<exists>p'. vu_insert_stream_packet (grp k) k (pk k) p = Inr p' \<and> vu_ok pk cs grp conf (insert k L) lo p'"
proof -
  obtain i p1 where p1: "vu_prepare_group (grp k) p = (i, p1)" by (cases "vu_prepare_group (grp k) p")
  obtain ys x zs where x: "p1 = ys @ x # zs" "i = length ys" "vg_seq x = grp k" "vu_ok pk cs grp conf L lo p1"
    by (rule vu_prepare_ok [OF assms(2) p1])
  have gx: "vu_group_ok pk cs grp conf L lo x" using x(1,4) by (simp add: vu_ok_def)
  have c: "config_of grp conf (grp k) k" using assms(3,4) by (simp add: config_of_def)
  have none: "config_is_none (pg_config (vg_body x))"
    using gx layout_config [OF assms(1) _ c] assms(6) unfolding vu_group_ok_def x(3) by blast
  let ?g = "(vg_body x)\<lparr>pg_config := CReady (pk k) k\<rparr>"
  have "pg_ok pk cs (frame_of grp conf (grp k)) (config_of grp conf (grp k)) lo (vg_body x)"
    using gx by (simp add: vu_group_ok_def x(3))
  then have "pg_ok pk cs (frame_of grp conf (grp k)) (config_of grp conf (grp k)) lo ?g"
    using c assms(5) unfolding pg_ok_def by simp
  with c have "vu_group_ok pk cs grp conf (insert k L) lo (x\<lparr>vg_body := ?g\<rparr>)"
    by (auto simp: vu_group_ok_def x(3))
  from vu_replace_ok [OF x(4) [unfolded x(1)] this]
  have "vu_ok pk cs grp conf (insert k L) lo (ys @ x\<lparr>vg_body := ?g\<rparr> # zs)" by auto
  with p1 x(1,2) none show ?thesis by (simp add: vu_insert_stream_packet_def pg_insert_stream_packet_def)
qed

section \<open>Taking packets\<close>

lemma vu_next_loop_ready:
  assumes "vu_next_loop all now nxt i xs c = NReady j b"
  shows "\<exists>n < length xs. j = i + n \<and> \<not> config_is_none (pg_config (vg_body (xs ! n)))
           \<and> (if b then config_is_ready (pg_config (vg_body (xs ! n)))
              else \<not> config_is_ready (pg_config (vg_body (xs ! n))) \<and> pg_datagrams (vg_body (xs ! n)) \<noteq> [])"
  using assms
proof (induction all now nxt i xs c rule: vu_next_loop.induct)
  case (2 all now nxt i x xs c)
  let ?g = "vg_body x"
  have here: ?case if "j = i" "\<not> config_is_none (pg_config ?g)"
    "if b then config_is_ready (pg_config ?g) else \<not> config_is_ready (pg_config ?g) \<and> pg_datagrams ?g \<noteq> []"
    using that by (intro exI [of _ 0]) simp
  have later: ?case if "\<exists>n < length xs. j = Suc i + n \<and> \<not> config_is_none (pg_config (vg_body (xs ! n)))
           \<and> (if b then config_is_ready (pg_config (vg_body (xs ! n)))
              else \<not> config_is_ready (pg_config (vg_body (xs ! n))) \<and> pg_datagrams (vg_body (xs ! n)) \<noteq> [])"
  proof -
    from that obtain n where "n < length xs" "j = Suc i + n" "\<not> config_is_none (pg_config (vg_body (xs ! n)))"
      "if b then config_is_ready (pg_config (vg_body (xs ! n)))
       else \<not> config_is_ready (pg_config (vg_body (xs ! n))) \<and> pg_datagrams (vg_body (xs ! n)) \<noteq> []" by blast
    then show ?thesis by (intro exI [of _ "Suc n"]) simp
  qed
  show ?case
  proof (cases "config_is_none (pg_config ?g)")
    case True
    with "2.prems" "2.IH"(1) [OF refl True] show ?thesis by (intro later) simp
  next
    case some: False
    show ?thesis
    proof (cases "case pg_config ?g of CReady _ k \<Rightarrow> k = nxt | _ \<Rightarrow> False")
      case True
      with "2.prems" some show ?thesis by (intro here) (auto simp: Let_def split: config_packet.splits)
    next
      case False
      then have F: "(case pg_config ?g of CReady _ k \<Rightarrow> k = nxt | _ \<Rightarrow> False) = False" by simp
      show ?thesis
      proof (cases "pg_datagrams ?g")
        case Nil
        with "2.prems" "2.IH"(2) [OF refl some False Nil] some F show ?thesis by (intro later) (simp add: Let_def)
      next
        case (Cons d ds)
        define m where "m = (case c of Some a \<Rightarrow> a | None \<Rightarrow> vu_min_instant all)"
        show ?thesis
        proof (cases "sp_seq d = nxt")
          case True
          with "2.prems" some F Cons show ?thesis by (intro here) (auto simp: Let_def)
        next
          case neq: False
          show ?thesis
          proof (cases m)
            case None
            with "2.prems" "2.IH"(3) [OF refl some False Cons neq m_def None] some F Cons neq
            show ?thesis by (intro later) (simp add: Let_def m_def [symmetric])
          next
            case (Some t)
            with "2.prems" some F Cons neq show ?thesis
              by (intro here) (auto simp: Let_def m_def [symmetric] split: if_splits)
          qed
        qed
      qed
    qed
  qed
qed simp

text \<open>Taking the next packet never panics: it leaves everything, or takes a config, or a frame.\<close>

lemma vu_take_cases:
  obtains (idle) a where "vu_take_next_packet now nxt p = Inr (a, p)" "\<And>k q. a \<noteq> VPacket k q"
  | (config) i x rest q k where "drop i p = x # rest" "pg_config (vg_body x) = CReady q k"
      "vu_take_next_packet now nxt p = Inr (VPacket k q, x\<lparr>vg_body := (vg_body x)\<lparr>pg_config := CSent\<rparr>\<rparr> # rest)"
  | (frame) i x rest d ds where "drop i p = x # rest" "pg_config (vg_body x) = CSent" "pg_datagrams (vg_body x) = d # ds"
      "vu_take_next_packet now nxt p = Inr (VPacket (sp_seq d) (sp_packet d),
         x\<lparr>vg_body := pg_drop_expired (sp_seq d) ((vg_body x)\<lparr>pg_datagrams := ds\<rparr>)\<rparr> # rest)"
proof (cases "vu_next_packet now nxt p")
  case NNone
  then show thesis by (intro idle [of VNone]) (simp_all add: vu_take_next_packet_def)
next
  case (NDeadline t)
  then show thesis by (intro idle [of "VDeadline t"]) (simp_all add: vu_take_next_packet_def)
next
  case (NReady i b)
  from vu_next_loop_ready [OF this [unfolded vu_next_packet_def]]
  have i: "i < length p" "\<not> config_is_none (pg_config (vg_body (p ! i)))"
    "if b then config_is_ready (pg_config (vg_body (p ! i)))
     else \<not> config_is_ready (pg_config (vg_body (p ! i))) \<and> pg_datagrams (vg_body (p ! i)) \<noteq> []" by auto
  have d: "drop i p = p ! i # drop (Suc i) p" using i(1) by (simp add: Cons_nth_drop_Suc)
  show thesis
  proof (cases b)
    case True
    with i(3) obtain q k where "pg_config (vg_body (p ! i)) = CReady q k" by (cases "pg_config (vg_body (p ! i))") auto
    with NReady d True i(2) show thesis
      by (intro config [OF d]) (simp_all add: vu_take_next_packet_def pg_take_config_def)
  next
    case False
    with i(2,3) have "pg_config (vg_body (p ! i)) = CSent" by (cases "pg_config (vg_body (p ! i))") auto
    moreover obtain e es where "pg_datagrams (vg_body (p ! i)) = e # es" using False i(3)
      by (cases "pg_datagrams (vg_body (p ! i))") auto
    ultimately show thesis using NReady d False
      by (intro frame [OF d]) (simp_all add: vu_take_next_packet_def pg_take_datagram_def)
  qed
qed

lemma pg_ok_raise:
  assumes "pg_ok pk cs P C lo g" "\<And>d. d \<in> set (pg_datagrams g) \<Longrightarrow> lo' \<le> sp_seq d"
    "\<And>p k. pg_config g = CReady p k \<Longrightarrow> lo' \<le> k"
  shows "pg_ok pk cs P C lo' g"
  using assms unfolding pg_ok_def by blast

lemma pg_okD:
  assumes "pg_ok pk cs P C lo g"
  shows "d \<in> set (pg_datagrams g) \<Longrightarrow> P (sp_seq d) \<and> lo \<le> sp_seq d \<and> sp_packet d = pk (sp_seq d)"
    "pg_config g = CReady p k \<Longrightarrow> C k \<and> lo \<le> k \<and> p = pk k"
  using assms unfolding pg_ok_def by blast+

lemma pg_drop_expired_ok:
  assumes "pg_ok pk cs P C lo g" shows "pg_ok pk cs P C lo (pg_drop_expired k g)"
  using assms by (auto simp: pg_ok_def pg_drop_expired_def Let_def intro: sorted_key_drop dest: in_set_dropD)

lemma vu_group_later:
  assumes "vf_layout grp conf" "vu_group_ok pk cs grp conf L lo x" "grp k < vg_seq x"
  shows "vu_group_ok pk cs grp conf L (k + 1) x"
proof -
  have b: "k + 1 \<le> j" if "grp j = vg_seq x" for j
    using layout_later [OF assms(1), of k j] assms(3) that word_plus1_le by simp
  have "pg_ok pk cs (frame_of grp conf (vg_seq x)) (config_of grp conf (vg_seq x)) lo (vg_body x)"
    using assms(2) by (simp add: vu_group_ok_def)
  from pg_ok_raise [OF this, of "k + 1"] pg_okD [OF this] b assms(2) show ?thesis
    by (simp add: vu_group_ok_def frame_of_def config_of_def)
qed

lemma vu_rest_ok:
  assumes "vf_layout grp conf" "vu_ok pk cs grp conf L lo p" "drop i p = x # rest" "grp k = vg_seq x"
    and "vu_group_ok pk cs grp conf L (k + 1) x'" "vg_seq x' = vg_seq x"
  shows "vu_ok pk cs grp conf L (k + 1) (x' # rest)"
proof -
  have m: "set rest \<subseteq> set p" using assms(3) set_drop_subset [of i p] by auto
  have so: "sorted_key vg_seq (x # rest)" using assms(2,3) sorted_key_drop [of vg_seq p i] by (simp add: vu_ok_def)
  have "vu_group_ok pk cs grp conf L (k + 1) y" if "y \<in> set rest" for y
    by (rule vu_group_later [OF assms(1)]) (use assms(2,4) m so that in \<open>auto simp: vu_ok_def\<close>)
  with so assms(5,6) show ?thesis by (simp add: vu_ok_def)
qed

lemma layout_config_first: "vf_layout grp conf \<Longrightarrow> conf c \<Longrightarrow> grp c = grp k \<Longrightarrow> c \<le> k"
  unfolding vf_layout_def by blast

lemma vu_take_ok:
  assumes "vf_layout grp conf" "vu_ok pk cs grp conf L lo p" "vu_take_next_packet now nxt p = Inr (VPacket k q, p')"
  shows "lo \<le> k \<and> small k \<and> q = pk k \<and> vu_ok pk cs grp conf L (k + 1) p'"
proof (cases now nxt p rule: vu_take_cases)
  case (idle a)
  with assms(3) show ?thesis by simp
next
  case (config i x rest q' k')
  have x: "vu_group_ok pk cs grp conf L lo x"
    using assms(2) config(1) in_set_dropD [of x i p] by (simp add: vu_ok_def)
  then have g: "pg_ok pk cs (frame_of grp conf (vg_seq x)) (config_of grp conf (vg_seq x)) lo (vg_body x)"
    by (simp add: vu_group_ok_def)
  have e: "k' = k" "q' = q" "p' = x\<lparr>vg_body := (vg_body x)\<lparr>pg_config := CSent\<rparr>\<rparr> # rest" using assms(3) config(3) by simp_all
  have k: "conf k" "small k" "grp k = vg_seq x" "lo \<le> k" "q = pk k"
    using pg_okD(2) [OF g config(2)] e by (simp_all add: config_of_def)
  have b: "k + 1 \<le> sp_seq d" if "d \<in> set (pg_datagrams (vg_body x))" for d
  proof -
    have "\<not> conf (sp_seq d)" "grp (sp_seq d) = vg_seq x" using pg_okD(1) [OF g that] by (simp_all add: frame_of_def)
    moreover from this k have "k \<le> sp_seq d" by (intro layout_config_first [OF assms(1)]) simp_all
    ultimately show ?thesis using k(1) by (intro word_plus1_le) (auto simp: order_less_le)
  qed
  have "pg_ok pk cs (frame_of grp conf (vg_seq x)) (config_of grp conf (vg_seq x)) lo ((vg_body x)\<lparr>pg_config := CSent\<rparr>)"
    using g by (simp add: pg_ok_def)
  then have "pg_ok pk cs (frame_of grp conf (vg_seq x)) (config_of grp conf (vg_seq x)) (k + 1) ((vg_body x)\<lparr>pg_config := CSent\<rparr>)"
    by (rule pg_ok_raise) (use b in simp_all)
  with x config(2) have "vu_group_ok pk cs grp conf L (k + 1) (x\<lparr>vg_body := (vg_body x)\<lparr>pg_config := CSent\<rparr>\<rparr>)"
    by (simp add: vu_group_ok_def)
  from vu_rest_ok [OF assms(1,2) config(1) k(3) this] k e(3) show ?thesis by simp
next
  case (frame i x rest d ds)
  let ?g = "(vg_body x)\<lparr>pg_datagrams := ds\<rparr>"
  have x: "vu_group_ok pk cs grp conf L lo x"
    using assms(2) frame(1) in_set_dropD [of x i p] by (simp add: vu_ok_def)
  then have g: "pg_ok pk cs (frame_of grp conf (vg_seq x)) (config_of grp conf (vg_seq x)) lo (vg_body x)"
    by (simp add: vu_group_ok_def)
  have e: "sp_seq d = k" "sp_packet d = q" "p' = x\<lparr>vg_body := pg_drop_expired k ?g\<rparr> # rest"
    using assms(3) frame(4) by auto
  have k: "small k" "grp k = vg_seq x" "lo \<le> k" "q = pk k"
    using pg_okD(1) [OF g, of d] frame(3) e by (simp_all add: frame_of_def)
  have "pg_ok pk cs (frame_of grp conf (vg_seq x)) (config_of grp conf (vg_seq x)) lo ?g"
    using g frame(3) by (simp add: pg_ok_def)
  moreover have "k + 1 \<le> sp_seq y" if "y \<in> set ds" for y
    using g frame(3) e(1) that by (intro word_plus1_le) (simp add: pg_ok_def)
  ultimately have "pg_ok pk cs (frame_of grp conf (vg_seq x)) (config_of grp conf (vg_seq x)) (k + 1) ?g"
    by (rule pg_ok_raise) (use frame(2) in simp_all)
  from pg_drop_expired_ok [OF this] x frame(2)
  have "vu_group_ok pk cs grp conf L (k + 1) (x\<lparr>vg_body := pg_drop_expired k ?g\<rparr>)"
    by (simp add: vu_group_ok_def pg_drop_expired_def Let_def)
  from vu_rest_ok [OF assms(1,2) frame(1) k(2) this] k e(3) show ?thesis by simp
qed

section \<open>The processing loop\<close>

definition vu_dropped :: "vu_state \<Rightarrow> nat" where
  "vu_dropped s = unwrap_or_default (dropped_packets (vu_stats s))"

definition vu_sinv ::
  "(u64 \<Rightarrow> av_packet) \<Rightarrow> (u64 \<Rightarrow> bytes list) \<Rightarrow> (u64 \<Rightarrow> u64) \<Rightarrow> (u64 \<Rightarrow> bool) \<Rightarrow> u32 list \<times> vu_state \<Rightarrow> bool" where
  "vu_sinv pk cs grp conf h \<longleftrightarrow>
     vf_layout grp conf \<and> objects_ok pk cs (\<lambda>k. \<not> conf k \<and> small k)
     \<and> vu_ok pk cs grp conf (ucast ` set (fst h)) (vu_next (snd h)) (vu_pending (snd h))
     \<and> small (newest_seq (vu_kseq (snd h))) \<and> small (newest_seq (vu_gseq (snd h)))"

text \<open>Messages of a sender; \<open>vu_config_number\<close> is what the history records.\<close>

fun vu_authentic ::
  "(u64 \<Rightarrow> av_packet) \<Rightarrow> (u64 \<Rightarrow> bytes list) \<Rightarrow> (u64 \<Rightarrow> u64) \<Rightarrow> (u64 \<Rightarrow> bool) \<Rightarrow> vu_msg \<Rightarrow> bool" where
  "vu_authentic pk cs grp conf (VStream packet raw_k raw_g) =
     ((\<exists>h. packet = Codec h) \<or>
      (\<exists>k. conf k \<and> small k \<and> small (grp k) \<and> unat raw_k = unat k \<and> unat raw_g = unat (grp k) \<and> packet = pk k))"
| "vu_authentic pk cs grp conf (VDatagram data raw_k raw_g n e) =
     (\<exists>k. \<not> conf k \<and> small k \<and> small (grp k) \<and> unat raw_k = unat k \<and> unat raw_g = unat (grp k)
          \<and> n < length (cs k) \<and> e = (Suc n = length (cs k)) \<and> data = cs k ! n)"

fun vu_config_number :: "vu_msg event \<Rightarrow> u32 option" where
  "vu_config_number (ts, Msg (VStream (Codec h) raw_k raw_g)) = None"
| "vu_config_number (ts, Msg (VStream packet raw_k raw_g)) = Some raw_k"
| "vu_config_number ev = None"

fun vu_from_sender ::
  "(u64 \<Rightarrow> av_packet) \<Rightarrow> (u64 \<Rightarrow> bytes list) \<Rightarrow> (u64 \<Rightarrow> u64) \<Rightarrow> (u64 \<Rightarrow> bool) \<Rightarrow> vu_msg event \<Rightarrow> u32 list \<times> vu_state \<Rightarrow> bool" where
  "vu_from_sender pk cs grp conf ev (l, s) =
     ((\<forall>m. snd ev = Msg m \<longrightarrow> vu_authentic pk cs grp conf m)
      \<and> (\<forall>raw. vu_config_number ev = Some raw \<longrightarrow> raw \<notin> set l))"

text \<open>What a step owes, from the expected number \<open>n\<close> and \<open>d\<close> packets dropped before.\<close>

definition vu_keeps ::
  "(u64 \<Rightarrow> av_packet) \<Rightarrow> (u64 \<Rightarrow> bytes list) \<Rightarrow> (u64 \<Rightarrow> u64) \<Rightarrow> (u64 \<Rightarrow> bool) \<Rightarrow> u32 list \<Rightarrow> u64 \<Rightarrow> nat
     \<Rightarrow> emission list \<times> vu_state status \<Rightarrow> bool" where
  "vu_keeps pk cs grp conf l n d r \<longleftrightarrow>
     (\<forall>x \<in> set (fst r). genuine pk x) \<and> (\<forall>f. snd r \<noteq> Failed f)
     \<and> (\<exists>b. ascends n (output_seqs (fst r)) b
          \<and> (\<forall>s'. snd r = Running s' \<longrightarrow> b = vu_next s' \<and> vu_dropped s' = d + gaps n (output_seqs (fst r))
                   \<and> vu_sinv pk cs grp conf (l, s')))"

lemma vu_idle_keeps:
  assumes "vu_sinv pk cs grp conf (l, s)" "vu_next s = n" "vu_dropped s = d" "output_seqs os = []" "\<And>x. x \<in> set os \<Longrightarrow> fst x = None"
  shows "vu_keeps pk cs grp conf l n d (os, Running s)"
  using assms by (auto simp: vu_keeps_def genuine_def)

lemma small_not_max: "small k \<Longrightarrow> k \<noteq> - 1"
  by (auto simp: small_def unsigned_minus_1_eq_mask mask_eq_exp_minus_1)

lemma vu_packet_keeps:
  assumes "vu_sinv pk cs grp conf (l, s)" "vu_next s = k + 1" "n \<le> k" "k \<noteq> - 1" "q = pk k"
    "vu_dropped s = d + (unat k - unat n)"
  shows "vu_keeps pk cs grp conf l n d ([(Some k, q)], Running s)"
proof -
  have "ascends n (output_seqs [(Some k, q)]) (k + 1)" using assms(3,4) by simp
  moreover have "gaps n (output_seqs [(Some k, q)]) = unat k - unat n" by simp
  ultimately have o: "\<exists>b. ascends n (output_seqs [(Some k, q)]) b \<and> (\<forall>s'. Running s = Running s' \<longrightarrow> b = vu_next s'
      \<and> vu_dropped s' = d + gaps n (output_seqs [(Some k, q)]) \<and> vu_sinv pk cs grp conf (l, s'))"
    using assms(1,2,6) by (intro exI [of _ "k + 1"]) simp
  have g: "\<forall>x \<in> set [(Some k, q)]. genuine pk x" using assms(5) by (simp add: genuine_def)
  show ?thesis unfolding vu_keeps_def fst_conv snd_conv using g o by blast
qed

lemma vu_forward_keeps:
  assumes "vu_sinv pk cs grp conf (l, s)"
  shows "vu_keeps pk cs grp conf l (vu_next s) (vu_dropped s) (vu_forward now s)"
proof (cases "\<exists>k q p. vu_take_next_packet now (vu_next s) (vu_pending s) = Inr (VPacket k q, p)")
  case False
  obtain dl where "vu_forward now s = ([], Running (s\<lparr>vu_deadline := dl\<rparr>))"
  proof (cases now "vu_next s" "vu_pending s" rule: vu_take_cases)
    case (idle a)
    then show thesis using that by (cases a) (auto simp: vu_forward_def)
  qed (use False in auto)
  with vu_idle_keeps [of pk cs grp conf l "s\<lparr>vu_deadline := dl\<rparr>" _ _ "[]"] assms show ?thesis
    by (simp add: vu_sinv_def vu_dropped_def)
next
  case True
  then obtain k q p where t: "vu_take_next_packet now (vu_next s) (vu_pending s) = Inr (VPacket k q, p)" by blast
  have k: "vu_next s \<le> k" "small k" "q = pk k" "vu_ok pk cs grp conf (ucast ` set l) (k + 1) p"
    using vu_take_ok [OF _ _ t] assms by (auto simp: vu_sinv_def)
  have m: "k \<noteq> - 1" using k(2) by (rule small_not_max)
  have u: "unat (k - vu_next s) = unat k - unat (vu_next s)" using k(1) by (rule unat_sub)
  define stats where "stats = (if k > vu_next s
    then (vu_stats s)\<lparr>dropped_packets := add_opt (dropped_packets (vu_stats s)) (unat (k - vu_next s))\<rparr> else vu_stats s)"
  define s' where "s' = s\<lparr>vu_pending := p, vu_stats := stats, vu_next := k + 1, vu_deadline := None\<rparr>"
  have f: "vu_forward now s = ([(Some k, q)], Running s')"
    using t by (simp add: vu_forward_def Let_def s'_def stats_def)
  have d: "vu_dropped s' = vu_dropped s + (unat k - unat (vu_next s))"
    using u k(1) by (auto simp: s'_def stats_def vu_dropped_def not_less)
  have "vu_sinv pk cs grp conf (l, s')" using assms k(4) by (simp add: vu_sinv_def s'_def)
  moreover have "vu_next s' = k + 1" by (simp add: s'_def)
  ultimately show ?thesis unfolding f using vu_packet_keeps k(1,3) m d by blast
qed

lemma unat_ucast_u32: "unat (ucast (a :: u32) :: u64) = unat a"
  using unsigned_less [of a, where 'a = nat] by (simp add: unsigned_ucast_eq take_bit_nat_eq_self)

lemma ucast_of_raw: "unat (raw :: u32) = unat k \<Longrightarrow> (ucast raw :: u64) = k"
  by (metis unat_ucast_u32 unsigned_word_eqI)

lemma ucast_u32_inj: "(ucast (a :: u32) :: u64) = ucast b \<Longrightarrow> a = b"
  by (metis unat_ucast_u32 unsigned_word_eqI)

lemma vu_sinv_more:
  "vu_sinv pk cs grp conf (l, s) \<Longrightarrow> set l \<subseteq> set l' \<Longrightarrow> vu_sinv pk cs grp conf (l', s)"
  unfolding vu_sinv_def using vu_ok_more [OF _ image_mono] by auto

lemma vu_sequenced_ok:
  assumes "vu_sinv pk cs grp conf (l, s)" "small k" "small (grp k)" "unat raw_k = unat k" "unat raw_g = unat (grp k)"
  obtains kq gq where "vu_sequenced raw_k raw_g s = (k, grp k, s\<lparr>vu_kseq := kq, vu_gseq := gq\<rparr>)"
    "vu_sinv pk cs grp conf (l, s\<lparr>vu_kseq := kq, vu_gseq := gq\<rparr>)"
proof -
  have n: "small (newest_seq (vu_kseq s))" "small (newest_seq (vu_gseq s))" using assms(1) by (simp_all add: vu_sinv_def)
  then have w: "unat (newest_seq (vu_kseq s)) < 2 ^ 63" "unat (newest_seq (vu_gseq s)) < 2 ^ 63" by (simp_all add: small_def)
  have "fst (seq_u32 (vu_kseq s) raw_k) = k" by (rule numbered_unroll [OF small_numbered [OF assms(2) n(1) assms(4)] w(1)])
  moreover have "fst (seq_u32 (vu_gseq s) raw_g) = grp k"
    by (rule numbered_unroll [OF small_numbered [OF assms(3) n(2) assms(5)] w(2)])
  ultimately have "vu_sequenced raw_k raw_g s
      = (k, grp k, s\<lparr>vu_kseq := snd (seq_u32 (vu_kseq s) raw_k), vu_gseq := snd (seq_u32 (vu_gseq s) raw_g)\<rparr>)"
    by (simp add: vu_sequenced_def Let_def case_prod_beta)
  moreover have "small (newest_seq (snd (seq_u32 (vu_kseq s) raw_k)))" "small (newest_seq (snd (seq_u32 (vu_gseq s) raw_g)))"
    using small_newest [OF assms(2) n(1) assms(4)] small_newest [OF assms(3) n(2) assms(5)] .
  ultimately show thesis using assms(1) that [of "snd (seq_u32 (vu_gseq s) raw_g)" "snd (seq_u32 (vu_kseq s) raw_k)"]
    by (simp add: vu_sinv_def)
qed

lemma vu_step_datagram_keeps:
  assumes "vu_sinv pk cs grp conf (l, s)" "vu_authentic pk cs grp conf (VDatagram data raw_k raw_g n e)"
  shows "vu_keeps pk cs grp conf l (vu_next s) (vu_dropped s) (vu_step (ts, Msg (VDatagram data raw_k raw_g n e)) s)"
proof -
  obtain k where k: "\<not> conf k" "small k" "small (grp k)" "unat raw_k = unat k" "unat raw_g = unat (grp k)"
    "n < length (cs k)" "e = (Suc n = length (cs k))" "data = cs k ! n" using assms(2) by auto
  obtain kq gq where q: "vu_sequenced raw_k raw_g s = (k, grp k, s\<lparr>vu_kseq := kq, vu_gseq := gq\<rparr>)"
    "vu_sinv pk cs grp conf (l, s\<lparr>vu_kseq := kq, vu_gseq := gq\<rparr>)" by (rule vu_sequenced_ok [OF assms(1) k(2-5)])
  show ?thesis
  proof (cases "k < vu_next s")
    case True
    with q vu_idle_keeps [OF q(2), of "vu_next s" "vu_dropped s" "[]"] show ?thesis by (simp add: vu_step_def vu_dropped_def)
  next
    case False
    have "objects_ok pk cs (\<lambda>k. \<not> conf k \<and> small k)"
      "vu_ok pk cs grp conf (ucast ` set l) (vu_next s) (vu_pending s)" using assms(1) by (simp_all add: vu_sinv_def)
    from vu_insert_datagram_ok [OF this k(1,2) _ k(6), of "ts 0"] False [unfolded not_less]
    obtain p where p: "vu_insert_datagram (ts 0) (grp k) k n e data (vu_pending s) = Inr p"
      "vu_ok pk cs grp conf (ucast ` set l) (vu_next s) p" using k(7,8) by auto
    let ?s = "s\<lparr>vu_kseq := kq, vu_gseq := gq, vu_pending := p\<rparr>"
    have "vu_sinv pk cs grp conf (l, ?s)" using q(2) p(2) by (simp add: vu_sinv_def)
    from vu_forward_keeps [OF this, of "ts 1"] q(1) False p(1) show ?thesis by (simp add: vu_step_def vu_dropped_def)
  qed
qed

lemma vu_step_stream_keeps:
  assumes "vu_sinv pk cs grp conf (l, s)" "vu_authentic pk cs grp conf (VStream packet raw_k raw_g)"
    and "\<forall>h. packet \<noteq> Codec h" "raw_k \<notin> set l"
  shows "vu_keeps pk cs grp conf (raw_k # l) (vu_next s) (vu_dropped s) (vu_step (ts, Msg (VStream packet raw_k raw_g)) s)"
proof -
  obtain k where k: "conf k" "small k" "small (grp k)" "unat raw_k = unat k" "unat raw_g = unat (grp k)" "packet = pk k"
    using assms(2,3) by auto
  obtain kq gq where q: "vu_sequenced raw_k raw_g s = (k, grp k, s\<lparr>vu_kseq := kq, vu_gseq := gq\<rparr>)"
    "vu_sinv pk cs grp conf (l, s\<lparr>vu_kseq := kq, vu_gseq := gq\<rparr>)" by (rule vu_sequenced_ok [OF assms(1) k(2-5)])
  have raw: "ucast raw_k = k" using k(4) by (rule ucast_of_raw)
  have st: "vu_step (ts, Msg (VStream packet raw_k raw_g)) s =
      (if k \<ge> vu_next s
       then (case vu_insert_stream_packet (grp k) k packet (vu_pending s) of
               Inl e \<Rightarrow> ([], Failed e)
             | Inr p \<Rightarrow> vu_forward (ts 1) (s\<lparr>vu_kseq := kq, vu_gseq := gq, vu_pending := p\<rparr>))
       else vu_forward (ts 1) (s\<lparr>vu_kseq := kq, vu_gseq := gq\<rparr>))"
    using assms(3) q(1) by (cases packet) (simp_all add: vu_step_def)
  show ?thesis
  proof (cases "vu_next s \<le> k")
    case False
    have "vu_sinv pk cs grp conf (raw_k # l, s\<lparr>vu_kseq := kq, vu_gseq := gq\<rparr>)" by (rule vu_sinv_more [OF q(2)]) auto
    from vu_forward_keeps [OF this, of "ts 1"] st False show ?thesis by (simp add: vu_dropped_def)
  next
    case True
    have v: "vf_layout grp conf" "vu_ok pk cs grp conf (ucast ` set l) (vu_next s) (vu_pending s)"
      using assms(1) by (simp_all add: vu_sinv_def)
    have "k \<notin> ucast ` set l" using assms(4) ucast_u32_inj raw by blast
    from vu_insert_stream_ok [OF v k(1,2) True this]
    obtain p where p: "vu_insert_stream_packet (grp k) k packet (vu_pending s) = Inr p"
      "vu_ok pk cs grp conf (insert k (ucast ` set l)) (vu_next s) p" using k(6) by auto
    have "vu_sinv pk cs grp conf (raw_k # l, s\<lparr>vu_kseq := kq, vu_gseq := gq, vu_pending := p\<rparr>)"
      using q(2) p(2) raw by (simp add: vu_sinv_def)
    from vu_forward_keeps [OF this, of "ts 1"] st True p(1) show ?thesis by (simp add: vu_dropped_def)
  qed
qed

lemma vu_step_keeps:
  assumes "vu_sinv pk cs grp conf (l, s)" "vu_from_sender pk cs grp conf ev (l, s)"
  shows "vu_keeps pk cs grp conf (log_entry vu_config_number ev l) (vu_next s) (vu_dropped s) (vu_step ev s)"
proof -
  obtain ts w where ev: "ev = (ts, w)" by (cases ev)
  note idle = vu_idle_keeps [OF assms(1), of "vu_next s" "vu_dropped s"]
  show ?thesis
  proof (cases w)
    case (Msg m)
    with assms(2) ev have au: "vu_authentic pk cs grp conf m" by simp
    show ?thesis
    proof (cases m)
      case (VStream packet raw_k raw_g)
      show ?thesis
      proof (cases "\<exists>h. packet = Codec h")
        case True
        with idle [of "[(None, packet)]"] ev Msg VStream show ?thesis by (auto simp: vu_step_def log_entry_def)
      next
        case False
        then have "vu_config_number ev = Some raw_k" using ev Msg VStream by (cases packet) auto
        with vu_step_stream_keeps [OF assms(1), of packet raw_k raw_g ts] assms(2) ev Msg VStream au False
        show ?thesis by (simp add: log_entry_def)
      qed
    next
      case (VDatagram data raw_k raw_g n e)
      with vu_step_datagram_keeps [OF assms(1) au [unfolded VDatagram], of ts] ev Msg show ?thesis by (simp add: log_entry_def)
    qed
  next
    case Timer
    with idle [of "[]"] vu_forward_keeps [OF assms(1)] ev show ?thesis
      by (auto simp: vu_step_def log_entry_def split: option.splits)
  next
    case Closed
    then show ?thesis using ev by (simp add: vu_step_def log_entry_def vu_keeps_def)
  next
    case (MsgErr e)
    with idle [of "[]"] ev show ?thesis by (simp add: vu_step_def log_entry_def)
  qed
qed

text \<open>The contracts of a receiver, for the loop with the history of its configs.\<close>

abbreviation vu_logged :: "vu_msg event \<Rightarrow> u32 list \<times> vu_state \<Rightarrow> emission list \<times> (u32 list \<times> vu_state) status" where
  "vu_logged \<equiv> logged vu_config_number vu_step"

lemma vu_logged_keeps:
  assumes "vu_sinv pk cs grp conf h" "vu_from_sender pk cs grp conf ev h" "vu_logged ev h = (os, st)"
  obtains st1 where "vu_keeps pk cs grp conf (log_entry vu_config_number ev (fst h)) (vu_next (snd h)) (vu_dropped (snd h)) (os, st1)"
    "st = map_status (Pair (log_entry vu_config_number ev (fst h))) st1"
proof -
  obtain l s where h: "h = (l, s)" by (cases h)
  obtain st1 where "vu_step ev s = (os, st1)" "st = map_status (Pair (log_entry vu_config_number ev l)) st1"
    using assms(3) unfolding h by (rule logged_cases)
  with vu_step_keeps [OF assms(1,2) [unfolded h]] h that show thesis by simp
qed

interpretation vu_rcv: ordered_receiver vu_logged "vu_sinv pk cs grp conf" "vu_from_sender pk cs grp conf"
  "\<lambda>h. vu_next (snd h)" "\<lambda>h. vu_dropped (snd h)" for pk cs grp conf
proof (standard, goal_cases)
  case (1 h e os h')
  then show ?case by (rule vu_logged_keeps) (auto simp: vu_keeps_def map_status_eq)
next
  case (2 h e os f)
  then show ?case by (rule vu_logged_keeps) (auto simp: vu_keeps_def map_status_eq)
next
  case (3 h e os st)
  then show ?case by (rule vu_logged_keeps) (auto simp: vu_keeps_def map_status_eq)
qed

interpretation vu_emit: emitting_receiver vu_logged "vu_sinv pk cs grp conf" "vu_from_sender pk cs grp conf"
  "genuine pk" for pk cs grp conf
proof (standard, goal_cases)
  case (1 h e os st x)
  from 1(1-3) show ?case by (rule vu_logged_keeps) (use 1(4) in \<open>auto simp: vu_keeps_def\<close>)
qed

end
