(* ===== verification/VideoUnreliable_End.thy ===== *)
theory VideoUnreliable_End
  imports VideoUnreliable_Props
begin

text \<open>
  The unreliable video protocol from end to end: what the sender puts on its stream and into its
  datagrams, what the reader tasks make of it, and what the receiver forwards.
\<close>

section \<open>What the sender writes\<close>

abbreviation vu_pieces :: "nat \<Rightarrow> av_packet \<Rightarrow> bytes list" where
  "vu_pieces m p \<equiv> pieces (m - vu_DATAGRAM_HEADER_SIZE) (av_enc p)"

definition vu_sent_for :: "u16 \<times> nat option \<Rightarrow> u32 \<times> u32 \<times> av_packet \<Rightarrow> bytes \<Rightarrow> bool" where
  "vu_sent_for lim x dg \<longleftrightarrow>
     (\<exists>m n. snd lim = Some m \<and> vu_DATAGRAM_HEADER_SIZE < m \<and> n < length (vu_pieces m (snd (snd x)))
        \<and> dg = put_u16 (fst lim) @ put_u32 (fst x) @ put_u32 (fst (snd x))
                @ put_u32 (number_and_end n (Suc n = length (vu_pieces m (snd (snd x))))) @ vu_pieces m (snd (snd x)) ! n)"

lemma vu_send_datagrams_ok:
  assumes "vu_send_datagrams h payload s = (Inr u, s')"
  shows "vs_stream s' = vs_stream s \<and> vs_kypacket_seq s' = vs_kypacket_seq s \<and> vs_group_seq s' = vs_group_seq s
       \<and> sc_limits (vs_channel s') = sc_limits (vs_channel s)
       \<and> (\<forall>dg \<in> set (sc_sent (vs_channel s')). dg \<in> set (sc_sent (vs_channel s)) \<or>
            vu_sent_for (sc_limits (vs_channel s)) (vs_kypacket_seq s, vs_group_seq s, Media h payload) dg)"
proof -
  let ?p = "Media h payload"
  obtain m where m: "sc_max_datagram (vs_channel s) = Some m"
    using assms by (auto simp: vu_send_datagrams_def split: option.splits)
  with assms have big: "vu_DATAGRAM_HEADER_SIZE < m"
    by (cases "vu_DATAGRAM_HEADER_SIZE < m") (simp_all add: vu_send_datagrams_def)
  obtain hdr where hdr: "media_serialize h = Inr hdr"
    using assms m big by (cases "media_serialize h") (simp_all add: vu_send_datagrams_def)
  let ?room = "m - vu_DATAGRAM_HEADER_SIZE"
  define dgs where "dgs = map (vu_datagram s) (cut_segments ?room 0 (av_enc ?p))"
  have s': "s' = s\<lparr>vs_channel := snd (send_datagram_list dgs (vs_channel s))\<rparr>"
    using assms m big hdr by (auto simp: vu_send_datagrams_def Let_def dgs_def apsnd_def map_prod_def
        split: if_splits prod.splits)
  obtain k where k: "sc_sent (vs_channel s') = sc_sent (vs_channel s) @ take k dgs"
    using send_datagram_list_prefix [of dgs "vs_channel s"] s' by auto
  have "vu_sent_for (sc_limits (vs_channel s)) (vs_kypacket_seq s, vs_group_seq s, ?p) dg" if d: "dg \<in> set dgs" for dg
  proof -
    obtain x where x: "x \<in> set (cut_segments ?room 0 (av_enc ?p))" "dg = vu_datagram s x"
      using d unfolding dgs_def set_map by blast
    obtain n e data where xe: "x = (n, e, data)" by (cases x)
    have "n < length (vu_pieces m ?p)" "e = (Suc n = length (vu_pieces m ?p))" "data = vu_pieces m ?p ! n"
      using x(1) big unfolding xe by (simp_all add: cut_segments_mem)
    then show ?thesis unfolding vu_sent_for_def snd_conv fst_conv
      using m big x(2) xe
      by (intro exI [of _ m] exI [of _ n]) (simp add: vu_datagram_def write_datagram_header_def sc_limits_def)
  qed
  with k s' send_datagram_list_limits [of dgs "vs_channel s"] show ?thesis by (auto dest: in_set_takeD)
qed

interpretation vu_snd: datagram_sender vu_send_datagrams vu_sent_for
  by standard (rule vu_send_datagrams_ok)

section \<open>What the reader tasks make of it\<close>

lemma pieces_length: "length (pieces room data) \<le> length data"
proof (induction room data rule: pieces.induct)
  case (1 room data)
  show ?case
  proof (cases "data = [] \<or> room = 0")
    case False
    with 1 have "length (pieces room (drop room data)) \<le> length data - room" by simp
    with False show ?thesis by (subst pieces.simps) (cases data; auto)
  qed (subst pieces.simps; simp)
qed

lemma vu_parse_sent:
  assumes "vu_sent_for lim (a, b, p) dg" "length (av_enc p) \<le> 2 ^ 31"
  obtains m n where "snd lim = Some m" "vu_DATAGRAM_HEADER_SIZE < m" "n < length (vu_pieces m p)"
    "vu_parse dg = Inr (VDatagram (vu_pieces m p ! n) a b n (Suc n = length (vu_pieces m p)))"
proof -
  obtain m n where m: "snd lim = Some m" "vu_DATAGRAM_HEADER_SIZE < m" "n < length (vu_pieces m p)"
    and dg: "dg = put_u16 (fst lim) @ put_u32 a @ put_u32 b
      @ put_u32 (number_and_end n (Suc n = length (vu_pieces m p))) @ vu_pieces m p ! n"
    using assms(1) unfolding vu_sent_for_def by auto
  let ?w = "number_and_end n (Suc n = length (vu_pieces m p))"
  have "n < 2 ^ 31" using m(3) assms(2) pieces_length [of "m - vu_DATAGRAM_HEADER_SIZE" "av_enc p"] by linarith
  note w = number_roundtrip [OF this]
  have parts: "take 4 (drop 2 dg) = put_u32 a" "take 4 (drop 6 dg) = put_u32 b" "take 4 (drop 10 dg) = put_u32 ?w"
    "drop 14 dg = vu_pieces m p ! n" "length dg \<ge> 14"
    by (simp_all add: dg)
  then have "vu_parse dg = Inr (VDatagram (vu_pieces m p ! n) a b n (Suc n = length (vu_pieces m p)))"
    by (simp add: vu_parse_def vu_DATAGRAM_HEADER_SIZE_def w)
  with m that show thesis by blast
qed

definition vu_record_msg :: "u32 \<times> u32 \<times> av_packet \<Rightarrow> vu_msg" where
  "vu_record_msg r = VStream (snd (snd r)) (fst r) (fst (snd r))"

lemma vu_read_record:
  assumes "av_valid p" "rbuf r = vf_record_bytes (k, g, p) @ rest"
  shows "vu_read_stream_msg r = Inr (VStream p k g, r\<lparr>rbuf := rest\<rparr>)"
proof -
  have "read_exact 8 r = Inr (put_u32 k @ put_u32 g, r\<lparr>rbuf := av_enc p @ rest\<rparr>)"
    by (rule read_exact_append) (use assms(2) in \<open>simp_all add: vf_record_bytes_def\<close>)
  moreover have "av_read (r\<lparr>rbuf := av_enc p @ rest\<rparr>) = Inr (Some (p, r\<lparr>rbuf := rest\<rparr>))"
    using av_read_enc [OF assms(1), of "r\<lparr>rbuf := av_enc p @ rest\<rparr>" rest] by simp
  ultimately show ?thesis by (simp add: vu_read_stream_msg_def read_packet_def)
qed

lemma vu_recv_step:
  "vu_read_stream_msg r = Inr (m, r') \<Longrightarrow> fst (vu_recv_stream_packets r) = m # fst (vu_recv_stream_packets r')"
  by (subst vu_recv_stream_packets.simps) (simp add: case_prod_beta)

lemma vu_recv_records:
  assumes "\<forall>x \<in> set rs. av_valid (snd (snd x))" "rbuf r = concat (map vf_record_bytes rs)"
  shows "fst (vu_recv_stream_packets r) = map vu_record_msg rs"
  using assms
proof (induction rs arbitrary: r)
  case Nil
  then have "read_exact 8 r = Inl (end_err ''early eof'' r)" by (simp add: read_exact_def)
  then show ?case by (subst vu_recv_stream_packets.simps) (simp add: vu_read_stream_msg_def)
next
  case (Cons x rs)
  obtain k g p where x: "x = (k, g, p)" by (cases x)
  have "vu_read_stream_msg r = Inr (VStream p k g, r\<lparr>rbuf := concat (map vf_record_bytes rs)\<rparr>)"
    by (rule vu_read_record) (use Cons.prems x in simp_all)
  from vu_recv_step [OF this] Cons.IH [of "r\<lparr>rbuf := concat (map vf_record_bytes rs)\<rparr>"] Cons.prems(1) x show ?case
    by (simp add: vu_record_msg_def)
qed

lemma vu_read_extend:
  assumes "vu_read_stream_msg r = Inr (m, r')" "rbuf q = rbuf r @ ext"
  shows "vu_read_stream_msg q = Inr (m, q\<lparr>rbuf := rbuf r' @ ext\<rparr>)"
proof -
  obtain seqs r1 where s1: "read_exact 8 r = Inr (seqs, r1)"
    using assms(1) by (cases "read_exact 8 r") (auto simp: vu_read_stream_msg_def)
  with assms(1) obtain p where p: "av_read r1 = Inr (Some (p, r'))" "m = VStream p (get_u32 (take 4 seqs)) (get_u32 (drop 4 seqs))"
    by (auto simp: vu_read_stream_msg_def read_packet_def map_err_def and_then_eq_Inr split: sum.splits option.splits)
  from read_exact_extend [OF s1 assms(2)] av_read_extend [OF p(1), of "q\<lparr>rbuf := rbuf r1 @ ext\<rparr>" ext] p(2)
  show ?thesis by (simp add: vu_read_stream_msg_def read_packet_def)
qed

lemma vu_recv_extend:
  assumes "rbuf q = rbuf r @ ext"
  shows "prefix (fst (vu_recv_stream_packets r)) (fst (vu_recv_stream_packets q))"
  using assms
proof (induction r arbitrary: q rule: vu_recv_stream_packets.induct)
  case (1 r)
  show ?case
  proof (cases "vu_read_stream_msg r")
    case (Inl e)
    then show ?thesis by (subst (1) vu_recv_stream_packets.simps) simp
  next
    case (Inr y)
    obtain m r' where y: "vu_read_stream_msg r = Inr (m, r')" using Inr by (cases y) simp
    have "prefix (fst (vu_recv_stream_packets r')) (fst (vu_recv_stream_packets (q\<lparr>rbuf := rbuf r' @ ext\<rparr>)))"
      by (rule "1.IH" [OF y refl]) simp
    with vu_recv_step [OF y] vu_recv_step [OF vu_read_extend [OF y "1.prems"]] show ?thesis by simp
  qed
qed

text \<open>However much of the stream arrives, the messages are those of the first records.\<close>

lemma vu_recv_prefix:
  assumes "\<forall>x \<in> set rs. av_valid (snd (snd x))"
  shows "prefix (fst (vu_recv_stream_packets \<lparr>rbuf = take n (concat (map vf_record_bytes rs)), rerr = e\<rparr>)) (map vu_record_msg rs)"
proof -
  let ?bs = "concat (map vf_record_bytes rs)"
  have "prefix (fst (vu_recv_stream_packets \<lparr>rbuf = take n ?bs, rerr = e\<rparr>)) (fst (vu_recv_stream_packets \<lparr>rbuf = ?bs, rerr = e\<rparr>))"
    by (rule vu_recv_extend [of _ _ "drop n ?bs"]) simp
  with vu_recv_records [OF assms, of "\<lparr>rbuf = ?bs, rerr = e\<rparr>"] show ?thesis by simp
qed

section \<open>Every config once\<close>

text \<open>The stream messages among the events, in their order.\<close>

fun vu_stream_of :: "vu_msg event \<Rightarrow> vu_msg option" where
  "vu_stream_of (ts, Msg (VStream packet raw_k raw_g)) = Some (VStream packet raw_k raw_g)"
| "vu_stream_of ev = None"

fun vu_msg_number :: "vu_msg \<Rightarrow> u32 option" where
  "vu_msg_number (VStream (Codec h) raw_k raw_g) = None"
| "vu_msg_number (VStream packet raw_k raw_g) = Some raw_k"
| "vu_msg_number m = None"

lemma vu_config_number_stream: "vu_config_number ev = Option.bind (vu_stream_of ev) vu_msg_number"
  by (cases ev rule: vu_config_number.cases) auto

lemma map_filter_bind: "List.map_filter (\<lambda>e. Option.bind (f e) g) es = List.map_filter g (List.map_filter f es)"
  by (induction es) (auto simp: List.map_filter_simps split: option.splits)

lemma prefix_map_filter: "prefix xs ys \<Longrightarrow> prefix (List.map_filter f xs) (List.map_filter f ys)"
  by (auto simp: prefix_def List.map_filter_def)

lemma vf_records_distinct:
  assumes "length (filter is_media ps) < 2 ^ 32"
  shows "distinct (map fst (filter (\<lambda>r. is_media (snd (snd r))) (vf_records k g ps)))"
  using assms
proof (induction k g ps rule: vf_records.induct)
  case (2 k g h payload ps)
  have "k \<notin> fst ` {r \<in> set (vf_records (k + 1) (g + 1) ps). is_media (snd (snd r))}"
  proof
    assume "k \<in> fst ` {r \<in> set (vf_records (k + 1) (g + 1) ps). is_media (snd (snd r))}"
    then obtain b p where "(k, b, p) \<in> set (vf_records (k + 1) (g + 1) ps)" "is_media p" by auto
    from vf_records_index [OF this(1)] this(2)
    obtain i where i: "i < length (filter is_media ps)" "k = k + 1 + of_nat i" by auto
    then have "of_nat (Suc i) = (0 :: u32)" by (simp add: add.assoc)
    then have "unat (of_nat (Suc i) :: u32) = 0" by simp
    with i(1) "2.prems" show False by (simp add: unsigned_of_nat take_bit_nat_eq_self del: of_nat_Suc)
  qed
  with 2 show ?case by auto
qed auto

lemma vu_record_numbers:
  assumes "\<forall>x \<in> set rs. \<forall>h. snd (snd x) \<noteq> Hole h"
  shows "List.map_filter vu_msg_number (map vu_record_msg rs) = map fst (filter (\<lambda>r. is_media (snd (snd r))) rs)"
  using assms
proof (induction rs)
  case (Cons x rs)
  obtain k g p where x: "x = (k, g, p)" by (cases x)
  with Cons show ?case by (cases p) (auto simp: List.map_filter_simps vu_record_msg_def)
qed (simp add: List.map_filter_simps)

section \<open>End to end\<close>

definition sent_cs :: "nat \<Rightarrow> av_packet \<Rightarrow> av_packet list \<Rightarrow> u64 \<Rightarrow> bytes list" where
  "sent_cs m dflt ms k = vu_pieces (max m (Suc vu_DATAGRAM_HEADER_SIZE)) (sent_pk dflt ms k)"

text \<open>
  What the events may be: of the stream any part from its start, in its order; of the datagrams
  any, in any order and number.
\<close>

definition vu_arrives :: "bytes \<Rightarrow> bytes list \<Rightarrow> vu_msg event list \<Rightarrow> bool" where
  "vu_arrives bs dgs es \<longleftrightarrow>
     (\<exists>n e. prefix (List.map_filter vu_stream_of es) (fst (vu_recv_stream_packets \<lparr>rbuf = take n bs, rerr = e\<rparr>)))
     \<and> (\<forall>ev \<in> set es. \<forall>m. snd ev = Msg m \<and> vu_stream_of ev = None \<longrightarrow> (\<exists>dg \<in> set dgs. vu_parse dg = Inr m))"

lemma vu_stream_authentic:
  assumes "\<forall>p \<in> set ps. av_valid p" "\<forall>h. Hole h \<notin> set ps" "length ps < 2 ^ 31"
    and "r \<in> set (vf_records 0 0 ps)"
  defines "ms \<equiv> filter is_media ps"
  shows "vu_authentic (sent_pk dflt ms) cs (sent_grp ms) (sent_conf ms) (vu_record_msg r)"
proof -
  obtain a b p where r: "r = (a, b, p)" by (cases r)
  have short: "length ms < 2 ^ 31" using assms(3) length_filter_le [of is_media ps] unfolding ms_def by linarith
  show ?thesis
  proof (cases "is_media p")
    case False
    with vf_records_valid [OF assms(1,2,4)] r show ?thesis by (cases p) (auto simp: vu_record_msg_def)
  next
    case True
    then obtain i where i: "i < length ms" "ms ! i = p" "is_conf p" "a = of_nat i" "b = of_nat (confs (Suc i) ms)"
      using vf_records_index [OF assms(4) [unfolded r]] unfolding ms_def by auto
    note n = sent_numbers [OF short i(1)]
    have "sent_conf ms (of_nat i)" "p = sent_pk dflt ms (of_nat i)"
      unfolding sent_conf_def sent_pk_def n(1) using i by simp_all
    with n(2-5) r i(4,5) show ?thesis by (auto simp: vu_record_msg_def)
  qed
qed

lemma vu_datagram_authentic:
  assumes "\<forall>p \<in> set ps. length (av_enc p) \<le> 2 ^ 31" "length ps < 2 ^ 31" "snd lim = Some m"
    and "x \<in> set (vf_sent_objects 0 0 ps)" "vu_sent_for lim x dg" "vu_parse dg = Inr msg"
  defines "ms \<equiv> filter is_media ps"
  shows "vu_authentic (sent_pk dflt ms) (sent_cs m dflt ms) (sent_grp ms) (sent_conf ms) msg"
proof -
  obtain a b p where x: "x = (a, b, p)" by (cases x)
  have short: "length ms < 2 ^ 31" using assms(2) length_filter_le [of is_media ps] unfolding ms_def by linarith
  obtain i where i: "i < length ms" "ms ! i = p" "is_media p" "\<not> is_conf p" "a = of_nat i"
    "b = of_nat (confs (Suc i) ms)" using vf_sent_objects_index [OF assms(4) [unfolded x]] unfolding ms_def by auto
  have "p \<in> set ps" using i(1,2) nth_mem [of i ms] unfolding ms_def by auto
  then have len: "length (av_enc p) \<le> 2 ^ 31" using assms(1) by blast
  obtain m' n where d: "snd lim = Some m'" "vu_DATAGRAM_HEADER_SIZE < m'" "n < length (vu_pieces m' p)"
    "vu_parse dg = Inr (VDatagram (vu_pieces m' p ! n) a b n (Suc n = length (vu_pieces m' p)))"
    by (rule vu_parse_sent [OF assms(5) [unfolded x] len])
  note nn = sent_numbers [OF short i(1)]
  have "max m (Suc vu_DATAGRAM_HEADER_SIZE) = m'" using d(1,2) assms(3) by simp
  then have "sent_cs m dflt ms (of_nat i) = vu_pieces m' p" "\<not> sent_conf ms (of_nat i)"
    unfolding sent_cs_def sent_pk_def sent_conf_def nn(1) using i by simp_all
  with nn(2-5) i(5,6) d(3,4) assms(6) show ?thesis by auto
qed

lemma vu_init_sinv:
  assumes "\<forall>p \<in> set ms. av_valid p \<and> is_media p" "length ms < 2 ^ 31" "av_valid dflt" "is_media dflt"
  shows "vu_sinv (sent_pk dflt ms) (sent_cs m dflt ms) (sent_grp ms) (sent_conf ms) ([], vu_init)"
proof -
  have "av_valid (sent_pk dflt ms k) \<and> is_media (sent_pk dflt ms k)" for k
    using assms(1,3,4) by (simp add: sent_pk_def)
  moreover from this have "\<exists>h payload. sent_pk dflt ms k = Media h payload" for k
    by (metis is_media.elims(2))
  moreover have "sent_cs m dflt ms k \<noteq> [] \<and> concat (sent_cs m dflt ms k) = av_enc (sent_pk dflt ms k)" for k
    using pieces_nonempty [of _ "av_enc (sent_pk dflt ms k)"] pieces_concat av_enc_nonempty calculation
    unfolding sent_cs_def by (metis less_max_iff_disj lessI zero_less_diff)
  ultimately have "objects_ok (sent_pk dflt ms) (sent_cs m dflt ms) (\<lambda>k. \<not> sent_conf ms k \<and> small k)"
    by (simp add: objects_ok_def)
  with sent_layout [OF assms(2)] show ?thesis
    by (simp add: vu_sinv_def vu_init_def vu_ok_def sequencer_new_def small_def)
qed

lemma vu_authentic_subseq:
  assumes "\<forall>p \<in> set ms. av_valid p \<and> is_media p" "length ms < 2 ^ 31"
    and ok: "\<And>dflt. run_ok (vu_from_sender (sent_pk dflt ms) (sent_cs m dflt ms) (sent_grp ms) (sent_conf ms)) vu_logged es ([], vu_init)"
    and run: "run vu_step es vu_init = (os, st)"
  shows "subseq (map snd (filter (\<lambda>x. fst x \<noteq> None) os)) ms \<and> (\<forall>f. st = Failed f \<longrightarrow> \<not> panics f)
     \<and> (\<forall>s'. st = Running s' \<longrightarrow> unat (vu_next s') = length (output_seqs os) + vu_dropped s')"
proof -
  let ?dflt = "\<lambda>t. Media \<lparr>is_config = False, is_key = False, pts = t, msize = 0\<rparr> []"
  have v: "av_valid (?dflt 0) \<and> is_media (?dflt 0)" "av_valid (?dflt 1) \<and> is_media (?dflt 1)" by simp_all
  note inv = vu_init_sinv [OF assms(1,2)]
  obtain st' where r: "run vu_logged es ([], vu_init) = (os, st')" "st = map_status snd st'"
    by (rule run_logged_exists [OF run])
  have inside: "unat k < length ms \<and> snd x = ms ! unat k" if "x \<in> set os" "fst x = Some k" for x k
    using vu_emit.run_emits [OF inv [of "?dflt 0"] ok r(1) that(1)] vu_emit.run_emits [OF inv [of "?dflt 1"] ok r(1) that(1)] v that(2)
    by (auto simp: genuine_def sent_pk_def split: if_splits)
  note inv0 = inv [OF conjunct1 [OF v(1)] conjunct2 [OF v(1)]]
  have "sorted_wrt (<) (output_seqs os)" using vu_rcv.run_order [OF inv0 ok r(1)] by blast
  then have "sorted_wrt (<) (map unat (output_seqs os))"
    unfolding sorted_wrt_map by (rule sorted_wrt_mono_rel [rotated]) (simp add: word_less_nat_alt)
  moreover have "\<forall>n \<in> set (map unat (output_seqs os)). n < length ms"
    using inside by (fastforce simp: output_seqs_def map_filter_def)
  ultimately have "subseq (map ((!) ms) (map unat (output_seqs os))) ms" by (rule subseq_nth)
  moreover have "map snd (filter (\<lambda>x. fst x \<noteq> None) os) = map (\<lambda>k. ms ! unat k) (output_seqs os)"
    using inside by (intro output_packets) blast
  moreover have "\<not> panics f" if "st = Failed f" for f
    using vu_rcv.run_no_panic [OF inv0 ok] r that by (simp add: map_status_eq)
  moreover have "unat (vu_next s') = length (output_seqs os) + vu_dropped s'" if "st = Running s'" for s'
    using vu_rcv.run_account [OF inv0 ok, of os] r that by (auto simp: map_status_eq vu_init_def vu_dropped_def stats_new_def)
  ultimately show ?thesis by (simp add: comp_def)
qed

text \<open>What arrives by the stream is among the records, and every config arrives once.\<close>

lemma vu_arrives_stream:
  assumes "\<forall>p \<in> set ps. av_valid p" "\<forall>h. Hole h \<notin> set ps" "length ps < 2 ^ 31"
    and "vu_arrives (concat (map vf_record_bytes (vf_records 0 0 ps))) dgs es"
  shows "set (List.map_filter vu_stream_of es) \<subseteq> vu_record_msg ` set (vf_records 0 0 ps)"
    "distinct (List.map_filter vu_config_number es)"
proof -
  let ?rs = "vf_records 0 0 ps"
  have rv: "\<forall>x \<in> set ?rs. av_valid (snd (snd x))" "\<forall>x \<in> set ?rs. \<forall>h. snd (snd x) \<noteq> Hole h"
    using vf_records_valid [OF assms(1,2)] by blast+
  obtain n e where "prefix (List.map_filter vu_stream_of es)
      (fst (vu_recv_stream_packets \<lparr>rbuf = take n (concat (map vf_record_bytes ?rs)), rerr = e\<rparr>))"
    using assms(4) unfolding vu_arrives_def by blast
  note pre = prefix_order.trans [OF this vu_recv_prefix [OF rv(1)]]
  show "set (List.map_filter vu_stream_of es) \<subseteq> vu_record_msg ` set ?rs"
    using set_mono_prefix [OF pre] by simp
  have "prefix (List.map_filter vu_config_number es) (map fst (filter (\<lambda>r. is_media (snd (snd r))) ?rs))"
    using prefix_map_filter [OF pre, of vu_msg_number] vu_record_numbers [OF rv(2)]
    by (simp add: map_filter_bind [symmetric] vu_config_number_stream [abs_def, symmetric])
  moreover have "distinct (map fst (filter (\<lambda>r. is_media (snd (snd r))) ?rs))"
    by (rule vf_records_distinct, rule order_le_less_trans [OF length_filter_le]) (use assms(3) in simp)
  ultimately show "distinct (List.map_filter vu_config_number es)" by (auto simp: prefix_def distinct_append)
qed

text \<open>
  C26: Sender and receiver of the unreliable video protocol agree. Whatever part of a sender's
  datagrams arrives, repeated and reordered at will, and however much of its stream, the media
  packets the receiver forwards are a subsequence of the media packets that were sent; every
  number the receiver has passed was forwarded or counted as dropped; and nothing a sender sends
  panics the receiver. Packets are shorter than 2 GiB, so that their datagrams can be numbered.
\<close>

theorem vu_end_to_end:
  assumes "vu_send_start c (Inr new_writer) = Inr s0" "sc_sent c = []"
    and "\<forall>p \<in> set ps. av_valid p \<and> length (av_enc p) \<le> 2 ^ 31" "length ps < 2 ^ 31"
    and "vf_send_all vu_send_datagrams ps s0 = (Inr (), s)"
    and "vu_arrives (drop 2 (wout (vs_stream s))) (sc_sent (vs_channel s)) es"
    and "run vu_step es vu_init = (os, st)"
  shows "subseq (map snd (filter (\<lambda>x. fst x \<noteq> None) os)) (filter is_media ps)
     \<and> (\<forall>f. st = Failed f \<longrightarrow> \<not> panics f)
     \<and> (\<forall>s'. st = Running s' \<longrightarrow> unat (vu_next s') = length (output_seqs os) + vu_dropped s')"
proof (rule vu_authentic_subseq [OF _ _ _ assms(7)])
  let ?ms = "filter is_media ps"
  define m where "m = (case sc_max_datagram c of Some m \<Rightarrow> m | None \<Rightarrow> 0)"
  note out = vu_snd.started_ok [OF assms(1) [unfolded vu_send_start_def] assms(2,5)]
  have valid: "\<forall>p \<in> set ps. av_valid p" "\<forall>p \<in> set ps. length (av_enc p) \<le> 2 ^ 31" using assms(3) by blast+
  show "\<forall>p \<in> set ?ms. av_valid p \<and> is_media p" using valid by simp
  show "length ?ms < 2 ^ 31" using assms(4) length_filter_le [of is_media ps] by linarith
  note arr = vu_arrives_stream [OF valid(1) out(3) assms(4) assms(6) [unfolded out(1)]]
  fix dflt
  show "run_ok (vu_from_sender (sent_pk dflt ?ms) (sent_cs m dflt ?ms) (sent_grp ?ms) (sent_conf ?ms)) vu_logged es ([], vu_init)"
  proof (rule run_ok_logged [OF _ arr(2)])
    fix ev l s' assume ev: "ev \<in> set es" "\<And>x. vu_config_number ev = Some x \<Longrightarrow> x \<notin> set l"
    have "vu_authentic (sent_pk dflt ?ms) (sent_cs m dflt ?ms) (sent_grp ?ms) (sent_conf ?ms) msg" if msg: "snd ev = Msg msg" for msg
    proof (cases "vu_stream_of ev")
      case None
      then obtain dg where "dg \<in> set (sc_sent (vs_channel s))" "vu_parse dg = Inr msg"
        using assms(6) ev(1) msg unfolding vu_arrives_def by blast
      with out(2) obtain x where x: "x \<in> set (vf_sent_objects 0 0 ps)" "vu_sent_for (sc_limits c) x dg" by blast
      then have "snd (sc_limits c) = Some m" by (auto simp: vu_sent_for_def sc_limits_def m_def)
      from vu_datagram_authentic [OF valid(2) assms(4) this x \<open>vu_parse dg = Inr msg\<close>] show ?thesis .
    next
      case (Some m')
      then have "m' = msg" using msg by (cases ev rule: vu_stream_of.cases) auto
      with Some ev(1) have "msg \<in> set (List.map_filter vu_stream_of es)" by (force simp: List.map_filter_def)
      with arr(1) obtain r where "r \<in> set (vf_records 0 0 ps)" "msg = vu_record_msg r" by blast
      with vu_stream_authentic [OF valid(1) out(3) assms(4)] show ?thesis by simp
    qed
    with ev(2) show "vu_from_sender (sent_pk dflt ?ms) (sent_cs m dflt ?ms) (sent_grp ?ms) (sent_conf ?ms) ev (l, s')" by simp
  qed simp
qed

section \<open>A sender and a receiver\<close>

definition vu_sample_channel :: send_channel where
  "vu_sample_channel = \<lparr>sc_endpoint = 0, sc_max_datagram = Some 21, sc_sent = [], sc_room = None, sc_error = []\<rparr>"

definition vu_sample_sender :: vf_sender where
  "vu_sample_sender = \<lparr>vs_channel = vu_sample_channel, vs_stream = new_writer\<lparr>wout := [0, 0]\<rparr>,
     vs_kypacket_seq = 0, vs_group_seq = 0\<rparr>"

definition vu_sample_wire :: "bytes list" where
  "vu_sample_wire = [[0, 0, 0, 0, 0, 1, 0, 0, 0, 1, 0, 0, 0, 0, 0x80, 0, 0, 0, 0, 0, 0],
     [0, 0, 0, 0, 0, 1, 0, 0, 0, 1, 0x80, 0, 0, 1, 0, 0, 0, 0, 1, 7]]"

definition vu_sample_sender' :: vf_sender where
  "vu_sample_sender' = \<lparr>vs_channel = vu_sample_channel\<lparr>sc_sent := vu_sample_wire\<rparr>,
     vs_stream = new_writer\<lparr>wout := [0, 0] @ rbuf sample_stream\<rparr>, vs_kypacket_seq = 2, vs_group_seq = 1\<rparr>"

definition vu_sample_events :: "vu_msg event list" where
  "vu_sample_events = [(\<lambda>_. 0, Msg (VDatagram [0, 0, 0, 0, 1, 7] 1 1 1 True)), (\<lambda>_. 2, Msg (VStream sample_config 0 1)),
     (\<lambda>_. 7, Msg (VDatagram [0x80, 0, 0, 0, 0, 0, 0] 1 1 0 False))]"

lemma vu_sample_start: "vu_send_start vu_sample_channel (Inr new_writer) = Inr vu_sample_sender"
  by (simp add: vu_send_start_def vf_send_start_def open_uni_def write_endpoint_id_def new_writer_def flush_def write_all_def
      vu_sample_sender_def vu_sample_channel_def put_u16_def be_nat_numeral)

lemma vu_sample_send:
  "vf_send_all vu_send_datagrams [sample_config, sample_media] vu_sample_sender = (Inr (), vu_sample_sender')"
proof -
  let ?s1 = "vu_sample_sender\<lparr>vs_stream := new_writer\<lparr>wout := [0, 0] @ rbuf sample_stream\<rparr>,
    vs_kypacket_seq := 1, vs_group_seq := 1\<rparr>"
  have "vf_send vu_send_datagrams sample_config vu_sample_sender = (Inr (), ?s1)"
    by (simp add: vf_send_def sample_config_def media_serialize_bytes media_word_def push_bit_eq_mult
        vf_write_stream_def vu_sample_sender_def new_writer_def flush_def write_all_def put_u32_def put_u64_def
        be_nat_numeral sample_stream_def)
  moreover have "vf_send vu_send_datagrams sample_media ?s1 = (Inr (), vu_sample_sender')"
    by (simp add: vf_send_def sample_media_def media_serialize_bytes media_word_def push_bit_eq_mult
        vu_send_datagrams_def vu_DATAGRAM_HEADER_SIZE_def vu_sample_sender_def vu_sample_sender'_def vu_sample_wire_def
        vu_sample_channel_def cut_segments.simps vu_datagram_def write_datagram_header_def send_datagram_def
        number_and_end_def put_u32_def put_u64_def put_u16_def be_nat_numeral replicate_numeral)
  ultimately show ?thesis by simp
qed

lemma vu_sample_parse:
  "vu_parse (vu_sample_wire ! 1) = Inr (VDatagram [0, 0, 0, 0, 1, 7] 1 1 1 True)"
  "vu_parse (vu_sample_wire ! 0) = Inr (VDatagram [0x80, 0, 0, 0, 0, 0, 0] 1 1 0 False)"
  by (simp_all add: vu_parse_def vu_sample_wire_def vu_DATAGRAM_HEADER_SIZE_def get_u32_def nat_be_def
      datagram_number_def datagram_end_def push_bit_eq_mult)

definition vu_sample_group :: "config_packet \<Rightarrow> seg_packet list \<Rightarrow> seg_buffer list \<Rightarrow> vu_group list" where
  "vu_sample_group c ds sg = [\<lparr>vg_seq = 1, vg_body = \<lparr>pg_config = c, pg_datagrams = ds, pg_segments = sg\<rparr>\<rparr>]"

definition vu_sample_half :: seg_buffer where
  "vu_sample_half = \<lparr>sb_seq = 1, sb_total = Some 2, sb_slots = [None, Some [0, 0, 0, 0, 1, 7]], sb_count = 1, sb_bytes = 6\<rparr>"

definition vu_sample_state :: "vu_group list \<Rightarrow> u64 \<Rightarrow> vu_state" where
  "vu_sample_state p n = vu_init\<lparr>vu_kseq := \<lparr>newest_seq = 1\<rparr>, vu_gseq := \<lparr>newest_seq = 1\<rparr>, vu_pending := p, vu_next := n\<rparr>"

lemma vu_sample_seqs:
  "seq_u32 \<lparr>newest_seq = 1\<rparr> 0 = (0, \<lparr>newest_seq = 1\<rparr>)"
  by (simp add: seq_u32_def sequencer_seq_def Let_def push_bit_eq_mult word_le_nat_alt)

lemma vu_sample_step1:
  "vu_step (ts, Msg (VDatagram [0, 0, 0, 0, 1, 7] 1 1 1 True)) vu_init
   = ([], Running (vu_sample_state (vu_sample_group CNone [] [vu_sample_half]) 0))"
  by (simp add: vu_step_def vu_init_def vu_sequenced_def sample_unroll vu_insert_datagram_def vu_prepare_group_def
      binary_search_small insert_at_def pg_insert_datagram_def pg_new_def pg_prepare_segments_def seg_new_def set_segment_def
      seg_is_complete_def vu_forward_def vu_take_next_packet_def vu_next_packet_def vu_sample_state_def vu_sample_group_def
      vu_sample_half_def Let_def)

lemma vu_sample_step2:
  "vu_step (ts, Msg (VStream sample_config 0 1)) (vu_sample_state (vu_sample_group CNone ds sg) 0)
   = ([(Some 0, sample_config)], Running (vu_sample_state (vu_sample_group CSent ds sg) 1))"
  by (simp add: vu_step_def sample_config_def vu_sample_state_def vu_init_def vu_sequenced_def vu_sample_seqs sample_unroll
      vu_insert_stream_packet_def vu_prepare_group_def binary_search_small vu_sample_group_def pg_insert_stream_packet_def
      vu_forward_def vu_take_next_packet_def vu_next_packet_def pg_take_config_def Let_def)

lemma vu_sample_assemble:
  "seg_assemble t \<lparr>sb_seq = 1, sb_total = Some 2, sb_slots = [Some [0x80, 0, 0, 0, 0, 0, 0], Some [0, 0, 0, 0, 1, 7]],
     sb_count = 2, sb_bytes = 13\<rparr> = Inr \<lparr>sp_packet = sample_media, sp_seq = 1, sp_instant = t\<rparr>"
proof -
  have "av_enc sample_media = [0x80, 0, 0, 0, 0, 0, 0, 0, 0, 0, 0, 1, 7]"
    by (simp add: sample_media_def media_serialize_bytes media_word_def push_bit_eq_mult put_u64_def put_u32_def be_nat_numeral
        replicate_numeral)
  then show ?thesis
    using seg_assemble_ok [of "[[0x80, 0, 0, 0, 0, 0, 0], [0, 0, 0, 0, 1, 7]]"
        "\<lparr>sb_seq = 1, sb_total = Some 2, sb_slots = [Some [0x80, 0, 0, 0, 0, 0, 0], Some [0, 0, 0, 0, 1, 7]],
          sb_count = 2, sb_bytes = 13\<rparr>" sample_media t]
    by (simp add: seg_wf_def seg_is_complete_def sample_media_def nth_Cons split: nat.splits)
qed

lemma vu_sample_insert:
  "pg_insert_datagram t 1 0 False [0x80, 0, 0, 0, 0, 0, 0] \<lparr>pg_config = c, pg_datagrams = [], pg_segments = [vu_sample_half]\<rparr>
   = Inr \<lparr>pg_config = c, pg_datagrams = [\<lparr>sp_packet = sample_media, sp_seq = 1, sp_instant = t\<rparr>], pg_segments = []\<rparr>"
  using vu_sample_assemble [of t]
  by (simp add: pg_insert_datagram_def binary_search_small pg_prepare_segments_def vu_sample_half_def set_segment_def
      seg_is_complete_def pg_insert_packet_def insert_at_def remove_at_def Let_def eval_nat_numeral)

lemma vu_sample_step3:
  "vu_step (ts, Msg (VDatagram [0x80, 0, 0, 0, 0, 0, 0] 1 1 0 False)) (vu_sample_state (vu_sample_group CSent [] [vu_sample_half]) 1)
   = ([(Some 1, sample_media)], Running (vu_sample_state (vu_sample_group CSent [] []) 2))"
  using vu_sample_insert [of "ts 0" CSent]
  by (simp add: vu_step_def vu_sample_state_def vu_init_def vu_sequenced_def sample_unroll vu_insert_datagram_def vu_prepare_group_def
      binary_search_small vu_sample_group_def vu_forward_def vu_take_next_packet_def vu_next_packet_def pg_take_datagram_def
      pg_drop_expired_def Let_def)

lemma vu_sample_run:
  "run vu_step vu_sample_events vu_init
   = ([(Some 0, sample_config), (Some 1, sample_media)], Running (vu_sample_state (vu_sample_group CSent [] []) 2))"
  using vu_sample_step1 vu_sample_step2 vu_sample_step3 by (simp add: vu_sample_events_def)

theorem vu_end_to_end_witness:
  "vf_send_all vu_send_datagrams [sample_config, sample_media] vu_sample_sender = (Inr (), vu_sample_sender')
     \<and> run vu_step vu_sample_events vu_init
        = ([(Some 0, sample_config), (Some 1, sample_media)], Running (vu_sample_state (vu_sample_group CSent [] []) 2))
     \<and> subseq [sample_config, sample_media] (filter is_media [sample_config, sample_media])"
proof -
  have r: "fst (vu_recv_stream_packets \<lparr>rbuf = rbuf sample_stream, rerr = None\<rparr>) = [VStream sample_config 0 1]"
    using vu_recv_records [of "[(0, 1, sample_config)]" "\<lparr>rbuf = rbuf sample_stream, rerr = None\<rparr>"]
    by (simp add: sample_config_def vf_record_bytes_def media_serialize_bytes media_word_def push_bit_eq_mult put_u64_def
        put_u32_def be_nat_numeral sample_stream_def vu_record_msg_def)
  have n: "take 20 (drop 2 (wout (vs_stream vu_sample_sender'))) = rbuf sample_stream"
    by (simp add: vu_sample_sender'_def sample_stream_def)
  have "vu_arrives (drop 2 (wout (vs_stream vu_sample_sender'))) (sc_sent (vs_channel vu_sample_sender')) vu_sample_events"
    unfolding vu_arrives_def
  proof (intro conjI exI [of _ 20] exI [of _ None])
    show "prefix (List.map_filter vu_stream_of vu_sample_events)
        (fst (vu_recv_stream_packets \<lparr>rbuf = take 20 (drop 2 (wout (vs_stream vu_sample_sender'))), rerr = None\<rparr>))"
      unfolding n r by (simp add: vu_sample_events_def List.map_filter_simps)
  qed (use vu_sample_parse in \<open>auto simp: vu_sample_events_def vu_sample_sender'_def vu_sample_wire_def\<close>)
  moreover have "\<forall>p \<in> set [sample_config, sample_media]. av_valid p \<and> length (av_enc p) \<le> 2 ^ 31"
    by (simp add: sample_config_def sample_media_def media_serialize_bytes)
  moreover have "sc_sent vu_sample_channel = []" "length [sample_config, sample_media] < 2 ^ 31"
    by (simp_all add: vu_sample_channel_def)
  ultimately show ?thesis
    using vu_end_to_end [OF vu_sample_start _ _ _ vu_sample_send _ vu_sample_run] vu_sample_send vu_sample_run by auto
qed

section \<open>A packet that is ready can stay behind\<close>

text \<open>
  C27: After a wake-up that forwards a packet the timer is off, whatever is still pending: no
  passing of time, only a further message, can make the receiver forward again. In the witness a
  frame has arrived before its config: the config is forwarded when it comes, the frame is the
  expected packet and ready to be taken, and stays.
\<close>

theorem vu_forwards_one_per_message:
  assumes "vu_forward now s = (x # os, Running s')"
  shows "os = [] \<and> vu_deadline s' = None \<and> run vu_step (map (\<lambda>ts. (ts, Timer)) tss) s' = ([], Running s')"
proof -
  have s': "os = []" "vu_deadline s' = None"
    using assms by (auto simp: vu_forward_def Let_def split: sum.splits prod.splits vu_action.splits)
  moreover have "run vu_step (map (\<lambda>ts. (ts, Timer)) tss) s' = ([], Running s')"
    by (induction tss) (simp_all add: vu_step_def s')
  ultimately show ?thesis by simp
qed

theorem vu_forwards_one_per_message_witness:
  "\<exists>s'. vu_forward 7 (vu_sample_state (vu_sample_group (CReady sample_config 0)
          [\<lparr>sp_packet = sample_media, sp_seq = 1, sp_instant = 0\<rparr>] []) 0) = ([(Some 0, sample_config)], Running s')
     \<and> vu_next_packet 8 (vu_next s') (vu_pending s') = NReady 0 False
     \<and> run vu_step [(\<lambda>_. 8, Timer), (\<lambda>_. 90000, Timer)] s' = ([], Running s')"
proof -
  let ?p = "vu_sample_group CSent [\<lparr>sp_packet = sample_media, sp_seq = 1, sp_instant = 0\<rparr>] []"
  have f: "vu_forward 7 (vu_sample_state (vu_sample_group (CReady sample_config 0)
      [\<lparr>sp_packet = sample_media, sp_seq = 1, sp_instant = 0\<rparr>] []) 0) = ([(Some 0, sample_config)], Running (vu_sample_state ?p 1))"
    by (simp add: vu_forward_def vu_sample_state_def vu_init_def vu_sample_group_def vu_take_next_packet_def vu_next_packet_def
        pg_take_config_def)
  from vu_forwards_one_per_message [OF f, of "[\<lambda>_. 8, \<lambda>_. 90000]"] f show ?thesis
    by (intro exI [of _ "vu_sample_state ?p 1"]) (simp add: vu_sample_state_def vu_sample_group_def vu_next_packet_def)
qed

end
