(* ===== verification/Audio.thy ===== *)
theory Audio
  imports Segments VideoFec_Send
begin

text \<open>
  What the two unreliable audio drivers share (\<open>driver/av/audio_unreliable.rs\<close> and
  \<open>driver/av/audio_unreliable_fec.rs\<close>): the sender but for its datagrams, the choice of the next
  packet from a single group, and the holes that stand for missing packets. Then the driver
  without forward error correction.
\<close>

section \<open>Sending\<close>

record audio_sender =
  as_channel :: send_channel
  as_stream :: writer
  as_kypacket_seq :: u32

definition audio_send_start :: "send_channel \<Rightarrow> writer result \<Rightarrow> audio_sender result" where
  "audio_send_start c opened =
     and_then (map_err protocol_error_new (open_uni opened (sc_endpoint c))) (\<lambda>stream.
     Inr \<lparr>as_channel = c, as_stream = stream, as_kypacket_seq = 0\<rparr>)"

definition audio_write_stream :: "bytes \<Rightarrow> audio_sender \<Rightarrow> unit result \<times> audio_sender" where
  "audio_write_stream buf s =
     apsnd (\<lambda>w. s\<lparr>as_stream := w\<rparr>)
       (apfst (map_err protocol_error_new) (then_write (write_all buf (as_stream s)) flush))"

definition audio_send ::
  "(media_packet_header \<Rightarrow> bytes \<Rightarrow> audio_sender \<Rightarrow> unit result \<times> audio_sender)
     \<Rightarrow> av_packet \<Rightarrow> audio_sender \<Rightarrow> unit result \<times> audio_sender" where
  "audio_send send_datagrams packet s =
     (case packet of
        Codec h \<Rightarrow>
          (case codec_serialize h of
             Inl e \<Rightarrow> (Inl e, s)
           | Inr hdr \<Rightarrow> audio_write_stream (put_u32 0 @ hdr) s)
      | Media h payload \<Rightarrow>
          (case (if is_config h
                 then (case media_serialize h of
                         Inl e \<Rightarrow> (Inl e, s)
                       | Inr hdr \<Rightarrow> audio_write_stream (put_u32 (as_kypacket_seq s) @ hdr @ payload) s)
                 else send_datagrams h payload s) of
             (Inl e, s1) \<Rightarrow> (Inl e, s1)
           | (Inr _, s1) \<Rightarrow> (Inr (), s1\<lparr>as_kypacket_seq := as_kypacket_seq s1 + 1\<rparr>))
      | Hole _ \<Rightarrow> (Inl (Panic ''Unexpected input hole packet''), s))"

fun audio_send_all ::
  "(media_packet_header \<Rightarrow> bytes \<Rightarrow> audio_sender \<Rightarrow> unit result \<times> audio_sender)
     \<Rightarrow> av_packet list \<Rightarrow> audio_sender \<Rightarrow> unit result \<times> audio_sender" where
  "audio_send_all sd [] s = (Inr (), s)"
| "audio_send_all sd (p # ps) s =
     (case audio_send sd p s of
        (Inl e, s') \<Rightarrow> (Inl e, s')
      | (Inr _, s') \<Rightarrow> audio_send_all sd ps s')"

section \<open>The next packet of a single group\<close>

text \<open>
  \<open>next_packet\<close>, given the config and, of the completed packets, the numbers and the instants:
  whether to take the config or the first packet, or when to look again.
\<close>

datatype audio_next = XNone | XReady bool | XDeadline instant

definition audio_choose :: "nat \<Rightarrow> instant \<Rightarrow> u64 \<Rightarrow> config_packet \<Rightarrow> (u64 \<times> instant) list \<Rightarrow> audio_next" where
  "audio_choose buffering now nxt c ds =
     (if config_is_none c then XNone
      else if (case c of CReady _ k \<Rightarrow> k = nxt | _ \<Rightarrow> False) then XReady True
      else case ds of
        [] \<Rightarrow> XNone
      | (k, _) # _ \<Rightarrow>
          if k = nxt then XReady (config_is_ready c)
          else (case list_min (map snd ds) of
                  None \<Rightarrow> XNone
                | Some t \<Rightarrow>
                    if t + buffering \<le> now then XReady (config_is_ready c) else XDeadline (t + buffering)))"

datatype audio_action = XPacket u64 av_packet | XWait instant | XIdle

section \<open>The driver without forward error correction\<close>

definition au_DATAGRAM_HEADER_SIZE :: nat where "au_DATAGRAM_HEADER_SIZE = 10"

definition au_datagram :: "audio_sender \<Rightarrow> nat \<times> bool \<times> bytes \<Rightarrow> bytes" where
  "au_datagram s x =
     write_datagram_header (sc_endpoint (as_channel s)) [] @ put_u32 (as_kypacket_seq s)
       @ put_u32 (number_and_end (fst x) (fst (snd x))) @ snd (snd x)"

definition au_send_datagrams :: "media_packet_header \<Rightarrow> bytes \<Rightarrow> audio_sender \<Rightarrow> unit result \<times> audio_sender" where
  "au_send_datagrams h payload s =
     (case sc_max_datagram (as_channel s) of
        None \<Rightarrow> (Inl (ProtocolError ''Datagram not supported''), s)
      | Some m \<Rightarrow>
          (case and_then (assert_that (m > au_DATAGRAM_HEADER_SIZE) ''max_datagram_size > DATAGRAM_HEADER_SIZE'')
                  (\<lambda>_. media_serialize h) of
             Inl e \<Rightarrow> (Inl e, s)
           | Inr header \<Rightarrow>
               let data = header @ payload; room = m - au_DATAGRAM_HEADER_SIZE in
               if min room (length data) \<ge> 2 ^ 16 then (Inl (Panic ''payload_size < 1 << 16''), s)
               else apsnd (\<lambda>c. s\<lparr>as_channel := c\<rparr>)
                 (send_datagram_list (map (au_datagram s) (cut_segments room 0 data)) (as_channel s))))"

definition au_send :: "av_packet \<Rightarrow> audio_sender \<Rightarrow> unit result \<times> audio_sender" where
  "au_send = audio_send au_send_datagrams"

datatype au_msg = UStream av_packet u32 | UDatagram bytes u32 nat bool

definition au_read_stream_msg :: "reader \<Rightarrow> (au_msg \<times> reader) result" where
  "au_read_stream_msg r =
     and_then (map_err protocol_error_new (read_exact 4 r)) (\<lambda>(seqs, r1).
     and_then (read_packet av_read r1) (\<lambda>p.
     case p of
       None \<Rightarrow> Inl (ProtocolError ''Missing packet data on stream'')
     | Some (packet, r2) \<Rightarrow> Inr (UStream packet (get_u32 seqs), r2)))"

lemma au_read_stream_progress:
  assumes "au_read_stream_msg r = Inr (m, r')"
  shows "length (rbuf r') < length (rbuf r)"
proof -
  obtain seqs r1 where r1: "read_exact 4 r = Inr (seqs, r1)"
    using assms by (cases "read_exact 4 r") (auto simp: au_read_stream_msg_def)
  then obtain p where "av_read r1 = Inr (Some (p, r'))"
    using assms by (auto simp: au_read_stream_msg_def read_packet_def and_then_eq_Inr map_err_def
        split: sum.splits option.splits)
  from av_read_progress [OF this] r1 show ?thesis by (auto simp: read_exact_eq_Inr)
qed

function au_recv_stream_packets :: "reader \<Rightarrow> au_msg list \<times> fault" where
  "au_recv_stream_packets r =
     (case au_read_stream_msg r of
        Inl e \<Rightarrow> ([], e)
      | Inr (m, r') \<Rightarrow> (case au_recv_stream_packets r' of (ms, e) \<Rightarrow> (m # ms, e)))"
  by pat_completeness auto
termination
  by (relation "measure (\<lambda>r. length (rbuf r))") (auto dest: au_read_stream_progress)

declare au_recv_stream_packets.simps [simp del]

definition au_parse :: "bytes \<Rightarrow> au_msg result" where
  "au_parse datagram =
     and_then (assert_that (length datagram \<ge> au_DATAGRAM_HEADER_SIZE) ''datagram.len() >= DATAGRAM_HEADER_SIZE'') (\<lambda>_.
     let w = get_u32 (take 4 (drop 6 datagram)) in
     Inr (UDatagram (drop 10 datagram) (get_u32 (take 4 (drop 2 datagram))) (datagram_number w) (datagram_end w)))"

fun au_recv_datagrams :: "bytes result list \<Rightarrow> au_msg list \<times> fault option" where
  "au_recv_datagrams [] = ([], None)"
| "au_recv_datagrams (dg # dgs) =
     (case and_then (map_err protocol_error_new dg) au_parse of
        Inl e \<Rightarrow> ([], Some e)
      | Inr m \<Rightarrow> (case au_recv_datagrams dgs of (ms, e) \<Rightarrow> (m # ms, e)))"

subsection \<open>The pending group\<close>

text \<open>The group and its segment buffers are the code of the video driver.\<close>

definition au_insert_stream_packet :: "u64 \<Rightarrow> av_packet \<Rightarrow> pgroup \<Rightarrow> pgroup result" where
  "au_insert_stream_packet = pg_insert_stream_packet"

definition au_insert_datagram :: "instant \<Rightarrow> u64 \<Rightarrow> nat \<Rightarrow> bool \<Rightarrow> bytes \<Rightarrow> pgroup \<Rightarrow> pgroup result" where
  "au_insert_datagram = pg_insert_datagram"

definition au_MAX_BUFFERING :: nat where "au_MAX_BUFFERING = 10000"

definition au_next_packet :: "instant \<Rightarrow> u64 \<Rightarrow> pgroup \<Rightarrow> audio_next" where
  "au_next_packet now nxt g =
     audio_choose au_MAX_BUFFERING now nxt (pg_config g) (map (\<lambda>d. (sp_seq d, sp_instant d)) (pg_datagrams g))"

definition au_take_next_packet :: "instant \<Rightarrow> u64 \<Rightarrow> pgroup \<Rightarrow> (audio_action \<times> pgroup) result" where
  "au_take_next_packet now nxt g =
     (case au_next_packet now nxt g of
        XNone \<Rightarrow> Inr (XIdle, g)
      | XDeadline t \<Rightarrow> Inr (XWait t, g)
      | XReady is_cfg \<Rightarrow>
          and_then (assert_that (\<not> config_is_none (pg_config g)) ''config_packet.is_none()'') (\<lambda>_.
          and_then (if is_cfg then pg_take_config g else pg_take_datagram g) (\<lambda>(k, packet, g').
          Inr (XPacket k packet, g'))))"

subsection \<open>The processing loop\<close>

record au_state =
  au_kseq :: sequencer
  au_pending :: pgroup
  au_next :: u64
  au_deadline :: "instant option"
  au_frame_size :: "u16 option"
  au_stats :: protocol_stats

definition au_init :: au_state where
  "au_init = \<lparr>au_kseq = sequencer_new, au_pending = pg_new, au_next = 0, au_deadline = None,
     au_frame_size = None, au_stats = stats_new\<rparr>"

text \<open>The product of the missing packets and the frame size is one of 64 bits.\<close>

definition au_hole :: "u64 \<Rightarrow> u16 \<Rightarrow> hole_packet_header" where
  "au_hole missing_packets fs =
     \<lparr>missing_audio_samples = ucast (min (missing_packets * ucast fs) (0xFFFFFFFF :: u64))\<rparr>"

definition au_forward :: "instant \<Rightarrow> au_state \<Rightarrow> emission list \<times> au_state status" where
  "au_forward now s =
     (case au_take_next_packet now (au_next s) (au_pending s) of
        Inl e \<Rightarrow> ([], Failed e)
      | Inr (XIdle, g) \<Rightarrow> ([], Running (s\<lparr>au_pending := g, au_deadline := None\<rparr>))
      | Inr (XWait t, g) \<Rightarrow> ([], Running (s\<lparr>au_pending := g, au_deadline := Some t\<rparr>))
      | Inr (XPacket k packet, g) \<Rightarrow>
          (case au_frame_size s of
             None \<Rightarrow> ([], Failed (Panic ''assertion failed: frame_size.is_some()''))
           | Some fs \<Rightarrow>
               let missing = k - au_next s;
                   stats = (if k > au_next s
                            then (au_stats s)\<lparr>dropped_packets := add_opt (dropped_packets (au_stats s)) (unat missing)\<rparr>
                            else au_stats s);
                   holes = (if k > au_next s then [(None, Hole (au_hole missing fs))] else [])
               in (holes @ [(Some k, packet)],
                   Running (s\<lparr>au_pending := g, au_stats := stats, au_next := k + 1, au_deadline := None\<rparr>))))"

definition au_step :: "au_msg event \<Rightarrow> au_state \<Rightarrow> emission list \<times> au_state status" where
  "au_step ev s =
     (let ts = fst ev in
      case snd ev of
        Closed \<Rightarrow> ([], Finished)
      | MsgErr e \<Rightarrow> ([], Running s)
      | Timer \<Rightarrow>
          (case au_deadline s of
             Some t \<Rightarrow> if t \<le> ts 0 then au_forward (ts 1) s else ([], Running s)
           | None \<Rightarrow> ([], Running s))
      | Msg (UStream packet raw_k) \<Rightarrow>
          (case packet of
             Codec h \<Rightarrow>
               if frame_size h > 0 then ([(None, packet)], Running (s\<lparr>au_frame_size := Some (frame_size h)\<rparr>))
               else ([], Failed (Panic ''assertion failed: frame_size.unwrap() > 0''))
           | _ \<Rightarrow>
             (case seq_u32 (au_kseq s) raw_k of (k, kq) \<Rightarrow>
                let s1 = s\<lparr>au_kseq := kq\<rparr> in
                if k \<ge> au_next s
                then (case au_insert_stream_packet k packet (au_pending s) of
                        Inl e \<Rightarrow> ([], Failed e)
                      | Inr g \<Rightarrow> au_forward (ts 1) (s1\<lparr>au_pending := g\<rparr>))
                else au_forward (ts 1) s1))
      | Msg (UDatagram data raw_k n last_one) \<Rightarrow>
          (case seq_u32 (au_kseq s) raw_k of (k, kq) \<Rightarrow>
             let s1 = s\<lparr>au_kseq := kq\<rparr> in
             if k < au_next s then ([], Running s1)
             else (case au_insert_datagram (ts 0) k n last_one data (au_pending s) of
                     Inl e \<Rightarrow> ([], Failed e)
                   | Inr g \<Rightarrow> au_forward (ts 1) (s1\<lparr>au_pending := g\<rparr>))))"

subsection \<open>The driver\<close>

record au_driver =
  ad_client :: "av_packet list"
  ad_tasks :: "string list"

definition au_recv_start :: "reader result \<Rightarrow> emission list \<times> 's status \<Rightarrow> au_driver result" where
  "au_recv_start accepted outcome =
     and_then (map_err protocol_error_new accepted) (\<lambda>stream.
     Inr \<lparr>ad_client = map snd (fst outcome),
          ad_tasks = [''recv_stream_packets'', ''recv_datagrams'', ''process'']\<rparr>)"

definition au_recv :: "au_driver \<Rightarrow> av_packet option result \<times> au_driver" where
  "au_recv d =
     (case ad_client d of
        [] \<Rightarrow> (Inr None, d)
      | p # ps \<Rightarrow> (Inr (Some p), d\<lparr>ad_client := ps\<rparr>))"

definition au_drop :: "au_driver \<Rightarrow> au_driver" where
  "au_drop d = d\<lparr>ad_tasks := []\<rparr>"

end
