(* ===== verification/AudioFec.thy ===== *)
theory AudioFec
  imports Audio
begin

text \<open>
  The unreliable audio protocol with forward error correction
  (\<open>driver/av/audio_unreliable_fec.rs\<close>): one pending group with a receive budget, and a
  processing loop that forwards everything that is ready. Errors reach the client.
\<close>

section \<open>The sender\<close>

definition af_DATAGRAM_HEADER_SIZE :: nat where "af_DATAGRAM_HEADER_SIZE = 22"

definition af_datagram :: "'d raptorq \<Rightarrow> audio_sender \<Rightarrow> oti \<Rightarrow> payload_id \<times> bytes \<Rightarrow> bytes" where
  "af_datagram rq s oti p =
     write_datagram_header (sc_endpoint (as_channel s)) [] @ put_u32 (as_kypacket_seq s)
       @ oti_serialize rq oti @ payload_id_serialize rq (fst p) @ snd p"

definition af_send_datagrams ::
  "'d raptorq \<Rightarrow> media_packet_header \<Rightarrow> bytes \<Rightarrow> audio_sender \<Rightarrow> unit result \<times> audio_sender" where
  "af_send_datagrams rq h payload s =
     (case sc_max_datagram (as_channel s) of
        None \<Rightarrow> (Inl (ProtocolError ''Datagram not supported''), s)
      | Some m \<Rightarrow>
          (case and_then (assert_that (m > af_DATAGRAM_HEADER_SIZE) ''max_datagram_size > DATAGRAM_HEADER_SIZE'') (\<lambda>_.
                and_then (assert_that (m < 0x10000) ''max_datagram_size < 0x10000'') (\<lambda>_.
                media_serialize h)) of
             Inl e \<Rightarrow> (Inl e, s)
           | Inr header \<Rightarrow>
               let data = header @ payload;
                   oti = oti_with_defaults rq (of_nat (length data)) (of_nat (m - af_DATAGRAM_HEADER_SIZE))
               in if symbol_size oti = 0 then (Inl (Panic ''attempt to divide by zero''), s)
                  else
                    let source_symbols = div_ceil (length data) (unat (symbol_size oti)) in
                    apsnd (\<lambda>c. s\<lparr>as_channel := c\<rparr>)
                      (send_datagram_list
                         (map (af_datagram rq s oti) (encoded_packets rq data oti (repair_symbols source_symbols)))
                         (as_channel s))))"

definition af_send :: "'d raptorq \<Rightarrow> av_packet \<Rightarrow> audio_sender \<Rightarrow> unit result \<times> audio_sender" where
  "af_send rq = audio_send (af_send_datagrams rq)"

section \<open>Reader tasks\<close>

datatype af_msg = FStream av_packet u32 | FDatagram bytes u32 oti payload_id

definition af_parse :: "'d raptorq \<Rightarrow> bytes \<Rightarrow> af_msg result" where
  "af_parse rq datagram =
     and_then (parse_datagram rq datagram af_DATAGRAM_HEADER_SIZE MAX_AUDIO_PAYLOAD) (\<lambda>(data, oti, pid).
     Inr (FDatagram data (get_u32 (take 4 (drop 2 datagram))) oti pid))"

definition af_read_stream_msg :: "reader \<Rightarrow> (af_msg \<times> reader) result" where
  "af_read_stream_msg r =
     and_then (map_err protocol_error_new (read_exact 4 r)) (\<lambda>(seqs, r1).
     and_then (read_stream_packet r1 MAX_AUDIO_PAYLOAD) (\<lambda>(packet, r2).
     Inr (FStream packet (get_u32 seqs), r2)))"

function af_recv_stream_packets :: "reader \<Rightarrow> af_msg result list" where
  "af_recv_stream_packets r =
     (case af_read_stream_msg r of
        Inl e \<Rightarrow> [Inl e]
      | Inr (m, r') \<Rightarrow> Inr m # af_recv_stream_packets r')"
  by pat_completeness auto
termination
proof (relation "measure (\<lambda>r. length (rbuf r))", goal_cases)
  case (2 r y m r')
  then obtain seqs r1 packet where "length seqs = 4" "rbuf r = seqs @ rbuf r1"
    "read_stream_packet r1 MAX_AUDIO_PAYLOAD = Inr (packet, r')"
    by (auto simp: af_read_stream_msg_def and_then_eq_Inr read_exact_eq_Inr)
  then show ?case using read_stream_packet_progress [of r1 MAX_AUDIO_PAYLOAD packet r'] by simp
qed simp

declare af_recv_stream_packets.simps [simp del]

fun af_recv_datagrams :: "'d raptorq \<Rightarrow> bytes result list \<Rightarrow> af_msg result list" where
  "af_recv_datagrams rq [] = []"
| "af_recv_datagrams rq (dg # dgs) =
     (case and_then (map_err protocol_error_new dg) (af_parse rq) of
        Inl e \<Rightarrow> [Inl e]
      | Inr m \<Rightarrow> Inr m # af_recv_datagrams rq dgs)"

section \<open>Objects being decoded\<close>

record 'd af_segments =
  ag_seq :: u64
  ag_decoder :: "'d object_decoder"
  ag_assembled :: "bytes option"

record af_packet =
  ap_oti :: oti
  ap_packet :: av_packet
  ap_seq :: u64
  ap_instant :: instant

definition af_segments_new :: "'d raptorq \<Rightarrow> u64 \<Rightarrow> oti \<Rightarrow> 'd af_segments result" where
  "af_segments_new rq k oti =
     and_then (object_decoder_new rq oti MAX_AUDIO_PAYLOAD) (\<lambda>od.
     Inr \<lparr>ag_seq = k, ag_decoder = od, ag_assembled = None\<rparr>)"

definition af_add_packet ::
  "'d raptorq \<Rightarrow> oti \<Rightarrow> payload_id \<Rightarrow> bytes \<Rightarrow> 'd af_segments \<Rightarrow> 'd af_segments result" where
  "af_add_packet rq oti pid data s =
     and_then (object_decode rq oti pid data (ag_decoder s)) (\<lambda>(res, od).
     Inr (s\<lparr>ag_decoder := od, ag_assembled := res\<rparr>))"

definition af_is_complete :: "'d af_segments \<Rightarrow> bool" where
  "af_is_complete s = (ag_assembled s \<noteq> None)"

definition af_assemble :: "instant \<Rightarrow> 'd af_segments \<Rightarrow> af_packet result" where
  "af_assemble now s =
     (case ag_assembled s of
        None \<Rightarrow> Inl (invalid ''incomplete audio object'')
      | Some data \<Rightarrow>
          and_then (media_packet data) (\<lambda>packet.
          Inr \<lparr>ap_oti = od_oti (ag_decoder s), ap_packet = packet, ap_seq = ag_seq s, ap_instant = now\<rparr>))"

section \<open>The pending group\<close>

record 'd af_group =
  fg_config :: config_packet
  fg_datagrams :: "af_packet list"
  fg_segments :: "'d af_segments list"

definition af_group_new :: "'d af_group" where
  "af_group_new = \<lparr>fg_config = CNone, fg_datagrams = [], fg_segments = []\<rparr>"

text \<open>The objects and bytes \<open>check_capacity\<close> counts.\<close>

definition af_usage :: "'d af_group \<Rightarrow> nat \<times> nat" where
  "af_usage g =
     (let objects = length (fg_segments g) + length (fg_datagrams g);
          bytes = sum_list (map (\<lambda>s. reservation (od_oti (ag_decoder s))) (fg_segments g))
                + sum_list (map (\<lambda>d. reservation (ap_oti d)) (fg_datagrams g))
      in case fg_config g of
           CReady (Media h payload) _ \<Rightarrow> (objects + 1, bytes + length payload)
         | _ \<Rightarrow> (objects, bytes))"

definition af_check_capacity :: "nat \<Rightarrow> 'd af_group \<Rightarrow> unit result" where
  "af_check_capacity additional g =
     (case af_usage g of (objects, bytes) \<Rightarrow> check_pending objects bytes additional MAX_AUDIO_PAYLOAD)"

definition af_insert_stream_packet :: "u64 \<Rightarrow> av_packet \<Rightarrow> 'd af_group \<Rightarrow> 'd af_group result" where
  "af_insert_stream_packet k packet g =
     (case packet of
        Media h payload \<Rightarrow>
          if \<not> is_config h \<or> \<not> config_is_none (fg_config g)
          then Inl (invalid ''invalid or duplicate audio config'')
          else and_then (af_check_capacity (length payload) g) (\<lambda>_.
               Inr (g\<lparr>fg_config := CReady packet k\<rparr>))
      | _ \<Rightarrow> Inl (invalid ''expected audio config''))"

definition af_prepare_segments :: "'d raptorq \<Rightarrow> u64 \<Rightarrow> oti \<Rightarrow> 'd af_group \<Rightarrow> (nat \<times> 'd af_group) result" where
  "af_prepare_segments rq k oti g =
     (case binary_search_by_key ag_seq k (fg_segments g) of
        Inr i \<Rightarrow> Inr (i, g)
      | Inl i \<Rightarrow>
          and_then (validate_oti oti MAX_AUDIO_PAYLOAD) (\<lambda>_.
          and_then (af_check_capacity (reservation oti) g) (\<lambda>_.
          and_then (af_segments_new rq k oti) (\<lambda>s.
          Inr (i, g\<lparr>fg_segments := insert_at i s (fg_segments g)\<rparr>)))))"

definition af_insert_packet :: "af_packet \<Rightarrow> 'd af_group \<Rightarrow> 'd af_group" where
  "af_insert_packet d g =
     (case binary_search_by_key ap_seq (ap_seq d) (fg_datagrams g) of
        Inl i \<Rightarrow> g\<lparr>fg_datagrams := insert_at i d (fg_datagrams g)\<rparr>
      | Inr _ \<Rightarrow> g)"

definition af_insert_datagram ::
  "'d raptorq \<Rightarrow> instant \<Rightarrow> u64 \<Rightarrow> oti \<Rightarrow> payload_id \<Rightarrow> bytes \<Rightarrow> 'd af_group \<Rightarrow> 'd af_group result" where
  "af_insert_datagram rq now k oti pid data g =
     (case binary_search_by_key ap_seq k (fg_datagrams g) of
        Inl _ \<Rightarrow>
          and_then (af_prepare_segments rq k oti g) (\<lambda>(i, g1).
          and_then (af_add_packet rq oti pid data (fg_segments g1 ! i)) (\<lambda>s.
          if af_is_complete s
          then and_then (af_assemble now s) (\<lambda>d.
               Inr (af_insert_packet d (g1\<lparr>fg_segments := remove_at i (fg_segments g1)\<rparr>)))
          else Inr (g1\<lparr>fg_segments := (fg_segments g1)[i := s]\<rparr>)))
      | Inr i \<Rightarrow>
          if ap_oti (fg_datagrams g ! i) \<noteq> oti
          then Inl (invalid ''OTI changed for completed audio object'')
          else Inr g)"

definition af_drop_expired :: "u64 \<Rightarrow> 'd af_group \<Rightarrow> 'd af_group" where
  "af_drop_expired k g =
     (let i = (case binary_search_by_key ag_seq k (fg_segments g) of Inr i \<Rightarrow> i | Inl i \<Rightarrow> i) in
      g\<lparr>fg_segments := drop i (fg_segments g)\<rparr>)"

definition af_MAX_BUFFERING :: nat where "af_MAX_BUFFERING = 10000"

definition af_next_packet :: "instant \<Rightarrow> u64 \<Rightarrow> 'd af_group \<Rightarrow> audio_next" where
  "af_next_packet now nxt g =
     audio_choose af_MAX_BUFFERING now nxt (fg_config g) (map (\<lambda>d. (ap_seq d, ap_instant d)) (fg_datagrams g))"

definition af_take_next_packet :: "instant \<Rightarrow> u64 \<Rightarrow> 'd af_group \<Rightarrow> (audio_action \<times> 'd af_group) result" where
  "af_take_next_packet now nxt g =
     (case af_next_packet now nxt g of
        XNone \<Rightarrow> Inr (XIdle, g)
      | XDeadline t \<Rightarrow> Inr (XWait t, g)
      | XReady is_cfg \<Rightarrow>
          and_then (assert_that (\<not> config_is_none (fg_config g)) ''config_packet.is_none()'') (\<lambda>_.
          if is_cfg then
            (case fg_config g of
               CReady packet k \<Rightarrow> Inr (XPacket k packet, g\<lparr>fg_config := CSent\<rparr>)
             | _ \<Rightarrow> Inl (Panic ''assertion failed: config_packet.is_ready()''))
          else
            (case fg_datagrams g of
               [] \<Rightarrow> Inl (Panic ''Expected a pending datagram'')
             | d # ds \<Rightarrow> Inr (XPacket (ap_seq d) (ap_packet d), af_drop_expired (ap_seq d) (g\<lparr>fg_datagrams := ds\<rparr>)))))"

section \<open>The processing loop\<close>

record 'd af_state =
  af_kseq :: sequencer
  af_pending :: "'d af_group"
  af_next :: u64
  af_deadline :: "instant option"
  af_frame_size :: "u16 option"
  af_stats :: protocol_stats

definition af_init :: "'d af_state" where
  "af_init = \<lparr>af_kseq = sequencer_new, af_pending = af_group_new, af_next = 0, af_deadline = None,
     af_frame_size = None, af_stats = stats_new\<rparr>"

text \<open>\<open>saturating_mul\<close>, then the largest number of samples a hole can have.\<close>

definition af_hole :: "u64 \<Rightarrow> u16 \<Rightarrow> hole_packet_header" where
  "af_hole missing_packets fs =
     \<lparr>missing_audio_samples = of_nat (min (min (unat missing_packets * unat fs) (2 ^ 64 - 1)) (2 ^ 32 - 1))\<rparr>"

text \<open>What happens to a packet that was taken: the holes before it, and the accounting.\<close>

definition af_holes :: "u64 \<Rightarrow> u64 \<Rightarrow> u16 \<Rightarrow> emission list" where
  "af_holes n k fs = (if k > n then [(None, Hole (af_hole (k - n) fs))] else [])"

definition af_account :: "u64 \<Rightarrow> 'd af_group \<Rightarrow> 'd af_state \<Rightarrow> 'd af_state" where
  "af_account k g s =
     s\<lparr>af_pending := g,
       af_stats := (if k > af_next s
                    then (af_stats s)\<lparr>dropped_packets := add_opt (dropped_packets (af_stats s)) (unat (k - af_next s))\<rparr>
                    else af_stats s),
       af_next := k + 1\<rparr>"

definition af_ready :: "'d af_group \<Rightarrow> nat" where
  "af_ready g = length (fg_datagrams g) + (if config_is_ready (fg_config g) then 1 else 0)"

lemma af_take_decreases:
  "af_take_next_packet now nxt g = Inr (XPacket k packet, g') \<Longrightarrow> af_ready g' < af_ready g"
  by (auto simp: af_take_next_packet_def and_then_eq_Inr af_ready_def af_drop_expired_def Let_def
      split: audio_next.splits if_splits config_packet.splits list.splits)

function af_drain :: "(nat \<Rightarrow> instant) \<Rightarrow> nat \<Rightarrow> 'd af_state \<Rightarrow> emission list \<times> 'd af_state status" where
  "af_drain ts i s =
     (case af_take_next_packet (ts i) (af_next s) (af_pending s) of
        Inl e \<Rightarrow> ([], Failed e)
      | Inr (XIdle, g) \<Rightarrow> ([], Running (s\<lparr>af_pending := g, af_deadline := None\<rparr>))
      | Inr (XWait t, g) \<Rightarrow> ([], Running (s\<lparr>af_pending := g, af_deadline := Some t\<rparr>))
      | Inr (XPacket k packet, g) \<Rightarrow>
          (case af_frame_size s of
             None \<Rightarrow> ([], Failed (invalid ''audio before codec''))
           | Some fs \<Rightarrow>
               (case af_drain ts (Suc i) (af_account k g s) of
                  (os, r) \<Rightarrow> (af_holes (af_next s) k fs @ (Some k, packet) # os, r))))"
  by pat_completeness auto
termination
  by (relation "measure (\<lambda>(ts, i, s). af_ready (af_pending s))")
     (auto simp: af_account_def dest: af_take_decreases)

declare af_drain.simps [simp del]

definition af_step :: "'d raptorq \<Rightarrow> af_msg event \<Rightarrow> 'd af_state \<Rightarrow> emission list \<times> 'd af_state status" where
  "af_step rq ev s =
     (let ts = fst ev in
      case snd ev of
        Closed \<Rightarrow> ([], Finished)
      | MsgErr e \<Rightarrow> ([], Failed e)
      | Timer \<Rightarrow>
          (case af_deadline s of
             Some t \<Rightarrow> if t \<le> ts 0 then af_drain ts 1 s else ([], Running s)
           | None \<Rightarrow> ([], Running s))
      | Msg (FStream packet raw_k) \<Rightarrow>
          (case packet of
             Codec h \<Rightarrow>
               if frame_size h = 0 then ([], Failed (invalid ''zero audio frame size''))
               else ([(None, packet)], Running (s\<lparr>af_frame_size := Some (frame_size h)\<rparr>))
           | _ \<Rightarrow>
             (case seq_u32 (af_kseq s) raw_k of (k, kq) \<Rightarrow>
                let s1 = s\<lparr>af_kseq := kq\<rparr> in
                if k \<ge> af_next s
                then (case af_insert_stream_packet k packet (af_pending s) of
                        Inl e \<Rightarrow> ([], Failed e)
                      | Inr g \<Rightarrow> af_drain ts 1 (s1\<lparr>af_pending := g\<rparr>))
                else af_drain ts 1 s1))
      | Msg (FDatagram data raw_k oti pid) \<Rightarrow>
          (case seq_u32 (af_kseq s) raw_k of (k, kq) \<Rightarrow>
             let s1 = s\<lparr>af_kseq := kq\<rparr> in
             if k < af_next s then ([], Running s1)
             else (case af_insert_datagram rq (ts 0) k oti pid data (af_pending s) of
                     Inl e \<Rightarrow> ([], Failed e)
                   | Inr g \<Rightarrow> af_drain ts 1 (s1\<lparr>af_pending := g\<rparr>))))"

section \<open>The driver\<close>

record af_driver =
  afd_client :: "av_packet result list"
  afd_tasks :: "string list"

definition af_recv_start :: "reader result \<Rightarrow> emission list \<times> 's status \<Rightarrow> af_driver result" where
  "af_recv_start accepted outcome =
     and_then (map_err protocol_error_new accepted) (\<lambda>stream.
     Inr \<lparr>afd_client = client_queue outcome,
          afd_tasks = [''recv_stream_packets'', ''recv_datagrams'', ''process'']\<rparr>)"

definition af_recv :: "af_driver \<Rightarrow> av_packet option result \<times> af_driver" where
  "af_recv d =
     (case afd_client d of
        [] \<Rightarrow> (Inr None, d)
      | Inr p # q \<Rightarrow> (Inr (Some p), d\<lparr>afd_client := q\<rparr>)
      | Inl e # q \<Rightarrow> (Inl e, d\<lparr>afd_client := q, afd_tasks := []\<rparr>))"

definition af_drop :: "af_driver \<Rightarrow> af_driver" where
  "af_drop d = d\<lparr>afd_tasks := []\<rparr>"

end
