(* ===== verification/Audio_Contract.thy ===== *)
theory Audio_Contract
  imports AudioFec VideoFec_End
begin

text \<open>
  What the two audio drivers promise. To the client: the packets come in order, and each gap is
  announced by a hole with exactly the samples of the missing packets; \<open>audio_accept\<close> is the client
  that checks this, and the locale \<open>audio_receiver\<close> the contract of a receiver it never rejects. To
  the network: the records and datagrams of a list of packets (locale \<open>audio_datagram_sender\<close>).
\<close>

section \<open>The client\<close>

text \<open>
  The client knows the frame size of the last codec packet and the number it expects, and
  remembers a hole until the packet after it.
\<close>

type_synonym audio_view = "u16 option \<times> u64 \<times> hole_packet_header option"

fun audio_accept :: "audio_view \<Rightarrow> emission \<Rightarrow> audio_view option" where
  "audio_accept (fs, n, None) (None, Codec h) = (if frame_size h > 0 then Some (Some (frame_size h), n, None) else None)"
| "audio_accept (Some fs, n, None) (None, Hole h) = Some (Some fs, n, Some h)"
| "audio_accept (Some fs, n, None) (Some k, p) = (if k = n \<and> k \<noteq> - 1 then Some (Some fs, k + 1, None) else None)"
| "audio_accept (Some fs, n, Some h) (Some k, p) =
     (if n < k \<and> k \<noteq> - 1 \<and> unat (missing_audio_samples h) = min ((unat k - unat n) * unat fs) (2 ^ 32 - 1)
      then Some (Some fs, k + 1, None) else None)"
| "audio_accept v x = None"

fun audio_accepts :: "audio_view \<Rightarrow> emission list \<Rightarrow> audio_view option" where
  "audio_accepts v [] = Some v"
| "audio_accepts v (x # xs) = Option.bind (audio_accept v x) (\<lambda>v'. audio_accepts v' xs)"

lemma audio_accepts_append: "audio_accepts v (xs @ ys) = Option.bind (audio_accepts v xs) (\<lambda>v'. audio_accepts v' ys)"
  by (induction xs arbitrary: v) (auto split: Option.bind_split)

lemma audio_accept_next:
  "audio_accept (fs, n, h) x = Some (fs', n', h') \<Longrightarrow> ascends n (output_seqs [x]) n'"
  by (cases "((fs, n, h), x)" rule: audio_accept.cases) (auto split: if_splits)

lemma audio_accepts_ascends:
  "audio_accepts (fs, n, h) xs = Some (fs', n', h') \<Longrightarrow> ascends n (output_seqs xs) n'"
proof (induction xs arbitrary: fs n h)
  case (Cons x xs)
  obtain fs1 n1 h1 where v: "audio_accept (fs, n, h) x = Some (fs1, n1, h1)" "audio_accepts (fs1, n1, h1) xs = Some (fs', n', h')"
    using Cons.prems by (cases "audio_accept (fs, n, h) x") auto
  have "output_seqs (x # xs) = output_seqs [x] @ output_seqs xs" by (cases x; cases "fst x") auto
  with ascends_append [OF audio_accept_next [OF v(1)] Cons.IH [OF v(2)]] show ?case by simp
qed simp

text \<open>A packet with the hole before it.\<close>

lemma audio_packet_accepted:
  assumes "n \<le> k" "k \<noteq> - 1" "n < k \<Longrightarrow> unat (missing_audio_samples h) = min ((unat k - unat n) * unat fs) (2 ^ 32 - 1)"
  shows "audio_accepts (Some fs, n, None) ((if k > n then [(None, Hole h)] else []) @ [(Some k, p)]) = Some (Some fs, k + 1, None)"
  using assms by (auto simp: not_less order_le_less)

section \<open>Holes\<close>

lemma au_hole_samples:
  assumes "n \<le> k" "unat k < 2 ^ 48"
  shows "unat (missing_audio_samples (au_hole (k - n) fs)) = min ((unat k - unat n) * unat fs) (2 ^ 32 - 1)"
proof -
  let ?m = "(unat k - unat n) * unat fs"
  have u: "unat (k - n) = unat k - unat n" using assms(1) by (rule unat_sub)
  have f: "unat (ucast fs :: u64) = unat fs" "unat fs < 2 ^ 16"
    using unsigned_less [of fs, where 'a = nat] by (simp_all add: unsigned_ucast_eq take_bit_nat_eq_self)
  have "?m < 2 ^ 48 * 2 ^ 16" by (rule mult_strict_mono') (use assms(2) f(2) in auto)
  then have p: "unat ((k - n) * ucast fs) = ?m" by (subst unat_word_ariths) (simp add: u f(1))
  have "unat (min ((k - n) * ucast fs) (0xFFFFFFFF :: u64)) = min ?m (2 ^ 32 - 1)"
    by (simp add: min_def word_le_nat_alt p)
  moreover have "min ?m (2 ^ 32 - 1) < (2 :: nat) ^ 32" by (simp add: min_less_iff_disj)
  ultimately show ?thesis by (simp add: au_hole_def unsigned_ucast_eq take_bit_nat_eq_self)
qed

lemma af_hole_samples:
  assumes "n \<le> k"
  shows "unat (missing_audio_samples (af_hole (k - n) fs)) = min ((unat k - unat n) * unat fs) (2 ^ 32 - 1)"
proof -
  have "unat (k - n) = unat k - unat n" using assms by (rule unat_sub)
  moreover have "min (min x (2 ^ 64 - 1)) (2 ^ 32 - 1) = min x (2 ^ 32 - 1)" for x :: nat by (simp add: min_def)
  moreover have "min x (2 ^ 32 - 1) < (2 :: nat) ^ 32" for x by (simp add: min_less_iff_disj)
  ultimately show ?thesis
    unfolding af_hole_def by (simp only: hole_packet_header.simps unsigned_of_nat) (simp add: take_bit_nat_eq_self)
qed

text \<open>
  C28: The two audio drivers compute the same hole: the product of 64 bits of the one and the
  saturating product of the other agree for every frame size as long as fewer than 2^48 packets
  are missing.
\<close>

theorem audio_holes_agree:
  assumes "unat missing < 2 ^ 48"
  shows "au_hole missing fs = af_hole missing fs"
proof (rule hole_packet_header.equality)
  have "unat (missing_audio_samples (au_hole missing fs)) = unat (missing_audio_samples (af_hole missing fs))"
    using au_hole_samples [of 0 missing fs] af_hole_samples [of 0 missing fs] assms by simp
  then show "missing_audio_samples (au_hole missing fs) = missing_audio_samples (af_hole missing fs)"
    by (rule unsigned_word_eqI)
qed simp

theorem audio_holes_agree_witness:
  "au_hole 3 960 = af_hole 3 960 \<and> missing_audio_samples (af_hole 3 960) = 2880
     \<and> au_hole (2 ^ 63) 2 \<noteq> af_hole (2 ^ 63) 2"
proof -
  have "unat (3 :: u64) < 2 ^ 48" by simp
  from audio_holes_agree [OF this, of 960] show ?thesis by (simp add: au_hole_def af_hole_def)
qed

section \<open>Receivers\<close>

locale audio_receiver = receiver step inv ok
  for step :: "'e \<Rightarrow> 's \<Rightarrow> emission list \<times> 's status" and inv ok +
  fixes view :: "'s \<Rightarrow> u16 option \<times> u64"
  assumes step_accepted: "inv s \<Longrightarrow> ok e s \<Longrightarrow> step e s = (os, st)
      \<Longrightarrow> \<exists>fs n. audio_accepts (fst (view s), snd (view s), None) os = Some (fs, n, None)
             \<and> (\<forall>s'. st = Running s' \<longrightarrow> view s' = (fs, n))"
begin

lemma run_accepted:
  assumes "inv s" "run_ok ok step es s" "run step es s = (os, st)"
  shows "\<exists>fs n. audio_accepts (fst (view s), snd (view s), None) os = Some (fs, n, None)
           \<and> (\<forall>s'. st = Running s' \<longrightarrow> view s' = (fs, n))"
  using assms
proof (induction es arbitrary: s os)
  case (Cons e es)
  obtain o1 st1 where st1: "step e s = (o1, st1)" by (cases "step e s")
  have ok: "ok e s" using Cons.prems by simp
  obtain fs n where v: "audio_accepts (fst (view s), snd (view s), None) o1 = Some (fs, n, None)"
    "\<forall>s'. st1 = Running s' \<longrightarrow> view s' = (fs, n)" using step_accepted [OF Cons.prems(1) ok st1] by blast
  show ?case
  proof (cases st1)
    case (Running s1)
    obtain o2 st2 where r: "run step es s1 = (o2, st2)" by (cases "run step es s1")
    have os: "os = o1 @ o2" "st = st2" using Cons.prems st1 Running r by auto
    have "inv s1" using step_inv Cons.prems(1) ok st1 Running by blast
    moreover have "run_ok ok step es s1" using Cons.prems(2) st1 Running by simp
    ultimately obtain fs' n' where "audio_accepts (fst (view s1), snd (view s1), None) o2 = Some (fs', n', None)"
      "\<forall>s'. st2 = Running s' \<longrightarrow> view s' = (fs', n')" using Cons.IH [unfolded os(2)] r by blast
    with v Running os show ?thesis by (simp add: audio_accepts_append)
  qed (use v st1 Cons.prems in auto)
qed auto

end

text \<open>What a step owes to the contract, from the view \<open>v\<close> of the client.\<close>

definition audio_keeps ::
  "(u64 \<Rightarrow> av_packet) \<Rightarrow> ('s \<Rightarrow> bool) \<Rightarrow> ('s \<Rightarrow> u16 option \<times> u64) \<Rightarrow> u16 option \<times> u64 \<Rightarrow> emission list \<times> 's status \<Rightarrow> bool" where
  "audio_keeps pk J view v r \<longleftrightarrow>
     (\<forall>x \<in> set (fst r). genuine pk x) \<and> (\<forall>f. snd r = Failed f \<longrightarrow> \<not> panics f)
     \<and> (\<exists>fs n. audio_accepts (fst v, snd v, None) (fst r) = Some (fs, n, None)
          \<and> (\<forall>s'. snd r = Running s' \<longrightarrow> view s' = (fs, n) \<and> J s'))"

lemma audio_keepsD:
  assumes "audio_keeps pk J view v (os, st)"
  shows "x \<in> set os \<Longrightarrow> genuine pk x" "st = Failed f \<Longrightarrow> \<not> panics f" "st = Running s' \<Longrightarrow> J s'"
    "\<exists>fs n. audio_accepts (fst v, snd v, None) os = Some (fs, n, None) \<and> (\<forall>s'. st = Running s' \<longrightarrow> view s' = (fs, n))"
  using assms unfolding audio_keeps_def fst_conv snd_conv by blast+

lemma audio_keeps_idle: "J s \<Longrightarrow> view s = v \<Longrightarrow> audio_keeps pk J view v ([], Running s)"
  by (simp add: audio_keeps_def)

lemma audio_keeps_stop:
  "audio_keeps pk J view v ([], Finished)"
  "\<not> panics f \<Longrightarrow> audio_keeps pk J view v ([], Failed f)"
  by (simp_all add: audio_keeps_def)

lemma audio_keeps_codec:
  assumes "J s" "view s = (Some (frame_size h), snd v)" "frame_size h > 0"
  shows "audio_keeps pk J view v ([(None, Codec h)], Running s)"
  using assms by (simp add: audio_keeps_def genuine_def)

lemma audio_keeps_append:
  assumes "audio_accepts (fst v, snd v, None) xs = Some (fs, n, None)"
    and "audio_keeps pk J view (fs, n) (ys, st)" "\<forall>x \<in> set xs. genuine pk x"
  shows "audio_keeps pk J view v (xs @ ys, st)"
  using assms by (auto simp: audio_keeps_def audio_accepts_append)

section \<open>Senders\<close>

text \<open>
  The records and the objects of the audio senders are those of the video senders without the
  number of the group.
\<close>

definition ungrouped :: "u32 \<times> u32 \<times> av_packet \<Rightarrow> u32 \<times> av_packet" where
  "ungrouped r = (fst r, snd (snd r))"

definition audio_records :: "u32 \<Rightarrow> av_packet list \<Rightarrow> (u32 \<times> av_packet) list" where
  "audio_records k ps = map ungrouped (vf_records k 0 ps)"

definition audio_objects :: "u32 \<Rightarrow> av_packet list \<Rightarrow> (u32 \<times> av_packet) list" where
  "audio_objects k ps = map ungrouped (vf_sent_objects k 0 ps)"

lemma ungrouped_any:
  "map ungrouped (vf_records k g ps) = map ungrouped (vf_records k g' ps)
   \<and> map ungrouped (vf_sent_objects k g ps) = map ungrouped (vf_sent_objects k g' ps)"
proof (induction ps arbitrary: k g g')
  case (Cons p ps)
  show ?case
    using Cons.IH [of "k + 1" "g + 1" "g' + 1"] Cons.IH [of "k + 1" g g'] Cons.IH [of k g g']
    by (cases p) (simp_all add: ungrouped_def)
qed simp

lemma audio_records_simps [simp]:
  "audio_records k [] = []" "audio_objects k [] = []"
  "audio_records k (Media h payload # ps) =
     (if is_config h then (k, Media h payload) # audio_records (k + 1) ps else audio_records (k + 1) ps)"
  "audio_objects k (Media h payload # ps) =
     (if is_config h then audio_objects (k + 1) ps else (k, Media h payload) # audio_objects (k + 1) ps)"
  "audio_records k (Codec c # ps) = (0, Codec c) # audio_records k ps"
  "audio_objects k (Codec c # ps) = audio_objects k ps"
  using ungrouped_any [of "k + 1" 1 ps 0] by (simp_all add: audio_records_def audio_objects_def ungrouped_def)

definition audio_record_bytes :: "u32 \<times> av_packet \<Rightarrow> bytes" where
  "audio_record_bytes r = put_u32 (fst r) @ av_enc (snd r)"

lemma audio_write_stream_ok:
  assumes "audio_write_stream buf s = (Inr u, s')"
  shows "wout (as_stream s') = wout (as_stream s) @ buf \<and> as_channel s' = as_channel s \<and> as_kypacket_seq s' = as_kypacket_seq s"
  using assms
  by (auto simp: audio_write_stream_def flush_def write_all_def then_write_def split: option.splits if_splits)

definition audio_sent ::
  "(u16 \<times> nat option \<Rightarrow> u32 \<times> av_packet \<Rightarrow> bytes \<Rightarrow> bool) \<Rightarrow> av_packet list \<Rightarrow> audio_sender \<Rightarrow> audio_sender \<Rightarrow> bool" where
  "audio_sent sent_for ps s s' \<longleftrightarrow>
     wout (as_stream s') = wout (as_stream s) @ concat (map audio_record_bytes (audio_records (as_kypacket_seq s) ps))
     \<and> sc_limits (as_channel s') = sc_limits (as_channel s)
     \<and> (\<forall>dg \<in> set (sc_sent (as_channel s')). dg \<in> set (sc_sent (as_channel s)) \<or>
          (\<exists>x \<in> set (audio_objects (as_kypacket_seq s) ps). sent_for (sc_limits (as_channel s)) x dg))"

locale audio_datagram_sender =
  fixes sd :: "media_packet_header \<Rightarrow> bytes \<Rightarrow> audio_sender \<Rightarrow> unit result \<times> audio_sender"
    and sent_for :: "u16 \<times> nat option \<Rightarrow> u32 \<times> av_packet \<Rightarrow> bytes \<Rightarrow> bool"
  assumes sd_ok: "sd h payload s = (Inr u, s') \<Longrightarrow>
      as_stream s' = as_stream s \<and> as_kypacket_seq s' = as_kypacket_seq s
      \<and> sc_limits (as_channel s') = sc_limits (as_channel s)
      \<and> (\<forall>dg \<in> set (sc_sent (as_channel s')). dg \<in> set (sc_sent (as_channel s)) \<or>
           sent_for (sc_limits (as_channel s)) (as_kypacket_seq s, Media h payload) dg)"
begin

lemma send_ok:
  assumes "audio_send sd p s = (Inr u, s')"
  shows "audio_sent sent_for [p] s s' \<and> as_kypacket_seq s' = as_kypacket_seq s + (if is_media p then 1 else 0) \<and> (\<forall>h. p \<noteq> Hole h)"
proof (cases p)
  case (Codec h)
  with assms have "audio_write_stream (put_u32 0 @ av_enc p) s = (Inr u, s')" by (simp add: audio_send_def codec_serialize_bytes)
  from audio_write_stream_ok [OF this] Codec show ?thesis by (simp add: audio_sent_def audio_record_bytes_def)
next
  case (Media h payload)
  show ?thesis
  proof (cases "is_config h")
    case True
    obtain s1 where w: "audio_write_stream (put_u32 (as_kypacket_seq s) @ av_enc p) s = (Inr (), s1)"
      "s' = s1\<lparr>as_kypacket_seq := as_kypacket_seq s1 + 1\<rparr>"
      using assms Media True by (auto simp: audio_send_def split: sum.splits prod.splits)
    from audio_write_stream_ok [OF w(1)] w(2) Media True show ?thesis by (simp add: audio_sent_def audio_record_bytes_def)
  next
    case False
    obtain s1 where w: "sd h payload s = (Inr (), s1)" "s' = s1\<lparr>as_kypacket_seq := as_kypacket_seq s1 + 1\<rparr>"
      using assms Media False by (auto simp: audio_send_def split: sum.splits prod.splits)
    from sd_ok [OF w(1)] w(2) Media False show ?thesis by (simp add: audio_sent_def)
  qed
qed (use assms in \<open>simp add: audio_send_def\<close>)

lemma send_all_ok:
  "audio_send_all sd ps s = (Inr (), s') \<Longrightarrow> audio_sent sent_for ps s s' \<and> (\<forall>h. Hole h \<notin> set ps)"
proof (induction ps arbitrary: s)
  case (Cons p ps)
  obtain u s1 where p: "audio_send sd p s = (Inr u, s1)" "audio_send_all sd ps s1 = (Inr (), s')"
    using Cons.prems by (auto split: sum.splits prod.splits)
  note one = send_ok [OF p(1)]
  have k: "as_kypacket_seq s1 = as_kypacket_seq s + (if is_media p then 1 else 0)" "\<forall>h. p \<noteq> Hole h" using one by blast+
  have r: "audio_records (as_kypacket_seq s) (p # ps)
      = audio_records (as_kypacket_seq s) [p] @ audio_records (as_kypacket_seq s1) ps"
    "audio_objects (as_kypacket_seq s) (p # ps)
      = audio_objects (as_kypacket_seq s) [p] @ audio_objects (as_kypacket_seq s1) ps"
    using k by (cases p; simp)+
  have a: "audio_sent sent_for [p] s s1" "audio_sent sent_for ps s1 s'" "\<forall>h. Hole h \<notin> set ps"
    using one Cons.IH [OF p(2)] by blast+
  have "audio_sent sent_for (p # ps) s s'"
    using a(1,2) unfolding audio_sent_def r map_append concat_append set_append by fastforce
  with a(3) k(2) show ?case by auto
qed (simp add: audio_sent_def)

lemma started_ok:
  assumes "audio_send_start c (Inr new_writer) = Inr s0" "sc_sent c = []" "audio_send_all sd ps s0 = (Inr (), s)"
  shows "drop 2 (wout (as_stream s)) = concat (map audio_record_bytes (audio_records 0 ps))"
    "\<forall>dg \<in> set (sc_sent (as_channel s)). \<exists>x \<in> set (audio_objects 0 ps). sent_for (sc_limits c) x dg"
    "\<forall>h. Hole h \<notin> set ps"
proof -
  have s0: "s0 = \<lparr>as_channel = c, as_stream = new_writer\<lparr>wout := put_u16 (sc_endpoint c)\<rparr>, as_kypacket_seq = 0\<rparr>"
    using assms(1) by (simp add: audio_send_start_def open_uni_def write_endpoint_id_def new_writer_def flush_def write_all_def)
  from send_all_ok [OF assms(3)] assms(2)
  show "drop 2 (wout (as_stream s)) = concat (map audio_record_bytes (audio_records 0 ps))"
    "\<forall>dg \<in> set (sc_sent (as_channel s)). \<exists>x \<in> set (audio_objects 0 ps). sent_for (sc_limits c) x dg"
    "\<forall>h. Hole h \<notin> set ps"
    unfolding audio_sent_def s0 by simp_all
qed

end

text \<open>The numbers of records and objects.\<close>

lemma audio_records_index:
  assumes "(a, p) \<in> set (audio_records 0 ps)"
  shows "\<not> is_media p \<or> (\<exists>i < length (filter is_media ps). filter is_media ps ! i = p \<and> is_conf p \<and> a = of_nat i)"
  using assms vf_records_index [of a _ p 0 0 ps] by (fastforce simp: audio_records_def ungrouped_def)

lemma audio_objects_index:
  assumes "(a, p) \<in> set (audio_objects 0 ps)"
  shows "\<exists>i < length (filter is_media ps). filter is_media ps ! i = p \<and> is_media p \<and> \<not> is_conf p \<and> a = of_nat i"
  using assms vf_sent_objects_index [of a _ p 0 0 ps] by (fastforce simp: audio_objects_def ungrouped_def)

end
