(* ===== verification/Audio_Props.thy ===== *)
theory Audio_Props
  imports Audio_Contract Segments_Props VideoUnreliable_Props
begin

text \<open>
  The audio receiver without forward error correction keeps the contract of an audio receiver
  for the messages of a sender.
\<close>

section \<open>Choosing\<close>

lemma audio_choose_ready:
  assumes "audio_choose b now nxt c ds = XReady x"
  shows "\<not> config_is_none c \<and> (if x then config_is_ready c else \<not> config_is_ready c \<and> ds \<noteq> [])"
  using assms
  by (cases c; cases ds) (auto simp: audio_choose_def split: if_splits option.splits prod.splits)

lemma audio_choose_config: "audio_choose b now nxt (CReady q nxt) ds = XReady True"
  by (simp add: audio_choose_def)

lemma au_take_cases:
  obtains (idle) a where "au_take_next_packet now nxt g = Inr (a, g)" "\<And>k q. a \<noteq> XPacket k q"
  | (config) q k where "pg_config g = CReady q k"
      "au_take_next_packet now nxt g = Inr (XPacket k q, g\<lparr>pg_config := CSent\<rparr>)"
  | (frame) d ds where "pg_config g = CSent" "pg_datagrams g = d # ds"
      "au_take_next_packet now nxt g = Inr (XPacket (sp_seq d) (sp_packet d), pg_drop_expired (sp_seq d) (g\<lparr>pg_datagrams := ds\<rparr>))"
proof (cases "au_next_packet now nxt g")
  case XNone
  then show thesis by (intro idle [of XIdle]) (simp_all add: au_take_next_packet_def)
next
  case (XDeadline t)
  then show thesis by (intro idle [of "XWait t"]) (simp_all add: au_take_next_packet_def)
next
  case (XReady x)
  note r = audio_choose_ready [OF this [unfolded au_next_packet_def]]
  show thesis
  proof (cases x)
    case True
    with r obtain q k where "pg_config g = CReady q k" by (cases "pg_config g") auto
    with XReady True show thesis by (intro config) (simp_all add: au_take_next_packet_def pg_take_config_def)
  next
    case False
    with r have "pg_config g = CSent" by (cases "pg_config g") auto
    moreover obtain d ds where "pg_datagrams g = d # ds" using r False by (cases "pg_datagrams g") auto
    ultimately show thesis using XReady False by (intro frame) (simp_all add: au_take_next_packet_def pg_take_datagram_def)
  qed
qed

section \<open>The invariant\<close>

text \<open>Number 0 is the config, all others are frames.\<close>

definition audio_frame :: "u64 \<Rightarrow> bool" where
  "audio_frame k \<longleftrightarrow> k \<noteq> 0 \<and> small k"

abbreviation audio_group_ok :: "(u64 \<Rightarrow> av_packet) \<Rightarrow> (u64 \<Rightarrow> bytes list) \<Rightarrow> u64 \<Rightarrow> pgroup \<Rightarrow> bool" where
  "audio_group_ok pk cs \<equiv> pg_ok pk cs audio_frame (\<lambda>k. k = 0)"

text \<open>Before the config nothing is forwarded; it is forwarded as soon as it arrives.\<close>

fun au_phase :: "config_packet \<Rightarrow> u64 \<Rightarrow> u16 option \<Rightarrow> bool" where
  "au_phase CNone nxt fs \<longleftrightarrow> nxt = 0"
| "au_phase (CReady q k) nxt fs \<longleftrightarrow> k = 0 \<and> nxt = 0 \<and> fs \<noteq> None"
| "au_phase CSent nxt fs \<longleftrightarrow> nxt \<noteq> 0 \<and> fs \<noteq> None"

lemma au_phase_resized: "au_phase c nxt fs \<Longrightarrow> au_phase c nxt (Some x)"
  by (cases c) simp_all

definition au_inv :: "(u64 \<Rightarrow> av_packet) \<Rightarrow> (u64 \<Rightarrow> bytes list) \<Rightarrow> au_state \<Rightarrow> bool" where
  "au_inv pk cs s \<longleftrightarrow>
     objects_ok pk cs audio_frame \<and> (\<exists>h payload. pk 0 = Media h payload)
     \<and> audio_group_ok pk cs (au_next s) (au_pending s) \<and> small (newest_seq (au_kseq s)) \<and> au_phase (pg_config (au_pending s)) (au_next s) (au_frame_size s)"

definition au_sinv :: "(u64 \<Rightarrow> av_packet) \<Rightarrow> (u64 \<Rightarrow> bytes list) \<Rightarrow> au_state \<Rightarrow> bool" where
  "au_sinv pk cs s \<longleftrightarrow> au_inv pk cs s \<and> \<not> config_is_ready (pg_config (au_pending s))"

definition au_view :: "au_state \<Rightarrow> u16 option \<times> u64" where
  "au_view s = (au_frame_size s, au_next s)"

lemma au_forward_packet:
  assumes "au_take_next_packet now (au_next s) (au_pending s) = Inr (XPacket k (pk k), g)"
    and "au_inv pk cs s" "au_next s \<le> k" "small k" "audio_group_ok pk cs (k + 1) g" "pg_config g = CSent" "au_frame_size s \<noteq> None"
  shows "audio_keeps pk (au_sinv pk cs) au_view (au_view s) (au_forward now s)"
proof -
  obtain fs where fs: "au_frame_size s = Some fs" using assms(7) by blast
  have m: "k \<noteq> - 1" using assms(4) by (rule small_not_max)
  let ?h = "au_hole (k - au_next s) fs"
  define stats where "stats = (if k > au_next s
    then (au_stats s)\<lparr>dropped_packets := add_opt (dropped_packets (au_stats s)) (unat (k - au_next s))\<rparr> else au_stats s)"
  define s' where "s' = s\<lparr>au_pending := g, au_stats := stats, au_next := k + 1, au_deadline := None\<rparr>"
  have f: "au_forward now s
      = (((if k > au_next s then [(None, Hole ?h)] else []) @ [(Some k, pk k)]) @ [], Running s')"
    using assms(1) fs by (simp add: au_forward_def Let_def s'_def stats_def)
  have "unat k < 2 ^ 48" using assms(4) by (simp add: small_def)
  from au_hole_samples [OF assms(3) this, of fs]
  have acc: "audio_accepts (fst (au_view s), snd (au_view s), None)
      ((if k > au_next s then [(None, Hole ?h)] else []) @ [(Some k, pk k)]) = Some (Some fs, k + 1, None)"
    unfolding au_view_def fst_conv snd_conv fs by (intro audio_packet_accepted [OF assms(3) m])
  have "k + 1 \<noteq> 0" using m by (metis add_eq_0_iff2)
  then have "au_sinv pk cs s'"
    using assms(2,5,6) fs by (simp add: au_sinv_def au_inv_def s'_def)
  then have "audio_keeps pk (au_sinv pk cs) au_view (Some fs, k + 1) ([], Running s')"
    by (intro audio_keeps_idle) (simp_all add: au_view_def s'_def fs)
  with acc show ?thesis unfolding f by (rule audio_keeps_append) (simp_all add: genuine_def)
qed

lemma au_forward_keeps:
  assumes "au_inv pk cs s"
  shows "audio_keeps pk (au_sinv pk cs) au_view (au_view s) (au_forward now s)"
proof -
  have g: "audio_group_ok pk cs (au_next s) (au_pending s)" and ph: "au_phase (pg_config (au_pending s)) (au_next s) (au_frame_size s)" using assms by (simp_all add: au_inv_def)
  show ?thesis
  proof (cases now "au_next s" "au_pending s" rule: au_take_cases)
    case (idle a)
    obtain dl where f: "au_forward now s = ([], Running (s\<lparr>au_deadline := dl\<rparr>))"
      using idle by (cases a) (auto simp: au_forward_def)
    have "\<not> config_is_ready (pg_config (au_pending s))"
    proof
      assume "config_is_ready (pg_config (au_pending s))"
      with ph obtain q where "pg_config (au_pending s) = CReady q (au_next s)"
        by (cases "pg_config (au_pending s)") (auto simp:)
      then have "au_next_packet now (au_next s) (au_pending s) = XReady True"
        by (simp add: au_next_packet_def audio_choose_config)
      with idle \<open>pg_config (au_pending s) = CReady q (au_next s)\<close> show False
        by (auto simp: au_take_next_packet_def pg_take_config_def)
    qed
    with assms have "au_sinv pk cs (s\<lparr>au_deadline := dl\<rparr>)" by (simp add: au_sinv_def au_inv_def)
    then show ?thesis unfolding f by (rule audio_keeps_idle) (simp add: au_view_def)
  next
    case (config q k)
    have k: "k = 0" "q = pk k" "au_next s \<le> k" using pg_okD(2) [OF g config(1)] by blast+
    have "k + 1 \<le> sp_seq d" if "d \<in> set (pg_datagrams (au_pending s))" for d
      using pg_okD(1) [OF g that] k(1) by (intro word_plus1_le) (simp add: audio_frame_def word_neq_0_conv)
    then have "audio_group_ok pk cs (k + 1) ((au_pending s)\<lparr>pg_config := CSent\<rparr>)"
      by - (rule pg_ok_raise [of pk cs audio_frame _ "au_next s"], use g in \<open>simp_all add: pg_ok_def\<close>)
    moreover have "au_frame_size s \<noteq> None" using ph config(1) by (simp add:)
    ultimately show ?thesis
      by - (rule au_forward_packet [OF config(2) [unfolded k(2)] assms k(3)], simp_all add: k(1) small_def)
  next
    case (frame d ds)
    let ?g = "(au_pending s)\<lparr>pg_datagrams := ds\<rparr>"
    have d: "audio_frame (sp_seq d)" "au_next s \<le> sp_seq d" "sp_packet d = pk (sp_seq d)" using pg_okD(1) [OF g, of d] frame(2) by simp_all
    have "sp_seq d + 1 \<le> sp_seq y" if "y \<in> set ds" for y
      using g frame(2) that by (intro word_plus1_le) (simp add: pg_ok_def)
    moreover have "audio_group_ok pk cs (au_next s) ?g" using g frame(2) by (simp add: pg_ok_def)
    ultimately have "audio_group_ok pk cs (sp_seq d + 1) ?g"
      by - (rule pg_ok_raise [of pk cs audio_frame _ "au_next s"], simp_all add: frame(1))
    then have "audio_group_ok pk cs (sp_seq d + 1) (pg_drop_expired (sp_seq d) ?g)" by (rule pg_drop_expired_ok)
    moreover have "pg_config (pg_drop_expired (sp_seq d) ?g) = CSent" "au_frame_size s \<noteq> None"
      using frame(1) ph by (simp_all add: pg_drop_expired_def Let_def)
    ultimately show ?thesis using d
      by - (rule au_forward_packet [OF frame(3) [unfolded d(3)] assms d(2)], simp_all add: audio_frame_def)
  qed
qed

section \<open>Steps\<close>

text \<open>The messages of a sender; a config comes after a codec, as on the stream.\<close>

fun au_from_sender :: "(u64 \<Rightarrow> av_packet) \<Rightarrow> (u64 \<Rightarrow> bytes list) \<Rightarrow> au_msg event \<Rightarrow> au_state \<Rightarrow> bool" where
  "au_from_sender pk cs (ts, Msg (UStream packet raw)) s \<longleftrightarrow>
     (\<exists>h. packet = Codec h \<and> frame_size h > 0) \<or> packet = pk 0 \<and> raw = 0 \<and> au_frame_size s \<noteq> None"
| "au_from_sender pk cs (ts, Msg (UDatagram data raw n e)) s \<longleftrightarrow>
     (\<exists>k. audio_frame k \<and> unat raw = unat k \<and> n < length (cs k) \<and> e = (Suc n = length (cs k)) \<and> data = cs k ! n)"
| "au_from_sender pk cs ev s \<longleftrightarrow> True"

lemma au_unrolled:
  assumes "au_inv pk cs s" "small k" "unat raw = unat k"
  obtains kq where "seq_u32 (au_kseq s) raw = (k, kq)" "small (newest_seq kq)"
proof -
  have n: "small (newest_seq (au_kseq s))" using assms(1) by (simp add: au_inv_def)
  then have "unat (newest_seq (au_kseq s)) < 2 ^ 63" by (simp add: small_def)
  with numbered_unroll [OF small_numbered [OF assms(2) n assms(3)]] small_newest [OF assms(2) n assms(3)] that
  show thesis by (cases "seq_u32 (au_kseq s) raw") simp
qed

lemma au_step_datagram_keeps:
  assumes "au_sinv pk cs s" "au_from_sender pk cs (ts, Msg (UDatagram data raw n e)) s"
  shows "audio_keeps pk (au_sinv pk cs) au_view (au_view s) (au_step (ts, Msg (UDatagram data raw n e)) s)"
proof -
  obtain k where k: "audio_frame k" "unat raw = unat k" "n < length (cs k)" "e = (Suc n = length (cs k))" "data = cs k ! n"
    using assms(2) by auto
  have i: "au_inv pk cs s" using assms(1) by (simp add: au_sinv_def)
  obtain kq where q: "seq_u32 (au_kseq s) raw = (k, kq)" "small (newest_seq kq)"
    using au_unrolled [OF i _ k(2)] k(1) by (auto simp: audio_frame_def)
  show ?thesis
  proof (cases "k < au_next s")
    case True
    have "au_sinv pk cs (s\<lparr>au_kseq := kq\<rparr>)" using assms(1) q(2) by (simp add: au_sinv_def au_inv_def)
    then have "audio_keeps pk (au_sinv pk cs) au_view (au_view s) ([], Running (s\<lparr>au_kseq := kq\<rparr>))"
      by (rule audio_keeps_idle) (simp add: au_view_def)
    with q True show ?thesis by (simp add: au_step_def)
  next
    case False
    have "objects_ok pk cs audio_frame" "audio_group_ok pk cs (au_next s) (au_pending s)"
      using i by (simp_all add: au_inv_def)
    from pg_insert_datagram_ok [OF this k(1) _ k(3), of "ts 0"] False [unfolded not_less]
    obtain g where g: "au_insert_datagram (ts 0) k n e data (au_pending s) = Inr g"
      "audio_group_ok pk cs (au_next s) g" "pg_config g = pg_config (au_pending s)"
      using k(4,5) by (auto simp: au_insert_datagram_def)
    have "au_inv pk cs (s\<lparr>au_kseq := kq, au_pending := g\<rparr>)" using i q(2) g by (simp add: au_inv_def)
    from au_forward_keeps [OF this, of "ts 1"] q False g(1) show ?thesis by (simp add: au_step_def au_view_def)
  qed
qed

lemma au_step_config_keeps:
  assumes "au_sinv pk cs s" "au_frame_size s \<noteq> None"
  shows "audio_keeps pk (au_sinv pk cs) au_view (au_view s) (au_step (ts, Msg (UStream (pk 0) 0)) s)"
proof -
  have i: "au_inv pk cs s" using assms(1) by (simp add: au_sinv_def)
  obtain h payload where m: "pk 0 = Media h payload" using i by (auto simp: au_inv_def)
  obtain kq where q: "seq_u32 (au_kseq s) 0 = (0, kq)" "small (newest_seq kq)"
    using au_unrolled [OF i, of 0 0] by (auto simp: small_def)
  show ?thesis
  proof (cases "au_next s = 0")
    case False
    have "au_inv pk cs (s\<lparr>au_kseq := kq\<rparr>)" using i q(2) by (simp add: au_inv_def)
    from au_forward_keeps [OF this, of "ts 1"] m q(1) False show ?thesis
      by (simp add: au_step_def au_view_def word_le_0_iff)
  next
    case True
    let ?g = "(au_pending s)\<lparr>pg_config := CReady (pk 0) 0\<rparr>"
    have n: "pg_config (au_pending s) = CNone"
      using assms(1) True by (cases "pg_config (au_pending s)") (auto simp: au_sinv_def au_inv_def)
    then have g: "au_insert_stream_packet 0 (pk 0) (au_pending s) = Inr ?g"
      by (simp add: au_insert_stream_packet_def pg_insert_stream_packet_def)
    have "au_inv pk cs (s\<lparr>au_kseq := kq, au_pending := ?g\<rparr>)"
      using i q(2) True assms(2) by (simp add: au_inv_def pg_ok_def)
    from au_forward_keeps [OF this, of "ts 1"] m q(1) True g show ?thesis by (simp add: au_step_def au_view_def)
  qed
qed

lemma au_step_keeps:
  assumes "au_sinv pk cs s" "au_from_sender pk cs ev s"
  shows "audio_keeps pk (au_sinv pk cs) au_view (au_view s) (au_step ev s)"
proof -
  obtain ts w where ev: "ev = (ts, w)" by (cases ev)
  have idle: "audio_keeps pk (au_sinv pk cs) au_view (au_view s) ([], Running s)"
    using assms(1) by (rule audio_keeps_idle) simp
  have i: "au_inv pk cs s" using assms(1) by (simp add: au_sinv_def)
  show ?thesis
  proof (cases w)
    case (Msg m)
    show ?thesis
    proof (cases m)
      case (UStream packet raw)
      show ?thesis
      proof (cases "\<exists>h. packet = Codec h \<and> frame_size h > 0")
        case True
        then obtain h where h: "packet = Codec h" "frame_size h > 0" by blast
        have "au_sinv pk cs (s\<lparr>au_frame_size := Some (frame_size h)\<rparr>)"
          using assms(1) by (auto simp: au_sinv_def au_inv_def intro: au_phase_resized)
        then have "audio_keeps pk (au_sinv pk cs) au_view (au_view s)
            ([(None, packet)], Running (s\<lparr>au_frame_size := Some (frame_size h)\<rparr>))"
          unfolding h(1) by (rule audio_keeps_codec) (simp_all add: au_view_def h(2))
        with h ev Msg UStream show ?thesis by (simp add: au_step_def)
      next
        case False
        with assms(2) ev Msg UStream have "packet = pk 0" "raw = 0" "au_frame_size s \<noteq> None" by auto
        with au_step_config_keeps [OF assms(1), of ts] ev Msg UStream show ?thesis by simp
      qed
    qed (use au_step_datagram_keeps [OF assms(1)] assms(2) ev Msg in simp)
  next
    case Timer
    with idle au_forward_keeps [OF i] ev show ?thesis by (auto simp: au_step_def split: option.splits)
  qed (use idle ev in \<open>simp_all add: au_step_def audio_keeps_stop\<close>)
qed

interpretation au_rcv: audio_receiver au_step "au_sinv pk cs" "au_from_sender pk cs" au_view for pk cs
proof (standard, goal_cases)
  case (1 s e os s')
  from audio_keepsD(3) [OF au_step_keeps [OF 1(1,2), unfolded 1(3)] refl] show ?case .
next
  case (2 s e os f)
  from audio_keepsD(2) [OF au_step_keeps [OF 2(1,2), unfolded 2(3)] refl] show ?case .
next
  case (3 s e os st)
  from audio_keepsD(4) [OF au_step_keeps [OF 3(1,2), unfolded 3(3)]] show ?case .
qed

interpretation au_emit: emitting_receiver au_step "au_sinv pk cs" "au_from_sender pk cs" "genuine pk" for pk cs
proof (standard, goal_cases)
  case (1 s e os st x)
  from audio_keepsD(1) [OF au_step_keeps [OF 1(1,2), unfolded 1(3)] 1(4)] show ?case .
qed

end
