(* ===== verification/Audio_Session.thy ===== *)
theory Audio_Session
  imports Audio_Contract
begin

text \<open>
  Sessions of an audio sender, the order its stream guarantees (locale \<open>audio_stream_receiver\<close>),
  and what the contract of an audio receiver then gives for a whole session.
\<close>

section \<open>Sessions\<close>

text \<open>
  An audio session starts with a codec and the only config; every codec states a frame size. The
  receivers have room for one config, which must be the first packet.
\<close>

fun codec_sized :: "av_packet \<Rightarrow> bool" where
  "codec_sized (Codec h) = (frame_size h > 0)"
| "codec_sized p = True"

fun audio_session :: "av_packet list \<Rightarrow> bool" where
  "audio_session (Codec h # Media c payload # ps) =
     (is_config c \<and> frame_size h > 0 \<and> list_all (\<lambda>p. codec_sized p \<and> \<not> is_conf p) ps)"
| "audio_session ps = False"

lemma audio_session_cases:
  assumes "audio_session ps"
  obtains h c payload rest where "ps = Codec h # Media c payload # rest" "is_config c" "frame_size h > 0"
    "\<forall>p \<in> set rest. codec_sized p \<and> \<not> is_conf p"
  using assms by (cases ps rule: audio_session.cases) (auto simp: list_all_iff)

lemma audio_session_config:
  assumes "audio_session ps" "i < length (filter is_media ps)"
  shows "is_conf (filter is_media ps ! i) \<longleftrightarrow> i = 0"
proof -
  obtain h c payload rest where ps: "ps = Codec h # Media c payload # rest" "is_config c"
    "\<forall>p \<in> set rest. codec_sized p \<and> \<not> is_conf p" using assms(1) by (rule audio_session_cases)
  show ?thesis
  proof (cases i)
    case (Suc j)
    with assms(2) ps have "filter is_media ps ! i \<in> set rest" using nth_mem [of j "filter is_media rest"] by simp
    with ps(3) Suc show ?thesis by simp
  qed (use ps in simp)
qed

text \<open>The records of a session: codecs, and the config with number 0; a codec comes first.\<close>

lemma codec_records:
  assumes "\<forall>p \<in> set ps. codec_sized p \<and> \<not> is_conf p" "\<forall>h. Hole h \<notin> set ps" "x \<in> set (vf_records k g ps)"
  shows "\<exists>h. snd (snd x) = Codec h \<and> frame_size h > 0"
  using assms by (induction k g ps rule: vf_records.induct) (auto split: if_splits)

lemma audio_session_records:
  assumes "audio_session ps" "\<forall>h. Hole h \<notin> set ps" "r \<in> set (audio_records 0 ps)"
  shows "(\<exists>h. snd r = Codec h \<and> frame_size h > 0) \<or> r = (0, filter is_media ps ! 0) \<and> filter is_media ps \<noteq> [] \<and> is_media (snd r)"
proof -
  obtain h c payload rest where ps: "ps = Codec h # Media c payload # rest" "is_config c" "frame_size h > 0"
    "\<forall>p \<in> set rest. codec_sized p \<and> \<not> is_conf p" using assms(1) by (rule audio_session_cases)
  have "\<exists>h. snd x = Codec h \<and> frame_size h > 0" if "x \<in> set (audio_records k rest)" for x k
    using codec_records [OF ps(4)] that assms(2) ps(1) by (auto simp: audio_records_def ungrouped_def)
  from this [of r 1] assms(3) ps(1-3) show ?thesis by auto
qed

fun codec_first :: "bool \<Rightarrow> av_packet list \<Rightarrow> bool" where
  "codec_first b [] = True"
| "codec_first b (Codec h # ps) = codec_first True ps"
| "codec_first b (p # ps) = (b \<and> codec_first b ps)"

lemma codec_first_seen: "codec_first True ps"
  by (induction "True" ps rule: codec_first.induct) simp_all

lemma codec_first_prefix:
  "codec_first b ps \<Longrightarrow> prefix qs ps \<Longrightarrow> codec_first b qs"
proof (induction qs arbitrary: b ps)
  case (Cons q qs)
  then obtain rest where "ps = q # rest" "prefix qs rest" by (cases ps) auto
  with Cons.prems(1) Cons.IH [of b rest] show ?case by (cases q) (simp_all add: codec_first_seen)
qed simp

lemma audio_session_codec_first: "audio_session ps \<Longrightarrow> codec_first False (map snd (audio_records 0 ps))"
  by (elim audio_session_cases) (simp add: codec_first_seen)

section \<open>Receivers on a stream\<close>

text \<open>
  A client that has seen a codec keeps a frame size. A receiver that learns it from the codec
  packets of its stream meets no config before one, if its stream has a codec first.
\<close>

lemma audio_accept_sized: "audio_accept (Some fs, n, h) x = Some (fs', n', h') \<Longrightarrow> fs' \<noteq> None"
  by (cases "((Some fs, n, h), x)" rule: audio_accept.cases) (auto split: if_splits)

lemma audio_accepts_sized: "audio_accepts (Some fs, n, h) xs = Some (fs', n', h') \<Longrightarrow> fs' \<noteq> None"
proof (induction xs arbitrary: fs n h)
  case (Cons x xs)
  then obtain fs1 n1 h1 where v: "audio_accept (Some fs, n, h) x = Some (fs1, n1, h1)" "audio_accepts (fs1, n1, h1) xs = Some (fs', n', h')"
    by (cases "audio_accept (Some fs, n, h) x") auto
  with audio_accept_sized [OF v(1)] Cons.IH show ?case by auto
qed auto

locale audio_stream_receiver = audio_receiver step inv ok view
  for step :: "'e \<Rightarrow> 's \<Rightarrow> emission list \<times> 's status" and inv ok view +
  fixes packet_of :: "'e \<Rightarrow> av_packet option"
  assumes codec_sizes: "inv s \<Longrightarrow> ok e s \<Longrightarrow> step e s = (os, Running s') \<Longrightarrow> packet_of e = Some (Codec h) \<Longrightarrow> fst (view s') \<noteq> None"
begin

lemma step_sized:
  assumes "inv s" "ok e s" "step e s = (os, Running s')" "fst (view s) \<noteq> None"
  shows "fst (view s') \<noteq> None"
proof -
  obtain fs n where "audio_accepts (fst (view s), snd (view s), None) os = Some (fs, n, None)" "view s' = (fs, n)"
    using step_accepted [OF assms(1-3)] by blast
  with assms(4) audio_accepts_sized show ?thesis by fastforce
qed

lemma run_ok_codec_first:
  assumes "inv s" "codec_first (fst (view s) \<noteq> None) (List.map_filter packet_of es)"
    and "\<And>e s. e \<in> set es \<Longrightarrow> (\<And>p. packet_of e = Some p \<Longrightarrow> (\<exists>h. p = Codec h) \<or> fst (view s) \<noteq> None) \<Longrightarrow> ok e s"
  shows "run_ok ok step es s"
  using assms
proof (induction es arbitrary: s)
  case (Cons e es)
  have first: "(\<exists>h. p = Codec h) \<or> fst (view s) \<noteq> None" if "packet_of e = Some p" for p
    using Cons.prems(2) that by (cases p) (auto simp: List.map_filter_simps)
  then have ok: "ok e s" by (intro Cons.prems(3)) auto
  have "run_ok ok step es s1" if st: "step e s = (o1, Running s1)" for o1 s1
  proof (rule Cons.IH)
    show "inv s1" using step_inv Cons.prems(1) ok st by blast
    show "codec_first (fst (view s1) \<noteq> None) (List.map_filter packet_of es)"
    proof (cases "fst (view s1) = None")
      case True
      then have "fst (view s) = None" "\<forall>h. packet_of e \<noteq> Some (Codec h)"
        using step_sized [OF Cons.prems(1) ok st] codec_sizes [OF Cons.prems(1) ok st] by blast+
      with first have "packet_of e = None" by (cases "packet_of e") auto
      with Cons.prems(2) True \<open>fst (view s) = None\<close> show ?thesis by (simp add: List.map_filter_simps)
    qed (simp add: codec_first_seen)
  qed (use Cons.prems(3) in simp)
  with ok show ?case by (auto split: prod.splits status.splits)
qed simp

end

section \<open>Whole sessions\<close>

text \<open>What a client accepted, of packets that are those of the sender, is a part of what was sent.\<close>

lemma accepted_subseq:
  assumes "audio_accepts (None, 0, None) os = Some v"
    and "\<And>x k. x \<in> set os \<Longrightarrow> fst x = Some k \<Longrightarrow> unat k < length ms \<and> snd x = ms ! unat k"
  shows "subseq (map snd (filter (\<lambda>x. fst x \<noteq> None) os)) ms"
proof -
  obtain fs n h where v: "v = (fs, n, h)" by (cases v)
  have "sorted_wrt (<) (output_seqs os)" using audio_accepts_ascends [OF assms(1) [unfolded v]] ascends_sorted by blast
  then have "sorted_wrt (<) (map unat (output_seqs os))"
    unfolding sorted_wrt_map by (rule sorted_wrt_mono_rel [rotated]) (simp add: word_less_nat_alt)
  moreover have "\<forall>n \<in> set (map unat (output_seqs os)). n < length ms"
    using assms(2) by (fastforce simp: output_seqs_def map_filter_def)
  ultimately have "subseq (map ((!) ms) (map unat (output_seqs os))) ms" by (rule subseq_nth)
  moreover have "map snd (filter (\<lambda>x. fst x \<noteq> None) os) = map (\<lambda>k. ms ! unat k) (output_seqs os)"
    using assms(2) by (intro output_packets) blast
  ultimately show ?thesis by (simp add: comp_def)
qed

end
