(* ===== verification/Audio_End.thy ===== *)
theory Audio_End
  imports Audio_Session Audio_Props VideoUnreliable_End
begin

text \<open>The unreliable audio protocol without forward error correction, from end to end.\<close>

section \<open>What the sender writes\<close>

abbreviation au_pieces :: "nat \<Rightarrow> av_packet \<Rightarrow> bytes list" where
  "au_pieces m p \<equiv> pieces (m - au_DATAGRAM_HEADER_SIZE) (av_enc p)"

definition au_sent_for :: "u16 \<times> nat option \<Rightarrow> u32 \<times> av_packet \<Rightarrow> bytes \<Rightarrow> bool" where
  "au_sent_for lim x dg \<longleftrightarrow>
     (\<exists>m n. snd lim = Some m \<and> au_DATAGRAM_HEADER_SIZE < m \<and> n < length (au_pieces m (snd x))
        \<and> dg = put_u16 (fst lim) @ put_u32 (fst x)
                @ put_u32 (number_and_end n (Suc n = length (au_pieces m (snd x)))) @ au_pieces m (snd x) ! n)"

lemma au_send_datagrams_ok:
  assumes "au_send_datagrams h payload s = (Inr u, s')"
  shows "as_stream s' = as_stream s \<and> as_kypacket_seq s' = as_kypacket_seq s
       \<and> sc_limits (as_channel s') = sc_limits (as_channel s)
       \<and> (\<forall>dg \<in> set (sc_sent (as_channel s')). dg \<in> set (sc_sent (as_channel s)) \<or>
            au_sent_for (sc_limits (as_channel s)) (as_kypacket_seq s, Media h payload) dg)"
proof -
  let ?p = "Media h payload"
  obtain m where m: "sc_max_datagram (as_channel s) = Some m"
    using assms by (auto simp: au_send_datagrams_def split: option.splits)
  with assms have big: "au_DATAGRAM_HEADER_SIZE < m"
    by (cases "au_DATAGRAM_HEADER_SIZE < m") (simp_all add: au_send_datagrams_def)
  obtain hdr where hdr: "media_serialize h = Inr hdr"
    using assms m big by (cases "media_serialize h") (simp_all add: au_send_datagrams_def)
  let ?room = "m - au_DATAGRAM_HEADER_SIZE"
  define dgs where "dgs = map (au_datagram s) (cut_segments ?room 0 (av_enc ?p))"
  have s': "s' = s\<lparr>as_channel := snd (send_datagram_list dgs (as_channel s))\<rparr>"
    using assms m big hdr by (auto simp: au_send_datagrams_def Let_def dgs_def apsnd_def map_prod_def
        split: if_splits prod.splits)
  obtain k where k: "sc_sent (as_channel s') = sc_sent (as_channel s) @ take k dgs"
    using send_datagram_list_prefix [of dgs "as_channel s"] s' by auto
  have "au_sent_for (sc_limits (as_channel s)) (as_kypacket_seq s, ?p) dg" if d: "dg \<in> set dgs" for dg
  proof -
    obtain x where x: "x \<in> set (cut_segments ?room 0 (av_enc ?p))" "dg = au_datagram s x"
      using d unfolding dgs_def set_map by blast
    obtain n e data where xe: "x = (n, e, data)" by (cases x)
    have "n < length (au_pieces m ?p)" "e = (Suc n = length (au_pieces m ?p))" "data = au_pieces m ?p ! n"
      using x(1) big unfolding xe by (simp_all add: cut_segments_mem)
    then show ?thesis unfolding au_sent_for_def snd_conv fst_conv
      using m big x(2) xe
      by (intro exI [of _ m] exI [of _ n]) (simp add: au_datagram_def write_datagram_header_def sc_limits_def)
  qed
  with k s' send_datagram_list_limits [of dgs "as_channel s"] show ?thesis by (auto dest: in_set_takeD)
qed

interpretation au_snd: audio_datagram_sender au_send_datagrams au_sent_for
  by standard (rule au_send_datagrams_ok)

section \<open>What the reader tasks make of it\<close>

lemma au_parse_sent:
  assumes "au_sent_for lim (a, p) dg" "length (av_enc p) \<le> 2 ^ 31"
  obtains m n where "snd lim = Some m" "au_DATAGRAM_HEADER_SIZE < m" "n < length (au_pieces m p)"
    "au_parse dg = Inr (UDatagram (au_pieces m p ! n) a n (Suc n = length (au_pieces m p)))"
proof -
  obtain m n where m: "snd lim = Some m" "au_DATAGRAM_HEADER_SIZE < m" "n < length (au_pieces m p)"
    and dg: "dg = put_u16 (fst lim) @ put_u32 a
      @ put_u32 (number_and_end n (Suc n = length (au_pieces m p))) @ au_pieces m p ! n"
    using assms(1) unfolding au_sent_for_def by auto
  let ?w = "number_and_end n (Suc n = length (au_pieces m p))"
  have "n < 2 ^ 31" using m(3) assms(2) pieces_length [of "m - au_DATAGRAM_HEADER_SIZE" "av_enc p"] by linarith
  note w = number_roundtrip [OF this]
  have parts: "take 4 (drop 2 dg) = put_u32 a" "take 4 (drop 6 dg) = put_u32 ?w"
    "drop 10 dg = au_pieces m p ! n" "length dg \<ge> 10"
    by (simp_all add: dg)
  then have "au_parse dg = Inr (UDatagram (au_pieces m p ! n) a n (Suc n = length (au_pieces m p)))"
    by (simp add: au_parse_def au_DATAGRAM_HEADER_SIZE_def w)
  with m that show thesis by blast
qed

definition au_record_msg :: "u32 \<times> av_packet \<Rightarrow> au_msg" where
  "au_record_msg r = UStream (snd r) (fst r)"

lemma au_read_record:
  assumes "av_valid p" "rbuf r = audio_record_bytes (k, p) @ rest"
  shows "au_read_stream_msg r = Inr (UStream p k, r\<lparr>rbuf := rest\<rparr>)"
proof -
  have "read_exact 4 r = Inr (put_u32 k, r\<lparr>rbuf := av_enc p @ rest\<rparr>)"
    by (rule read_exact_append) (use assms(2) in \<open>simp_all add: audio_record_bytes_def\<close>)
  moreover have "av_read (r\<lparr>rbuf := av_enc p @ rest\<rparr>) = Inr (Some (p, r\<lparr>rbuf := rest\<rparr>))"
    using av_read_enc [OF assms(1), of "r\<lparr>rbuf := av_enc p @ rest\<rparr>" rest] by simp
  ultimately show ?thesis by (simp add: au_read_stream_msg_def read_packet_def)
qed

lemma au_recv_step:
  "au_read_stream_msg r = Inr (m, r') \<Longrightarrow> fst (au_recv_stream_packets r) = m # fst (au_recv_stream_packets r')"
  by (subst au_recv_stream_packets.simps) (simp add: case_prod_beta)

lemma au_recv_records:
  assumes "\<forall>x \<in> set rs. av_valid (snd x)" "rbuf r = concat (map audio_record_bytes rs)"
  shows "fst (au_recv_stream_packets r) = map au_record_msg rs"
  using assms
proof (induction rs arbitrary: r)
  case Nil
  then have "read_exact 4 r = Inl (end_err ''early eof'' r)" by (simp add: read_exact_def)
  then show ?case by (subst au_recv_stream_packets.simps) (simp add: au_read_stream_msg_def)
next
  case (Cons x rs)
  obtain k p where x: "x = (k, p)" by (cases x)
  have "au_read_stream_msg r = Inr (UStream p k, r\<lparr>rbuf := concat (map audio_record_bytes rs)\<rparr>)"
    by (rule au_read_record) (use Cons.prems x in simp_all)
  from au_recv_step [OF this] Cons.IH [of "r\<lparr>rbuf := concat (map audio_record_bytes rs)\<rparr>"] Cons.prems(1) x show ?case
    by (simp add: au_record_msg_def)
qed

lemma au_read_extend:
  assumes "au_read_stream_msg r = Inr (m, r')" "rbuf q = rbuf r @ ext"
  shows "au_read_stream_msg q = Inr (m, q\<lparr>rbuf := rbuf r' @ ext\<rparr>)"
proof -
  obtain seqs r1 where s1: "read_exact 4 r = Inr (seqs, r1)"
    using assms(1) by (cases "read_exact 4 r") (auto simp: au_read_stream_msg_def)
  with assms(1) obtain p where p: "av_read r1 = Inr (Some (p, r'))" "m = UStream p (get_u32 seqs)"
    by (auto simp: au_read_stream_msg_def read_packet_def map_err_def and_then_eq_Inr split: sum.splits option.splits)
  from read_exact_extend [OF s1 assms(2)] av_read_extend [OF p(1), of "q\<lparr>rbuf := rbuf r1 @ ext\<rparr>" ext] p(2)
  show ?thesis by (simp add: au_read_stream_msg_def read_packet_def)
qed

lemma au_recv_extend:
  assumes "rbuf q = rbuf r @ ext"
  shows "prefix (fst (au_recv_stream_packets r)) (fst (au_recv_stream_packets q))"
  using assms
proof (induction r arbitrary: q rule: au_recv_stream_packets.induct)
  case (1 r)
  show ?case
  proof (cases "au_read_stream_msg r")
    case (Inl e)
    then show ?thesis by (subst (1) au_recv_stream_packets.simps) simp
  next
    case (Inr y)
    obtain m r' where y: "au_read_stream_msg r = Inr (m, r')" using Inr by (cases y) simp
    have "prefix (fst (au_recv_stream_packets r')) (fst (au_recv_stream_packets (q\<lparr>rbuf := rbuf r' @ ext\<rparr>)))"
      by (rule "1.IH" [OF y refl]) simp
    with au_recv_step [OF y] au_recv_step [OF au_read_extend [OF y "1.prems"]] show ?thesis by simp
  qed
qed

lemma au_recv_prefix:
  assumes "\<forall>x \<in> set rs. av_valid (snd x)"
  shows "prefix (fst (au_recv_stream_packets \<lparr>rbuf = take n (concat (map audio_record_bytes rs)), rerr = e\<rparr>)) (map au_record_msg rs)"
proof -
  let ?bs = "concat (map audio_record_bytes rs)"
  have "prefix (fst (au_recv_stream_packets \<lparr>rbuf = take n ?bs, rerr = e\<rparr>)) (fst (au_recv_stream_packets \<lparr>rbuf = ?bs, rerr = e\<rparr>))"
    by (rule au_recv_extend [of _ _ "drop n ?bs"]) simp
  with au_recv_records [OF assms, of "\<lparr>rbuf = ?bs, rerr = e\<rparr>"] show ?thesis by simp
qed

section \<open>End to end\<close>

fun au_packet_of :: "au_msg event \<Rightarrow> av_packet option" where
  "au_packet_of (ts, Msg (UStream packet raw_k)) = Some packet"
| "au_packet_of ev = None"

fun au_stream_of :: "au_msg event \<Rightarrow> au_msg option" where
  "au_stream_of (ts, Msg (UStream packet raw_k)) = Some (UStream packet raw_k)"
| "au_stream_of ev = None"

interpretation au_str: audio_stream_receiver au_step "au_sinv pk cs" "au_from_sender pk cs" au_view au_packet_of for pk cs
proof (standard, goal_cases)
  case (1 s e os s' h)
  then show ?case by (cases e rule: au_packet_of.cases) (auto simp: au_step_def au_view_def split: if_splits)
qed

text \<open>
  What the events may be: of the stream any part from its start, in its order; of the datagrams
  any, in any order and number.
\<close>

definition au_arrives :: "bytes \<Rightarrow> bytes list \<Rightarrow> au_msg event list \<Rightarrow> bool" where
  "au_arrives bs dgs es \<longleftrightarrow>
     (\<exists>n e. prefix (List.map_filter au_stream_of es) (fst (au_recv_stream_packets \<lparr>rbuf = take n bs, rerr = e\<rparr>)))
     \<and> (\<forall>ev \<in> set es. \<forall>m. snd ev = Msg m \<and> au_stream_of ev = None \<longrightarrow> (\<exists>dg \<in> set dgs. au_parse dg = Inr m))"

definition au_sent_cs :: "nat \<Rightarrow> av_packet \<Rightarrow> av_packet list \<Rightarrow> u64 \<Rightarrow> bytes list" where
  "au_sent_cs m dflt ms k = au_pieces (max m (Suc au_DATAGRAM_HEADER_SIZE)) (sent_pk dflt ms k)"

lemma au_msg_packet: "au_packet_of ev = map_option (\<lambda>m. case m of UStream p k \<Rightarrow> p) (au_stream_of ev)"
  by (cases ev rule: au_packet_of.cases) auto

lemma audio_records_valid:
  assumes "\<forall>p \<in> set ps. av_valid p" "\<forall>h. Hole h \<notin> set ps" "x \<in> set (audio_records k ps)"
  shows "av_valid (snd x)"
  using assms vf_records_valid [OF assms(1,2)] by (auto simp: audio_records_def ungrouped_def)

lemma au_arrives_stream:
  assumes "\<forall>p \<in> set ps. av_valid p" "\<forall>h. Hole h \<notin> set ps" "audio_session ps"
    and "au_arrives (concat (map audio_record_bytes (audio_records 0 ps))) dgs es"
  shows "set (List.map_filter au_stream_of es) \<subseteq> au_record_msg ` set (audio_records 0 ps)"
    "codec_first False (List.map_filter au_packet_of es)"
proof -
  let ?rs = "audio_records 0 ps"
  have rv: "\<forall>x \<in> set ?rs. av_valid (snd x)" using audio_records_valid [OF assms(1,2)] by blast
  obtain n e where "prefix (List.map_filter au_stream_of es)
      (fst (au_recv_stream_packets \<lparr>rbuf = take n (concat (map audio_record_bytes ?rs)), rerr = e\<rparr>))"
    using assms(4) unfolding au_arrives_def by blast
  note pre = prefix_order.trans [OF this au_recv_prefix [OF rv]]
  show "set (List.map_filter au_stream_of es) \<subseteq> au_record_msg ` set ?rs"
    using set_mono_prefix [OF pre] by simp
  have "List.map_filter au_packet_of es = map (\<lambda>m. case m of UStream p k \<Rightarrow> p) (List.map_filter au_stream_of es)"
    by (induction es) (auto simp: List.map_filter_simps au_msg_packet split: option.splits)
  with map_mono_prefix [OF pre, of "\<lambda>m. case m of UStream p k \<Rightarrow> p"]
  have "prefix (List.map_filter au_packet_of es) (map snd ?rs)" by (simp add: comp_def au_record_msg_def)
  with audio_session_codec_first [OF assms(3)] show "codec_first False (List.map_filter au_packet_of es)"
    by (rule codec_first_prefix)
qed

lemma au_datagram_authentic:
  assumes "\<forall>p \<in> set ps. length (av_enc p) \<le> 2 ^ 31" "length ps < 2 ^ 31" "snd lim = Some m" "audio_session ps"
    and "x \<in> set (audio_objects 0 ps)" "au_sent_for lim x dg" "au_parse dg = Inr msg"
  defines "ms \<equiv> filter is_media ps"
  shows "au_from_sender (sent_pk dflt ms) (au_sent_cs m dflt ms) (ts, Msg msg) s"
proof -
  obtain a p where x: "x = (a, p)" by (cases x)
  have short: "length ms < 2 ^ 31" using assms(2) length_filter_le [of is_media ps] unfolding ms_def by linarith
  obtain i where i: "i < length ms" "ms ! i = p" "is_media p" "\<not> is_conf p" "a = of_nat i"
    using audio_objects_index [OF assms(5) [unfolded x]] unfolding ms_def by auto
  have "p \<in> set ps" using i(1,2) nth_mem [of i ms] unfolding ms_def by auto
  then have len: "length (av_enc p) \<le> 2 ^ 31" using assms(1) by blast
  obtain m' n where d: "snd lim = Some m'" "au_DATAGRAM_HEADER_SIZE < m'" "n < length (au_pieces m' p)"
    "au_parse dg = Inr (UDatagram (au_pieces m' p ! n) a n (Suc n = length (au_pieces m' p)))"
    by (rule au_parse_sent [OF assms(6) [unfolded x] len])
  note nn = sent_numbers [OF short i(1)]
  have "i \<noteq> 0" using audio_session_config [OF assms(4), of i] i unfolding ms_def by auto
  with nn(1,2) have f: "audio_frame (of_nat i)" by (auto simp: audio_frame_def)
  have "max m (Suc au_DATAGRAM_HEADER_SIZE) = m'" using d(1,2) assms(3) by simp
  then have "au_sent_cs m dflt ms (of_nat i) = au_pieces m' p"
    unfolding au_sent_cs_def sent_pk_def nn(1) using i by simp
  with f nn(4) i(5) d(3,4) assms(7) show ?thesis by auto
qed

lemma au_init_sinv:
  assumes "\<forall>p \<in> set ms. av_valid p \<and> is_media p" "av_valid dflt" "is_media dflt"
  shows "au_sinv (sent_pk dflt ms) (au_sent_cs m dflt ms) au_init"
proof -
  have a: "av_valid (sent_pk dflt ms k) \<and> is_media (sent_pk dflt ms k)" for k
    using assms by (simp add: sent_pk_def)
  then have b: "\<exists>h payload. sent_pk dflt ms k = Media h payload" for k
    by (metis is_media.elims(2))
  have "au_sent_cs m dflt ms k \<noteq> [] \<and> concat (au_sent_cs m dflt ms k) = av_enc (sent_pk dflt ms k)" for k
    using pieces_nonempty [of _ "av_enc (sent_pk dflt ms k)"] pieces_concat av_enc_nonempty a b
    unfolding au_sent_cs_def by (metis less_max_iff_disj lessI zero_less_diff)
  with a b have "objects_ok (sent_pk dflt ms) (au_sent_cs m dflt ms) audio_frame" by (simp add: objects_ok_def)
  with b show ?thesis
    by (simp add: au_sinv_def au_inv_def au_init_def pg_new_ok sequencer_new_def small_def) (simp add: pg_new_def)
qed

lemma au_authentic_session:
  assumes "\<forall>p \<in> set ms. av_valid p \<and> is_media p"
    and ok: "\<And>dflt. av_valid dflt \<and> is_media dflt \<Longrightarrow>
      run_ok (au_from_sender (sent_pk dflt ms) (au_sent_cs m dflt ms)) au_step es au_init"
    and run: "run au_step es au_init = (os, st)"
  shows "subseq (map snd (filter (\<lambda>x. fst x \<noteq> None) os)) ms \<and> audio_accepts (None, 0, None) os \<noteq> None
     \<and> (\<forall>f. st = Failed f \<longrightarrow> \<not> panics f)"
proof -
  let ?dflt = "\<lambda>t. Media \<lparr>is_config = False, is_key = False, pts = t, msize = 0\<rparr> []"
  have v: "av_valid (?dflt 0) \<and> is_media (?dflt 0)" "av_valid (?dflt 1) \<and> is_media (?dflt 1)" by simp_all
  note inv = au_init_sinv [OF assms(1)]
  note inv0 = inv [OF conjunct1 [OF v(1)] conjunct2 [OF v(1)]] and inv1 = inv [OF conjunct1 [OF v(2)] conjunct2 [OF v(2)]]
  have inside: "unat k < length ms \<and> snd x = ms ! unat k" if "x \<in> set os" "fst x = Some k" for x k
    using au_emit.run_emits [OF inv0 ok [OF v(1)] run that(1)] au_emit.run_emits [OF inv1 ok [OF v(2)] run that(1)] that(2)
    by (auto simp: genuine_def sent_pk_def split: if_splits)
  obtain w where w: "audio_accepts (None, 0, None) os = Some w"
    using au_rcv.run_accepted [OF inv0 ok [OF v(1)] run] by (auto simp: au_view_def au_init_def)
  with accepted_subseq [OF w inside] au_rcv.run_no_panic [OF inv0 ok [OF v(1)], of os] run show ?thesis by auto
qed

text \<open>
  C29: Sender and receiver of the unreliable audio protocol agree. For a session of fewer than \<open>2 ^ 31\<close>
  packets that starts with a codec and then the config, has no second config, and whose codecs all
  state a frame size above zero (the receiver asserts the last two, and panics otherwise): whatever part of the datagrams arrives, repeated and reordered at will,
  and however much of the stream, the media packets the receiver forwards are a subsequence of
  those that were sent; every gap is announced by exactly one hole, before the packet that follows
  it, with the samples of the missing packets; and nothing the sender sends panics the receiver.
\<close>

theorem au_end_to_end:
  assumes "audio_send_start c (Inr new_writer) = Inr s0" "sc_sent c = []"
    and "\<forall>p \<in> set ps. av_valid p \<and> length (av_enc p) \<le> 2 ^ 31" "length ps < 2 ^ 31" "audio_session ps"
    and "audio_send_all au_send_datagrams ps s0 = (Inr (), s)"
    and "au_arrives (drop 2 (wout (as_stream s))) (sc_sent (as_channel s)) es"
    and "run au_step es au_init = (os, st)"
  shows "subseq (map snd (filter (\<lambda>x. fst x \<noteq> None) os)) (filter is_media ps)
     \<and> audio_accepts (None, 0, None) os \<noteq> None \<and> (\<forall>f. st = Failed f \<longrightarrow> \<not> panics f)"
proof (rule au_authentic_session [OF _ _ assms(8)])
  let ?ms = "filter is_media ps"
  define m where "m = (case sc_max_datagram c of Some m \<Rightarrow> m | None \<Rightarrow> 0)"
  note out = au_snd.started_ok [OF assms(1,2,6)]
  have valid: "\<forall>p \<in> set ps. av_valid p" "\<forall>p \<in> set ps. length (av_enc p) \<le> 2 ^ 31" using assms(3) by blast+
  show media: "\<forall>p \<in> set ?ms. av_valid p \<and> is_media p" using valid by simp
  note arr = au_arrives_stream [OF valid(1) out(3) assms(5) assms(7) [unfolded out(1)]]
  fix dflt :: av_packet assume dflt: "av_valid dflt \<and> is_media dflt"
  show "run_ok (au_from_sender (sent_pk dflt ?ms) (au_sent_cs m dflt ?ms)) au_step es au_init"
  proof (rule au_str.run_ok_codec_first)
    show "au_sinv (sent_pk dflt ?ms) (au_sent_cs m dflt ?ms) au_init" using au_init_sinv media dflt by blast
    show "codec_first (fst (au_view au_init) \<noteq> None) (List.map_filter au_packet_of es)"
      using arr(2) by (simp add: au_view_def au_init_def)
    fix ev s' assume ev: "ev \<in> set es" "\<And>p. au_packet_of ev = Some p \<Longrightarrow> (\<exists>h. p = Codec h) \<or> fst (au_view s') \<noteq> None"
    show "au_from_sender (sent_pk dflt ?ms) (au_sent_cs m dflt ?ms) ev s'"
    proof (cases "(sent_pk dflt ?ms, au_sent_cs m dflt ?ms, ev, s')" rule: au_from_sender.cases)
      case (1 pk' cs' ts packet raw s1)
      then have "UStream packet raw \<in> set (List.map_filter au_stream_of es)" using ev(1) by (force simp: List.map_filter_def)
      with arr(1) have r: "(raw, packet) \<in> set (audio_records 0 ps)" by (auto simp: au_record_msg_def)
      from audio_session_records [OF assms(5) out(3) r] ev(2) [of packet] 1 show ?thesis
        by (auto simp: au_view_def sent_pk_def)
    next
      case (2 pk' cs' ts data raw n e s1)
      then obtain dg where dg: "dg \<in> set (sc_sent (as_channel s))" "au_parse dg = Inr (UDatagram data raw n e)"
        using assms(7) ev(1) unfolding au_arrives_def by force
      with out(2) obtain x where x: "x \<in> set (audio_objects 0 ps)" "au_sent_for (sc_limits c) x dg" by blast
      then have "snd (sc_limits c) = Some m" by (auto simp: au_sent_for_def sc_limits_def m_def)
      from au_datagram_authentic [OF valid(2) assms(4) this assms(5) x dg(2)] 2 show ?thesis by blast
    qed simp_all
  qed
qed

section \<open>A sender and a receiver\<close>

text \<open>A codec with 960 samples per frame, the config and two frames; the first frame is lost.\<close>

definition sample_codec :: av_packet where
  "sample_codec = Codec \<lparr>codec = 1, rotation = 0, frame_size = 960\<rparr>"

abbreviation audio_sample :: "av_packet list" where
  "audio_sample \<equiv> [sample_codec, sample_config, sample_media, sample_media]"

definition au_sample_channel :: send_channel where
  "au_sample_channel = \<lparr>sc_endpoint = 0, sc_max_datagram = Some 40, sc_sent = [], sc_room = None, sc_error = []\<rparr>"

definition audio_sample_sender :: "send_channel \<Rightarrow> bytes \<Rightarrow> u32 \<Rightarrow> audio_sender" where
  "audio_sample_sender c bs k = \<lparr>as_channel = c, as_stream = new_writer\<lparr>wout := [0, 0] @ bs\<rparr>, as_kypacket_seq = k\<rparr>"

abbreviation audio_sample_records :: "(u32 \<times> av_packet) list" where
  "audio_sample_records \<equiv> [(0, sample_codec), (0, sample_config)]"

definition au_sample_wire :: "bytes list" where
  "au_sample_wire = [[0, 0, 0, 0, 0, 1, 0x80, 0, 0, 0, 0x80, 0, 0, 0, 0, 0, 0, 0, 0, 0, 0, 1, 7],
     [0, 0, 0, 0, 0, 2, 0x80, 0, 0, 0, 0x80, 0, 0, 0, 0, 0, 0, 0, 0, 0, 0, 1, 7]]"

abbreviation au_sample_sender' :: audio_sender where
  "au_sample_sender' \<equiv> audio_sample_sender (au_sample_channel\<lparr>sc_sent := au_sample_wire\<rparr>)
     (concat (map audio_record_bytes audio_sample_records)) 3"

definition au_sample_events :: "au_msg event list" where
  "au_sample_events = [(\<lambda>_. 0, Msg (UStream sample_codec 0)), (\<lambda>_. 1, Msg (UStream sample_config 0)),
     (\<lambda>_. 2, Msg (UDatagram [0x80, 0, 0, 0, 0, 0, 0, 0, 0, 0, 0, 1, 7] 2 0 True)), (\<lambda>_. 10002, Timer)]"

lemma audio_sample_start:
  "audio_send_start au_sample_channel (Inr new_writer) = Inr (audio_sample_sender au_sample_channel [] 0)"
  by (simp add: audio_send_start_def open_uni_def write_endpoint_id_def new_writer_def flush_def write_all_def
      audio_sample_sender_def au_sample_channel_def put_u16_def be_nat_numeral)

lemma sample_media_enc: "av_enc sample_media = [0x80, 0, 0, 0, 0, 0, 0, 0, 0, 0, 0, 1, 7]"
  by (simp add: sample_media_def media_serialize_bytes media_word_def push_bit_eq_mult put_u64_def put_u32_def be_nat_numeral
      replicate_numeral)

lemma audio_sample_records_send:
  "audio_send sd sample_codec (audio_sample_sender c bs k)
     = (Inr (), audio_sample_sender c (bs @ audio_record_bytes (0, sample_codec)) k)"
  "audio_send sd sample_config (audio_sample_sender c bs k)
     = (Inr (), audio_sample_sender c (bs @ audio_record_bytes (k, sample_config)) (k + 1))"
  by (simp_all add: audio_send_def sample_codec_def sample_config_def codec_serialize_bytes audio_write_stream_def
      audio_sample_sender_def audio_record_bytes_def new_writer_def flush_def write_all_def media_serialize_bytes)

lemma au_sample_frame_send:
  "audio_send au_send_datagrams sample_media (audio_sample_sender (au_sample_channel\<lparr>sc_sent := dgs\<rparr>) bs k)
     = (Inr (), audio_sample_sender (au_sample_channel\<lparr>sc_sent := dgs @ [[0, 0] @ put_u32 k @ [0x80, 0, 0, 0] @ av_enc sample_media]\<rparr>) bs (k + 1))"
proof -
  have h: "media_serialize \<lparr>is_config = False, is_key = False, pts = 0, msize = 1\<rparr> = Inr (take 12 (av_enc sample_media))"
    unfolding sample_media_enc
    by (simp add: media_serialize_bytes media_word_def push_bit_eq_mult put_u64_def put_u32_def be_nat_numeral replicate_numeral)
  show ?thesis
    unfolding sample_media_enc
    by (subst sample_media_def) (simp add: h sample_media_enc audio_send_def au_send_datagrams_def au_DATAGRAM_HEADER_SIZE_def
        audio_sample_sender_def au_sample_channel_def cut_segments.simps au_datagram_def write_datagram_header_def
        send_datagram_def number_and_end_def put_u32_def [of "0x80000000"] put_u16_def be_nat_numeral)
qed

lemma au_sample_send:
  "audio_send_all au_send_datagrams audio_sample (audio_sample_sender au_sample_channel [] 0) = (Inr (), au_sample_sender')"
proof -
  have c: "au_sample_channel = au_sample_channel\<lparr>sc_sent := []\<rparr>" by (simp add: au_sample_channel_def)
  show ?thesis
    by (subst c) (simp add: audio_sample_records_send au_sample_frame_send au_sample_wire_def sample_media_enc put_u32_def be_nat_numeral)
qed

lemma au_sample_parse: "au_parse (au_sample_wire ! 1) = Inr (UDatagram [0x80, 0, 0, 0, 0, 0, 0, 0, 0, 0, 0, 1, 7] 2 0 True)"
  by (simp add: au_parse_def au_sample_wire_def au_DATAGRAM_HEADER_SIZE_def get_u32_def nat_be_def
      datagram_number_def datagram_end_def push_bit_eq_mult)

definition au_sample_state :: "config_packet \<Rightarrow> seg_packet list \<Rightarrow> u64 \<Rightarrow> u64 \<Rightarrow> instant option \<Rightarrow> au_state" where
  "au_sample_state c ds k n dl = au_init\<lparr>au_kseq := \<lparr>newest_seq = k\<rparr>,
     au_pending := \<lparr>pg_config = c, pg_datagrams = ds, pg_segments = []\<rparr>, au_next := n, au_deadline := dl,
     au_frame_size := Some 960\<rparr>"

lemma audio_sample_unroll: "seq_u32 \<lparr>newest_seq = 0\<rparr> 0 = (0, \<lparr>newest_seq = 0\<rparr>)" "seq_u32 \<lparr>newest_seq = 0\<rparr> 2 = (2, \<lparr>newest_seq = 2\<rparr>)"
  by (simp_all add: seq_u32_def sequencer_seq_def Let_def push_bit_eq_mult word_le_nat_alt)

lemma au_sample_assemble:
  "pg_insert_datagram t 2 0 True [0x80, 0, 0, 0, 0, 0, 0, 0, 0, 0, 0, 1, 7] \<lparr>pg_config = c, pg_datagrams = [], pg_segments = []\<rparr>
   = Inr \<lparr>pg_config = c, pg_datagrams = [\<lparr>sp_packet = sample_media, sp_seq = 2, sp_instant = t\<rparr>], pg_segments = []\<rparr>"
proof -
  have "seg_assemble t \<lparr>sb_seq = 2, sb_total = Some 1, sb_slots = [Some [0x80, 0, 0, 0, 0, 0, 0, 0, 0, 0, 0, 1, 7]],
     sb_count = 1, sb_bytes = 13\<rparr> = Inr \<lparr>sp_packet = sample_media, sp_seq = 2, sp_instant = t\<rparr>"
    using seg_assemble_ok [of "[av_enc sample_media]" "\<lparr>sb_seq = 2, sb_total = Some 1,
        sb_slots = [Some [0x80, 0, 0, 0, 0, 0, 0, 0, 0, 0, 0, 1, 7]], sb_count = 1, sb_bytes = 13\<rparr>" sample_media t]
    unfolding sample_media_enc by (simp add: seg_wf_def seg_is_complete_def sample_media_def)
  then show ?thesis
    by (simp add: pg_insert_datagram_def binary_search_small pg_prepare_segments_def seg_new_def set_segment_def
      seg_is_complete_def pg_insert_packet_def insert_at_def remove_at_def Let_def eval_nat_numeral)
qed

abbreviation au_sample_late :: "seg_packet list" where
  "au_sample_late \<equiv> [\<lparr>sp_packet = sample_media, sp_seq = 2, sp_instant = 2\<rparr>]"

lemma au_sample_steps:
  "au_step (ts, Msg (UStream sample_codec 0)) au_init = ([(None, sample_codec)], Running (au_sample_state CNone [] 0 0 None))"
  "au_step (ts, Msg (UStream sample_config 0)) (au_sample_state CNone [] 0 0 None)
     = ([(Some 0, sample_config)], Running (au_sample_state CSent [] 0 1 None))"
  "au_step (\<lambda>_. 2, Msg (UDatagram [0x80, 0, 0, 0, 0, 0, 0, 0, 0, 0, 0, 1, 7] 2 0 True)) (au_sample_state CSent [] 0 1 None)
     = ([], Running (au_sample_state CSent au_sample_late 2 1 (Some 10002)))"
  by (simp_all add: au_step_def sample_codec_def sample_config_def au_init_def au_sample_state_def sequencer_new_def pg_new_def
      audio_sample_unroll au_insert_stream_packet_def pg_insert_stream_packet_def au_insert_datagram_def au_sample_assemble
      au_forward_def au_take_next_packet_def au_next_packet_def audio_choose_def pg_take_config_def au_MAX_BUFFERING_def list_min_def Let_def)

lemma au_sample_timer:
  "\<exists>s. au_step (\<lambda>_. 10002, Timer) (au_sample_state CSent au_sample_late 2 1 (Some 10002))
     = ([(None, Hole \<lparr>missing_audio_samples = 960\<rparr>), (Some 2, sample_media)], Running s)"
  by (simp add: au_step_def au_sample_state_def au_init_def au_forward_def au_take_next_packet_def au_next_packet_def
      audio_choose_def pg_take_datagram_def au_MAX_BUFFERING_def list_min_def au_hole_def Let_def)

theorem au_end_to_end_witness:
  "\<exists>st. run au_step au_sample_events au_init
       = ([(None, sample_codec), (Some 0, sample_config), (None, Hole \<lparr>missing_audio_samples = 960\<rparr>), (Some 2, sample_media)], st)
     \<and> subseq [sample_config, sample_media] (filter is_media audio_sample)"
proof -
  obtain s where run: "run au_step au_sample_events au_init = ([(None, sample_codec), (Some 0, sample_config),
      (None, Hole \<lparr>missing_audio_samples = 960\<rparr>), (Some 2, sample_media)], Running s)"
    using au_sample_timer au_sample_steps by (auto simp: au_sample_events_def)
  have v: "\<forall>p \<in> set audio_sample. av_valid p \<and> length (av_enc p) \<le> 2 ^ 31"
    by (simp add: sample_codec_def sample_config_def sample_media_def media_serialize_bytes codec_serialize_bytes)
  have r: "fst (au_recv_stream_packets \<lparr>rbuf = concat (map audio_record_bytes audio_sample_records), rerr = None\<rparr>)
      = [UStream sample_codec 0, UStream sample_config 0]"
    using au_recv_records [of audio_sample_records] v by (simp add: au_record_msg_def)
  have n: "take 32 (drop 2 (wout (as_stream au_sample_sender'))) = concat (map audio_record_bytes audio_sample_records)"
    by (simp add: audio_sample_sender_def audio_record_bytes_def sample_codec_def sample_config_def codec_serialize_bytes
        media_serialize_bytes)
  have "au_arrives (drop 2 (wout (as_stream au_sample_sender'))) (sc_sent (as_channel au_sample_sender')) au_sample_events"
    unfolding au_arrives_def
  proof (intro conjI exI [of _ 32] exI [of _ None])
    show "prefix (List.map_filter au_stream_of au_sample_events)
        (fst (au_recv_stream_packets \<lparr>rbuf = take 32 (drop 2 (wout (as_stream au_sample_sender'))), rerr = None\<rparr>))"
      unfolding n r by (simp add: au_sample_events_def List.map_filter_simps)
  qed (use au_sample_parse in \<open>auto simp: au_sample_events_def audio_sample_sender_def au_sample_wire_def\<close>)
  moreover have "audio_session audio_sample" by (simp add: sample_codec_def sample_config_def sample_media_def)
  moreover have "sc_sent au_sample_channel = []" "length audio_sample < 2 ^ 31" by (simp_all add: au_sample_channel_def)
  ultimately show ?thesis
    using au_end_to_end [OF audio_sample_start _ v _ _ au_sample_send _ run] run by auto
qed

end
