(* ===== verification/AudioFec_Inv.thy ===== *)
theory AudioFec_Inv
  imports AudioFec VideoFec_Props Audio_Props
begin

text \<open>
  The FEC audio receiver against arbitrary peers: its pending group is well formed and within its
  budget after every message, and no message makes it panic.
\<close>

section \<open>The invariant\<close>

definition af_group_inv :: "'d raptorq \<Rightarrow> (oti \<Rightarrow> 'd \<Rightarrow> bool) \<Rightarrow> 'd af_group \<Rightarrow> bool" where
  "af_group_inv rq good g \<longleftrightarrow>
     sorted_key ap_seq (fg_datagrams g) \<and> sorted_key ag_seq (fg_segments g)
     \<and> ap_seq ` set (fg_datagrams g) \<inter> ag_seq ` set (fg_segments g) = {}
     \<and> (\<forall>s \<in> set (fg_segments g). od_inv rq good MAX_AUDIO_PAYLOAD (ag_decoder s) \<and> ag_assembled s = None)
     \<and> fst (af_usage g) \<le> 128 \<and> snd (af_usage g) \<le> 8 * 1024 * 1024"

lemma af_usage_config:
  "af_usage g =
     (length (fg_segments g) + length (fg_datagrams g)
        + (case fg_config g of CReady (Media h payload) k \<Rightarrow> 1 | _ \<Rightarrow> 0),
      sum_list (map (\<lambda>s. reservation (od_oti (ag_decoder s))) (fg_segments g))
        + sum_list (map (\<lambda>d. reservation (ap_oti d)) (fg_datagrams g))
        + (case fg_config g of CReady (Media h payload) k \<Rightarrow> length payload | _ \<Rightarrow> 0))"
  by (auto simp: af_usage_def Let_def split: config_packet.splits av_packet.splits)

lemma af_group_new_inv: "af_group_inv rq good af_group_new"
  by (simp add: af_group_inv_def af_group_new_def af_usage_def)

lemma af_check_capacity_iff:
  "af_check_capacity a g = Inr () \<longleftrightarrow> fst (af_usage g) < 128 \<and> snd (af_usage g) + a \<le> 8 * 1024 * 1024"
proof -
  have "pending_limit MAX_AUDIO_PAYLOAD = 8388608" by (simp add: pending_limit_def fec_limits)
  then show ?thesis
    by (auto simp: af_check_capacity_def check_pending_def Let_def MAX_PENDING_OBJECTS_def case_prod_beta)
qed

lemma af_check_capacity_no_panic [simp]: "\<not> is_panic (af_check_capacity a g)"
  by (simp add: af_check_capacity_def check_pending_def Let_def invalid_def split: prod.splits)

section \<open>Insertions\<close>

lemma af_prepare_cases:
  assumes ok: "decoder_ok rq good" and inv: "af_group_inv rq good g"
    and g1: "af_prepare_segments rq k oti g = Inr (j, g1)"
  obtains ys old zs s0 where "fg_segments g = ys @ old @ zs" "j = length ys"
    "g1 = g\<lparr>fg_segments := ys @ s0 # zs\<rparr>"
    "old = [s0] \<or> old = [] \<and> object_decoder_new rq oti MAX_AUDIO_PAYLOAD = Inr (ag_decoder s0)
       \<and> af_check_capacity (reservation oti) g = Inr ()"
    "\<forall>y \<in> set ys. ag_seq y < k" "\<forall>z \<in> set zs. k < ag_seq z"
    "ag_seq s0 = k" "od_inv rq good MAX_AUDIO_PAYLOAD (ag_decoder s0)"
proof -
  have ss: "sorted_key ag_seq (fg_segments g)" using inv by (simp add: af_group_inv_def)
  show thesis
  proof (cases "binary_search_by_key ag_seq k (fg_segments g)")
    case (Inr l)
    obtain ys x zs where x: "fg_segments g = ys @ x # zs" "l = length ys" "ag_seq x = k"
      "\<forall>y \<in> set ys. ag_seq y < k" "\<forall>z \<in> set zs. k < ag_seq z"
      by (rule binary_search_Ok [OF ss Inr])
    with g1 Inr inv show thesis
      by (intro that [of ys "[x]" zs x]) (auto simp: af_prepare_segments_def af_group_inv_def)
  next
    case (Inl l)
    obtain ys zs where x: "fg_segments g = ys @ zs" "l = length ys"
      "\<forall>y \<in> set ys. ag_seq y < k" "\<forall>z \<in> set zs. k < ag_seq z"
      by (rule binary_search_Err [OF ss Inl])
    obtain od where od: "object_decoder_new rq oti MAX_AUDIO_PAYLOAD = Inr od" "af_check_capacity (reservation oti) g = Inr ()"
      and n: "g1 = g\<lparr>fg_segments := ys @ \<lparr>ag_seq = k, ag_decoder = od, ag_assembled = None\<rparr> # zs\<rparr>" "j = length ys"
      using g1 Inl x
      by (auto simp: af_prepare_segments_def af_segments_new_def and_then_eq_Inr insert_at_mid)
    from object_decoder_new_inv [OF ok od(1)] n x show thesis
      by (intro that [of ys "[]" zs]) (auto simp: od)
  qed
qed

text \<open>
  A datagram belongs to a packet that is complete, or is fed to its decoder, which may complete
  the packet. The decoder is the old one of the number, or a new one the budget has room for.
\<close>

definition af_decoder_for :: "'d raptorq \<Rightarrow> u64 \<Rightarrow> oti \<Rightarrow> 'd af_group \<Rightarrow> 'd af_segments list \<Rightarrow> 'd object_decoder \<Rightarrow> bool" where
  "af_decoder_for rq k oti g old od \<longleftrightarrow>
     (\<exists>s0. old = [s0] \<and> ag_seq s0 = k \<and> ag_decoder s0 = od \<and> od_oti od = oti)
     \<or> old = [] \<and> object_decoder_new rq oti MAX_AUDIO_PAYLOAD = Inr od \<and> af_check_capacity (reservation oti) g = Inr ()"

lemma af_insert_cases:
  assumes ok: "decoder_ok rq good" and inv: "af_group_inv rq good g"
    and ins: "af_insert_datagram rq now k oti pid data g = Inr g'"
  obtains (known) "g' = g"
  | (symbol) ys old zs s od where "k \<notin> ap_seq ` set (fg_datagrams g)" "fg_segments g = ys @ old @ zs"
      "af_decoder_for rq k oti g old od" "\<forall>y \<in> set ys. ag_seq y < k" "\<forall>z \<in> set zs. k < ag_seq z"
      "g' = g\<lparr>fg_segments := ys @ s # zs\<rparr>" "ag_seq s = k" "od_oti (ag_decoder s) = oti"
      "od_inv rq good MAX_AUDIO_PAYLOAD (ag_decoder s)" "ag_assembled s = None"
      "object_decode rq oti pid data od = Inr (None, ag_decoder s)"
  | (complete) ys old zs as d bs od od' bytes where "fg_segments g = ys @ old @ zs"
      "af_decoder_for rq k oti g old od" "\<forall>y \<in> set ys. ag_seq y < k" "\<forall>z \<in> set zs. k < ag_seq z"
      "fg_datagrams g = as @ bs" "\<forall>a \<in> set as. ap_seq a < k" "\<forall>b \<in> set bs. k < ap_seq b"
      "g' = g\<lparr>fg_segments := ys @ zs, fg_datagrams := as @ d # bs\<rparr>" "ap_seq d = k" "ap_oti d = oti"
      "object_decode rq oti pid data od = Inr (Some bytes, od')" "media_packet bytes = Inr (ap_packet d)"
proof -
  have sd: "sorted_key ap_seq (fg_datagrams g)" using inv by (auto simp: af_group_inv_def)
  show thesis
  proof (cases "binary_search_by_key ap_seq k (fg_datagrams g)")
    case (Inr i)
    with ins show thesis by (intro known) (auto simp: af_insert_datagram_def split: if_splits)
  next
    case (Inl i)
    obtain as bs where ab: "fg_datagrams g = as @ bs" "i = length as"
      "\<forall>a \<in> set as. ap_seq a < k" "\<forall>b \<in> set bs. k < ap_seq b"
      by (rule binary_search_Err [OF sd Inl])
    have nk: "k \<notin> ap_seq ` set (fg_datagrams g)" using ab by auto
    obtain j g1 s where g1: "af_prepare_segments rq k oti g = Inr (j, g1)"
      and s: "af_add_packet rq oti pid data (fg_segments g1 ! j) = Inr s"
      and fin: "(if af_is_complete s
          then and_then (af_assemble now s) (\<lambda>d.
               Inr (af_insert_packet d (g1\<lparr>fg_segments := remove_at j (fg_segments g1)\<rparr>)))
          else Inr (g1\<lparr>fg_segments := (fg_segments g1)[j := s]\<rparr>)) = Inr g'"
      using ins Inl by (auto simp: af_insert_datagram_def and_then_eq_Inr)
    obtain ys old zs s0 where sp: "fg_segments g = ys @ old @ zs" "j = length ys" "g1 = g\<lparr>fg_segments := ys @ s0 # zs\<rparr>"
      "old = [s0] \<or> old = [] \<and> object_decoder_new rq oti MAX_AUDIO_PAYLOAD = Inr (ag_decoder s0)
         \<and> af_check_capacity (reservation oti) g = Inr ()"
      "\<forall>y \<in> set ys. ag_seq y < k" "\<forall>z \<in> set zs. k < ag_seq z"
      "ag_seq s0 = k" "od_inv rq good MAX_AUDIO_PAYLOAD (ag_decoder s0)"
      by (rule af_prepare_cases [OF ok inv g1])
    obtain res od where od: "object_decode rq oti pid data (ag_decoder s0) = Inr (res, od)"
      and se: "s = s0\<lparr>ag_decoder := od, ag_assembled := res\<rparr>"
      using s sp(2,3) by (auto simp: af_add_packet_def and_then_eq_Inr)
    have oti: "od_oti (ag_decoder s0) = oti" using od by (auto simp: object_decode_def split: if_splits)
    have odi: "od_inv rq good MAX_AUDIO_PAYLOAD od" "od_oti od = oti"
      using object_decode_inv [OF ok sp(8) od] oti by simp_all
    have dec: "af_decoder_for rq k oti g old (ag_decoder s0)" using sp(4,7) oti by (auto simp: af_decoder_for_def)
    show thesis
    proof (cases res)
      case None
      then have "g' = g\<lparr>fg_segments := ys @ s # zs\<rparr>" using fin sp(2,3) se by (simp add: af_is_complete_def)
      with None odi se nk sp(1,5,6,7) dec od show thesis by (intro symbol [of ys old zs "ag_decoder s0" s]) auto
    next
      case (Some bytes)
      then obtain d where d: "af_assemble now s = Inr d"
        and g': "g' = af_insert_packet d (g1\<lparr>fg_segments := remove_at j (fg_segments g1)\<rparr>)"
        using fin se by (auto simp: and_then_eq_Inr af_is_complete_def)
      have dk: "ap_seq d = k" "ap_oti d = oti" "media_packet bytes = Inr (ap_packet d)"
        using d se odi(2) sp(7) Some by (auto simp: af_assemble_def and_then_eq_Inr)
      have g2: "g' = g\<lparr>fg_segments := ys @ zs, fg_datagrams := as @ d # bs\<rparr>"
        using g' sp(2,3) Inl ab dk by (simp add: af_insert_packet_def remove_at_mid insert_at_mid)
      from complete [OF sp(1) dec sp(5,6) ab(1,3,4) g2 dk(1,2) od [unfolded Some] dk(3)] show thesis .
    qed
  qed
qed

lemma af_insert_inv:
  assumes ok: "decoder_ok rq good" and inv: "af_group_inv rq good g"
    and ins: "af_insert_datagram rq now k oti pid data g = Inr g'"
  shows "af_group_inv rq good g' \<and> fg_config g' = fg_config g"
  using assms
proof (cases rule: af_insert_cases)
  case known
  with inv show ?thesis by simp
next
  case (symbol ys old zs s od)
  have so: "sorted_key ag_seq (ys @ s # zs)"
    using inv symbol(2,4,5,7) by (auto simp: af_group_inv_def sorted_key_append)
  have "ag_seq ` set (ys @ s # zs) \<subseteq> insert k (ag_seq ` set (fg_segments g))" using symbol(2,7) by auto
  moreover have "ap_seq ` set (fg_datagrams g) \<inter> ag_seq ` set (fg_segments g) = {}"
    using inv by (simp add: af_group_inv_def)
  ultimately have disj: "ap_seq ` set (fg_datagrams g) \<inter> ag_seq ` set (ys @ s # zs) = {}"
    using symbol(1) by blast
  have "fst (af_usage g') \<le> 128 \<and> snd (af_usage g') \<le> 8 * 1024 * 1024"
    using inv symbol(2,3,6,8)
    by (auto simp: af_group_inv_def af_usage_config af_decoder_for_def af_check_capacity_iff)
  with so disj inv symbol show ?thesis by (simp add: af_group_inv_def ball_Un)
next
  case (complete ys old zs as d bs od od' bytes)
  have so: "sorted_key ag_seq (ys @ zs)" "sorted_key ap_seq (as @ d # bs)"
    using inv complete(1,5-7,9) by (auto simp: af_group_inv_def sorted_key_append)
  have "k \<notin> ag_seq ` set (ys @ zs)" using complete(3,4) by auto
  then have disj: "ap_seq ` set (as @ d # bs) \<inter> ag_seq ` set (ys @ zs) = {}"
    using inv complete(1,5,9) by (auto simp: af_group_inv_def)
  have "fst (af_usage g') \<le> 128 \<and> snd (af_usage g') \<le> 8 * 1024 * 1024"
    using inv complete(1,2,5,8,10)
    by (auto simp: af_group_inv_def af_usage_config af_decoder_for_def af_check_capacity_iff)
  with so disj inv complete show ?thesis by (simp add: af_group_inv_def ball_Un)
qed

lemma af_insert_no_panic:
  assumes "decoder_ok rq good" "af_group_inv rq good g"
  shows "\<not> is_panic (af_insert_datagram rq now k oti pid data g)"
proof -
  have "\<not> is_panic (af_prepare_segments rq k oti g)"
    using object_decoder_new_no_panic [OF assms(1)]
    by (auto simp: af_prepare_segments_def af_segments_new_def is_panic_and_then split: sum.splits)
  moreover have "\<not> is_panic (af_add_packet rq oti pid data (fg_segments g1 ! j))"
    if "af_prepare_segments rq k oti g = Inr (j, g1)" for j g1
  proof -
    have "od_inv rq good MAX_AUDIO_PAYLOAD (ag_decoder (fg_segments g1 ! j))"
      by (rule af_prepare_cases [OF assms that]) simp
    from object_decode_no_panic [OF assms(1) this] show ?thesis
      by (auto simp: af_add_packet_def is_panic_and_then)
  qed
  moreover have "\<not> is_panic (af_assemble now s)" for s :: "'a af_segments"
    by (simp add: af_assemble_def invalid_def is_panic_and_then split: option.splits)
  ultimately show ?thesis
    by (auto simp: af_insert_datagram_def is_panic_and_then invalid_def split: sum.splits)
qed

lemma af_insert_stream_inv:
  assumes "af_group_inv rq good g" "af_insert_stream_packet k packet g = Inr g'"
  shows "af_group_inv rq good g' \<and> g' = g\<lparr>fg_config := CReady packet k\<rparr> \<and> fg_config g = CNone"
proof -
  obtain h payload where p: "packet = Media h payload" "fg_config g = CNone"
    "af_check_capacity (length payload) g = Inr ()" "g' = g\<lparr>fg_config := CReady packet k\<rparr>"
    using assms(2) by (cases "fg_config g") (auto simp: af_insert_stream_packet_def and_then_eq_Inr split: av_packet.splits if_splits)
  then have "fst (af_usage g') \<le> 128 \<and> snd (af_usage g') \<le> 8 * 1024 * 1024"
    by (auto simp: af_usage_config af_check_capacity_iff)
  with assms(1) p show ?thesis by (simp add: af_group_inv_def)
qed

lemma af_insert_stream_no_panic: "\<not> is_panic (af_insert_stream_packet k packet g)"
  by (auto simp: af_insert_stream_packet_def is_panic_and_then invalid_def split: av_packet.splits)

section \<open>Taking packets\<close>

lemma af_take_cases:
  obtains (idle) a where "af_take_next_packet now nxt g = Inr (a, g)" "\<And>k q. a \<noteq> XPacket k q"
  | (config) q k where "fg_config g = CReady q k"
      "af_take_next_packet now nxt g = Inr (XPacket k q, g\<lparr>fg_config := CSent\<rparr>)"
  | (frame) d ds where "fg_config g = CSent" "fg_datagrams g = d # ds"
      "af_take_next_packet now nxt g = Inr (XPacket (ap_seq d) (ap_packet d), af_drop_expired (ap_seq d) (g\<lparr>fg_datagrams := ds\<rparr>))"
proof (cases "af_next_packet now nxt g")
  case XNone
  then show thesis by (intro idle [of XIdle]) (simp_all add: af_take_next_packet_def)
next
  case (XDeadline t)
  then show thesis by (intro idle [of "XWait t"]) (simp_all add: af_take_next_packet_def)
next
  case (XReady x)
  note r = audio_choose_ready [OF this [unfolded af_next_packet_def]]
  show thesis
  proof (cases x)
    case True
    with r obtain q k where "fg_config g = CReady q k" by (cases "fg_config g") auto
    with XReady True show thesis by (intro config) (simp_all add: af_take_next_packet_def)
  next
    case False
    with r have "fg_config g = CSent" by (cases "fg_config g") auto
    moreover obtain d ds where "fg_datagrams g = d # ds" using r False by (cases "fg_datagrams g") auto
    ultimately show thesis using XReady False by (intro frame) (simp_all add: af_take_next_packet_def)
  qed
qed

lemma sum_list_drop_le: "sum_list (map f (drop i xs)) \<le> (sum_list (map f xs) :: nat)"
  by (metis append_take_drop_id le_add2 map_append sum_list_append)

lemma af_drop_expired_inv:
  assumes "af_group_inv rq good g"
  shows "af_group_inv rq good (af_drop_expired k g)"
proof -
  define i where "i = (case binary_search_by_key ag_seq k (fg_segments g) of Inr i \<Rightarrow> i | Inl i \<Rightarrow> i)"
  have d: "af_drop_expired k g = g\<lparr>fg_segments := drop i (fg_segments g)\<rparr>" by (simp add: af_drop_expired_def i_def)
  have s: "set (drop i (fg_segments g)) \<subseteq> set (fg_segments g)" by (rule set_drop_subset)
  have "ap_seq ` set (fg_datagrams g) \<inter> ag_seq ` set (drop i (fg_segments g)) = {}"
    using assms s unfolding af_group_inv_def by blast
  moreover have "sorted_key ag_seq (drop i (fg_segments g))" using assms sorted_key_drop by (auto simp: af_group_inv_def)
  moreover have "fst (af_usage (af_drop_expired k g)) \<le> fst (af_usage g)" "snd (af_usage (af_drop_expired k g)) \<le> snd (af_usage g)"
    using sum_list_drop_le [of "\<lambda>s. reservation (od_oti (ag_decoder s))" i "fg_segments g"]
    by (simp_all add: d af_usage_config)
  ultimately show ?thesis using assms s unfolding af_group_inv_def d by auto
qed

lemma af_take_inv:
  assumes "af_group_inv rq good g" "af_take_next_packet now nxt g = Inr (a, g')"
  shows "af_group_inv rq good g'"
proof (cases now nxt g rule: af_take_cases)
  case (idle a)
  with assms show ?thesis by simp
next
  case (config q k)
  then have "g' = g\<lparr>fg_config := CSent\<rparr>" using assms(2) by simp
  moreover have "fst (af_usage (g\<lparr>fg_config := CSent\<rparr>)) \<le> fst (af_usage g)" "snd (af_usage (g\<lparr>fg_config := CSent\<rparr>)) \<le> snd (af_usage g)"
    by (simp_all add: af_usage_config)
  ultimately show ?thesis using assms(1) unfolding af_group_inv_def by auto
next
  case (frame d ds)
  let ?g = "g\<lparr>fg_datagrams := ds\<rparr>"
  have "fst (af_usage ?g) \<le> fst (af_usage g)" "snd (af_usage ?g) \<le> snd (af_usage g)"
    by (simp_all add: af_usage_config frame(2))
  then have "af_group_inv rq good ?g" using assms(1) frame(2) unfolding af_group_inv_def by auto
  from af_drop_expired_inv [OF this] frame(3) assms(2) show ?thesis by simp
qed

section \<open>Steps\<close>

definition af_sinv :: "'d raptorq \<Rightarrow> (oti \<Rightarrow> 'd \<Rightarrow> bool) \<Rightarrow> 'd af_state \<Rightarrow> bool" where
  "af_sinv rq good s \<longleftrightarrow> decoder_ok rq good \<and> af_group_inv rq good (af_pending s)"

text \<open>The drain stops, fails for want of a codec, or takes a packet and goes on.\<close>

lemma af_drain_cases:
  obtains (stops) a dl where "af_take_next_packet (ts i) (af_next s) (af_pending s) = Inr (a, af_pending s)"
      "\<And>k q. a \<noteq> XPacket k q" "af_drain ts i s = ([], Running (s\<lparr>af_deadline := dl\<rparr>))"
      "dl = (case a of XWait t \<Rightarrow> Some t | _ \<Rightarrow> None)"
  | (unsized) k q g where "af_take_next_packet (ts i) (af_next s) (af_pending s) = Inr (XPacket k q, g)"
      "af_frame_size s = None" "af_drain ts i s = ([], Failed (invalid ''audio before codec''))"
  | (takes) k q g fs os r where "af_take_next_packet (ts i) (af_next s) (af_pending s) = Inr (XPacket k q, g)"
      "af_frame_size s = Some fs" "af_drain ts (Suc i) (af_account k g s) = (os, r)"
      "af_drain ts i s = (af_holes (af_next s) k fs @ (Some k, q) # os, r)"
proof -
  note unfold = af_drain.simps [of ts i s]
  have took: thesis if t: "af_take_next_packet (ts i) (af_next s) (af_pending s) = Inr (XPacket k q, g)" for k q g
  proof (cases "af_frame_size s")
    case None
    with t show thesis by (intro unsized) (simp_all add: unfold)
  next
    case (Some fs)
    obtain os r where "af_drain ts (Suc i) (af_account k g s) = (os, r)" by (cases "af_drain ts (Suc i) (af_account k g s)")
    with t Some show thesis by (intro takes) (simp_all add: unfold)
  qed
  show thesis
  proof (cases "ts i" "af_next s" "af_pending s" rule: af_take_cases)
    case (idle a)
    then have "af_drain ts i s = ([], Running (s\<lparr>af_deadline := (case a of XWait t \<Rightarrow> Some t | _ \<Rightarrow> None)\<rparr>))"
      by (cases a) (auto simp: unfold)
    with idle show thesis by (intro stops) auto
  qed (use took in blast)+
qed

lemma af_drain_inv:
  assumes "af_sinv rq good s" "af_drain ts i s = (os, st)"
  shows "(\<forall>s'. st = Running s' \<longrightarrow> af_sinv rq good s') \<and> (\<forall>f. st = Failed f \<longrightarrow> \<not> panics f)"
  using assms
proof (induction "af_ready (af_pending s)" arbitrary: i s os rule: less_induct)
  case less
  show ?case
  proof (cases rule: af_drain_cases [of ts i s])
    case (stops a dl)
    with less.prems show ?thesis by (auto simp: af_sinv_def)
  next
    case (unsized k q g)
    with less.prems show ?thesis by (auto simp: invalid_def)
  next
    case (takes k q g fs os1 r)
    have "af_ready (af_pending (af_account k g s)) < af_ready (af_pending s)"
      using af_take_decreases [OF takes(1)] by (simp add: af_account_def)
    moreover have "af_sinv rq good (af_account k g s)"
      using less.prems(1) af_take_inv [OF _ takes(1)] by (simp add: af_sinv_def af_account_def)
    moreover have "st = r" using less.prems(2) takes(4) by simp
    ultimately show ?thesis using less.hyps takes(3) by blast
  qed
qed

lemma af_step_stream:
  assumes "\<forall>h. packet \<noteq> Codec h" "seq_u32 (af_kseq s) raw = (k, kq)"
  shows "af_step rq (ts, Msg (FStream packet raw)) s =
     (if af_next s \<le> k then case af_insert_stream_packet k packet (af_pending s) of
        Inl e \<Rightarrow> ([], Failed e) | Inr g \<Rightarrow> af_drain ts 1 (s\<lparr>af_kseq := kq, af_pending := g\<rparr>)
      else af_drain ts 1 (s\<lparr>af_kseq := kq\<rparr>))"
  using assms by (cases packet) (simp_all add: af_step_def Let_def)

lemma af_step_datagram:
  assumes "seq_u32 (af_kseq s) raw = (k, kq)"
  shows "af_step rq (ts, Msg (FDatagram data raw oti pid)) s =
     (if k < af_next s then ([], Running (s\<lparr>af_kseq := kq\<rparr>))
      else case af_insert_datagram rq (ts 0) k oti pid data (af_pending s) of
        Inl e \<Rightarrow> ([], Failed e) | Inr g \<Rightarrow> af_drain ts 1 (s\<lparr>af_kseq := kq, af_pending := g\<rparr>))"
  using assms by (simp add: af_step_def Let_def)

lemma af_step_safe:
  assumes "af_sinv rq good s" "errors_are_errors ev s" "af_step rq ev s = (os, st)"
  shows "(\<forall>s'. st = Running s' \<longrightarrow> af_sinv rq good s') \<and> (\<forall>f. st = Failed f \<longrightarrow> \<not> panics f)"
proof -
  have ok: "decoder_ok rq good" "af_group_inv rq good (af_pending s)" using assms(1) by (auto simp: af_sinv_def)
  obtain ts w where ev: "ev = (ts, w)" by (cases ev)
  have d: ?thesis if "af_sinv rq good s1" "af_drain ts 1 s1 = (os, st)" for s1 using af_drain_inv [OF that] .
  show ?thesis
  proof (cases w)
    case (Msg m)
    show ?thesis
    proof (cases m)
      case (FStream packet raw)
      obtain k kq where q: "seq_u32 (af_kseq s) raw = (k, kq)" by (cases "seq_u32 (af_kseq s) raw")
      show ?thesis
      proof (cases "\<exists>h. packet = Codec h")
        case True
        with assms(1,3) ev Msg FStream show ?thesis by (auto simp: af_step_def af_sinv_def invalid_def split: if_splits)
      next
        case False
        then have "\<forall>h. packet \<noteq> Codec h" by blast
        note e = assms(3) [unfolded ev Msg FStream af_step_stream [OF this q]]
        show ?thesis
        proof (cases "af_insert_stream_packet k packet (af_pending s)")
          case (Inl f)
          with e af_insert_stream_no_panic [of k packet "af_pending s"] d [of "s\<lparr>af_kseq := kq\<rparr>"] assms(1) show ?thesis
            by (auto simp: af_sinv_def split: if_splits)
        next
          case (Inr g)
          with af_insert_stream_inv [OF ok(2)] have "af_group_inv rq good g" by blast
          with Inr e d [of "s\<lparr>af_kseq := kq\<rparr>"] d [of "s\<lparr>af_kseq := kq, af_pending := g\<rparr>"] assms(1) show ?thesis
            by (auto simp: af_sinv_def split: if_splits)
        qed
      qed
    next
      case (FDatagram data raw oti pid)
      obtain k kq where q: "seq_u32 (af_kseq s) raw = (k, kq)" by (cases "seq_u32 (af_kseq s) raw")
      note e = assms(3) [unfolded ev Msg FDatagram af_step_datagram [OF q]]
      show ?thesis
      proof (cases "af_insert_datagram rq (ts 0) k oti pid data (af_pending s)")
        case (Inl f)
        with assms(1) e af_insert_no_panic [OF ok, of "ts 0" k oti pid data] show ?thesis
          by (auto simp: af_sinv_def split: if_splits)
      next
        case (Inr g)
        with af_insert_inv [OF ok] have "af_group_inv rq good g" by blast
        with Inr assms(1) e d [of "s\<lparr>af_kseq := kq, af_pending := g\<rparr>"] show ?thesis
          by (auto simp: af_sinv_def split: if_splits)
      qed
    qed
  next
    case Timer
    with assms(1,3) ev d [of s] show ?thesis by (auto simp: af_step_def split: option.splits if_splits)
  qed (use assms ev in \<open>auto simp: af_step_def errors_are_errors_def\<close>)
qed

interpretation af: receiver "af_step rq" "af_sinv rq good" errors_are_errors for rq good
proof (standard, goal_cases)
  case (1 s e os s')
  then show ?case using af_step_safe [OF 1] by blast
next
  case (2 s e os f)
  then show ?case using af_step_safe [OF 2] by blast
qed

end
