(* ===== verification/AudioFec_Props.thy ===== *)
theory AudioFec_Props
  imports AudioFec_Inv Audio_Session VideoFec_Live
begin

text \<open>
  The FEC audio receiver: safety against arbitrary peers, and the contract of an audio receiver
  for the messages of a sender.
\<close>

section \<open>Arbitrary peers\<close>

lemma af_parse_no_panic: "\<not> is_panic (af_parse rq dg)"
  by (auto simp: af_parse_def af_DATAGRAM_HEADER_SIZE_def parse_datagram_def Let_def is_panic_and_then invalid_def)

lemma af_recv_datagrams_no_panic:
  assumes "list_all (\<lambda>d. \<not> is_panic d) dgs" "r \<in> set (af_recv_datagrams rq dgs)"
  shows "\<not> is_panic r"
  using assms
proof (induction dgs)
  case (Cons dg dgs)
  have np: "\<not> is_panic (and_then (map_err protocol_error_new dg) (af_parse rq))"
    using Cons.prems(1) af_parse_no_panic by (auto simp: is_panic_and_then)
  with Cons show ?case
    by (cases "and_then (map_err protocol_error_new dg) (af_parse rq)") auto
qed simp

lemma af_recv_stream_no_panic:
  assumes "x \<in> set (af_recv_stream_packets r)"
  shows "\<not> is_panic x"
  using assms
proof (induction r rule: af_recv_stream_packets.induct)
  case (1 r)
  have np: "\<not> is_panic (af_read_stream_msg r)"
    using read_stream_packet_no_panic by (auto simp: af_read_stream_msg_def is_panic_and_then)
  show ?case
  proof (cases "af_read_stream_msg r")
    case (Inl e)
    with "1.prems" np show ?thesis by (subst (asm) af_recv_stream_packets.simps) auto
  next
    case (Inr y)
    with "1.prems" have "x = Inr (fst y) \<or> x \<in> set (af_recv_stream_packets (snd y))"
      by (subst (asm) af_recv_stream_packets.simps) (auto split: prod.splits)
    with "1.IH" [OF Inr, of "fst y" "snd y"] show ?thesis by auto
  qed
qed

text \<open>
  C30: Whatever bytes a peer sends on the stream and in datagrams, in whatever order they reach
  the processing loop and whenever its timer fires, the FEC audio receiver never panics (it may
  end with an error), and at every moment it holds at most 128 objects, for which it reserved at
  most 8 MiB.
\<close>

theorem af_receiver_safe:
  assumes "decoder_ok rq good" "list_all (\<lambda>d. \<not> is_panic d) dgs"
    and "\<forall>ev \<in> set es. delivered (set (af_recv_datagrams rq dgs) \<union> set (af_recv_stream_packets stream)) (snd ev)"
    and "run (af_step rq) es af_init = (os, st)"
  shows "(\<forall>f. st = Failed f \<longrightarrow> \<not> panics f)
       \<and> (\<forall>s. st = Running s \<longrightarrow> fst (af_usage (af_pending s)) \<le> 128
            \<and> snd (af_usage (af_pending s)) \<le> 8 * 1024 * 1024)"
proof -
  have i: "af_sinv rq good af_init"
    using assms(1) af_group_new_inv by (simp add: af_sinv_def af_init_def)
  have "\<forall>r \<in> set (af_recv_datagrams rq dgs) \<union> set (af_recv_stream_packets stream). \<not> is_panic r"
    using af_recv_datagrams_no_panic [OF assms(2)] af_recv_stream_no_panic by blast
  note ok = delivered_no_panic [OF assms(3) this, of "af_step rq" af_init]
  have "af_sinv rq good s" if "st = Running s" for s
    using af.run_inv [OF i ok] assms(4) that by blast
  moreover have "\<not> panics f" if "st = Failed f" for f
    using af.run_no_panic [OF i ok] assms(4) that by blast
  ultimately show ?thesis unfolding af_sinv_def af_group_inv_def by blast
qed

section \<open>Messages of a sender\<close>

text \<open>
  Everything pending is genuine: \<open>pk k\<close> is packet \<open>k\<close> and \<open>ob k\<close> the object its datagrams carry;
  nothing completed is below \<open>lo\<close>.
\<close>

definition af_content ::
  "(bytes \<Rightarrow> oti \<Rightarrow> 'd \<Rightarrow> bool) \<Rightarrow> (u64 \<Rightarrow> av_packet) \<Rightarrow> (u64 \<Rightarrow> bytes) \<Rightarrow> u64 \<Rightarrow> 'd af_group \<Rightarrow> bool" where
  "af_content fed pk ob lo g \<longleftrightarrow>
     (\<forall>d \<in> set (fg_datagrams g). audio_frame (ap_seq d) \<and> lo \<le> ap_seq d \<and> ap_packet d = pk (ap_seq d))
     \<and> (\<forall>s \<in> set (fg_segments g). fed (ob (ag_seq s)) (od_oti (ag_decoder s)) (od_decoder (ag_decoder s)))
     \<and> (\<forall>q k. fg_config g = CReady q k \<longrightarrow> q = pk k)"

lemma af_insert_content:
  assumes "decoder_ok rq good" "af_group_inv rq good g" "codec_faithful rq symb fed" "af_content fed pk ob lo g"
    and "af_insert_datagram rq now k oti pid data g = Inr g'"
    and "symb (ob k) oti pid data" "\<forall>q. media_packet (ob k) = Inr q \<longrightarrow> q = pk k" "audio_frame k" "lo \<le> k"
  shows "af_content fed pk ob lo g'"
proof -
  have c: "\<forall>s \<in> set (fg_segments g). fed (ob (ag_seq s)) (od_oti (ag_decoder s)) (od_decoder (ag_decoder s))"
    using assms(4) by (simp add: af_content_def)
  have fed: "fed (ob k) (od_oti od) (od_decoder od)"
    if "af_decoder_for rq k oti g old od" "set old \<subseteq> set (fg_segments g)" for old od
    using that c object_decoder_new_fed [OF assms(3)] unfolding af_decoder_for_def by auto
  from assms(1,2,5) show ?thesis
  proof (cases rule: af_insert_cases)
    case known
    with assms(4) show ?thesis by simp
  next
    case (symbol ys old zs s od)
    have "fed (ob k) (od_oti od) (od_decoder od)" by (rule fed [OF symbol(3)]) (auto simp: symbol(2))
    from object_decode_faithful [OF assms(3) this assms(6) symbol(11)] assms(4) symbol show ?thesis
      by (auto simp: af_content_def)
  next
    case (complete ys old zs as d bs od od' bytes)
    have "fed (ob k) (od_oti od) (od_decoder od)" by (rule fed [OF complete(2)]) (auto simp: complete(1))
    from object_decode_faithful [OF assms(3) this assms(6) complete(11)] have "bytes = ob k" by blast
    then have "ap_packet d = pk k" using assms(7) complete(12) by blast
    with assms(4,8,9) complete show ?thesis by (auto simp: af_content_def)
  qed
qed

definition af_inv ::
  "'d raptorq \<Rightarrow> (oti \<Rightarrow> 'd \<Rightarrow> bool) \<Rightarrow> (bytes \<Rightarrow> oti \<Rightarrow> payload_id \<Rightarrow> bytes \<Rightarrow> bool) \<Rightarrow> (bytes \<Rightarrow> oti \<Rightarrow> 'd \<Rightarrow> bool)
     \<Rightarrow> (u64 \<Rightarrow> av_packet) \<Rightarrow> (u64 \<Rightarrow> bytes) \<Rightarrow> 'd af_state \<Rightarrow> bool" where
  "af_inv rq good symb fed pk ob s \<longleftrightarrow>
     af_sinv rq good s \<and> codec_faithful rq symb fed \<and> (\<forall>k q. media_packet (ob k) = Inr q \<longrightarrow> q = pk k)
     \<and> (\<forall>h. pk 0 \<noteq> Codec h) \<and> af_content fed pk ob (af_next s) (af_pending s) \<and> small (newest_seq (af_kseq s))
     \<and> au_phase (fg_config (af_pending s)) (af_next s) (af_frame_size s)"

definition af_cinv where
  "af_cinv rq good symb fed pk ob s \<longleftrightarrow> af_inv rq good symb fed pk ob s \<and> \<not> config_is_ready (fg_config (af_pending s))"

definition af_view :: "'d af_state \<Rightarrow> u16 option \<times> u64" where
  "af_view s = (af_frame_size s, af_next s)"

text \<open>Taking a packet keeps the invariant.\<close>

lemma af_take_keeps:
  assumes "af_inv rq good symb fed pk ob s" "af_take_next_packet now (af_next s) (af_pending s) = Inr (XPacket k q, g)"
  shows "q = pk k \<and> af_next s \<le> k \<and> small k \<and> af_frame_size s \<noteq> None \<and> af_inv rq good symb fed pk ob (af_account k g s)"
proof -
  have i: "af_sinv rq good s" "af_content fed pk ob (af_next s) (af_pending s)"
    "au_phase (fg_config (af_pending s)) (af_next s) (af_frame_size s)" using assms(1) by (simp_all add: af_inv_def)
  then have g: "af_sinv rq good (af_account k g s)"
    using af_take_inv [OF _ assms(2)] by (simp add: af_sinv_def af_account_def)
  have so: "sorted_key ap_seq (fg_datagrams (af_pending s))" using i(1) by (simp add: af_sinv_def af_group_inv_def)
  have "q = pk k \<and> af_next s \<le> k \<and> small k \<and> af_frame_size s \<noteq> None \<and> fg_config g = CSent \<and> af_content fed pk ob (k + 1) g"
  proof (cases now "af_next s" "af_pending s" rule: af_take_cases)
    case (idle a)
    with assms(2) show ?thesis by auto
  next
    case (config q' k')
    with assms(2) i(3) have k: "k = 0" "af_next s = 0" "af_frame_size s \<noteq> None" "fg_config (af_pending s) = CReady q k"
      "g = (af_pending s)\<lparr>fg_config := CSent\<rparr>" by auto
    have "k + 1 \<le> ap_seq d" if "d \<in> set (fg_datagrams (af_pending s))" for d
      using i(2) that k(1) by (intro word_plus1_le) (auto simp: af_content_def audio_frame_def word_neq_0_conv)
    with i(2) have "af_content fed pk ob (k + 1) g" unfolding af_content_def k(5) by simp
    moreover have "q = pk k" using i(2) k(4) by (simp add: af_content_def)
    ultimately show ?thesis using k by (simp add: small_def)
  next
    case (frame d ds)
    with assms(2) have k: "k = ap_seq d" "q = ap_packet d" "g = af_drop_expired k ((af_pending s)\<lparr>fg_datagrams := ds\<rparr>)" by auto
    have d: "audio_frame k" "af_next s \<le> k" "q = pk k" using i(2) frame(2) k by (auto simp: af_content_def)
    have "k + 1 \<le> ap_seq y" if "y \<in> set ds" for y using so frame(2) that k(1) by (intro word_plus1_le) simp
    with i(2) frame(2) have "af_content fed pk ob (k + 1) g"
      unfolding k(3) af_drop_expired_def Let_def af_content_def by (auto dest: in_set_dropD)
    moreover have "fg_config g = CSent" using frame(1) k(3) by (simp add: af_drop_expired_def Let_def)
    ultimately show ?thesis using d i(3) frame(1) by (simp add: audio_frame_def)
  qed
  moreover from this have "k + 1 \<noteq> 0" using small_not_max by (metis add_eq_0_iff2)
  ultimately show ?thesis using assms(1) g by (auto simp: af_inv_def af_account_def)
qed

lemma af_drain_keeps:
  assumes "af_inv rq good symb fed pk ob s"
  shows "audio_keeps pk (af_cinv rq good symb fed pk ob) af_view (af_view s) (af_drain ts i s)"
  using assms
proof (induction "af_ready (af_pending s)" arbitrary: i s rule: less_induct)
  case less
  show ?case
  proof (cases rule: af_drain_cases [of ts i s])
    case (stops a dl)
    have "\<not> config_is_ready (fg_config (af_pending s))"
    proof
      assume "config_is_ready (fg_config (af_pending s))"
      with less.prems obtain q where "fg_config (af_pending s) = CReady q (af_next s)"
        by (cases "fg_config (af_pending s)") (auto simp: af_inv_def)
      with stops(1,2) show False by (auto simp: af_take_next_packet_def af_next_packet_def audio_choose_config)
    qed
    with less.prems have "af_cinv rq good symb fed pk ob (s\<lparr>af_deadline := dl\<rparr>)" by (simp add: af_cinv_def af_inv_def af_sinv_def)
    then show ?thesis unfolding stops(3) by (rule audio_keeps_idle) (simp add: af_view_def)
  next
    case (unsized k q g)
    then show ?thesis by (simp add: audio_keeps_stop invalid_def)
  next
    case (takes k q g fs os r)
    note t = af_take_keeps [OF less.prems takes(1)]
    have "af_ready (af_pending (af_account k g s)) < af_ready (af_pending s)"
      using af_take_decreases [OF takes(1)] by (simp add: af_account_def)
    from less.hyps [OF this, of "Suc i"] t
    have rest: "audio_keeps pk (af_cinv rq good symb fed pk ob) af_view (Some fs, k + 1) (os, r)"
      using takes(2,3) by (simp add: af_view_def af_account_def)
    have acc: "audio_accepts (fst (af_view s), snd (af_view s), None) (af_holes (af_next s) k fs @ [(Some k, q)]) = Some (Some fs, k + 1, None)"
      unfolding af_view_def fst_conv snd_conv takes(2) af_holes_def
      using t small_not_max af_hole_samples by (intro audio_packet_accepted) blast+
    have gen: "\<forall>x \<in> set (af_holes (af_next s) k fs @ [(Some k, q)]). genuine pk x" using t by (auto simp: af_holes_def genuine_def)
    from audio_keeps_append [OF acc rest gen] takes(4) show ?thesis by simp
  qed
qed

fun af_from_sender ::
  "(bytes \<Rightarrow> oti \<Rightarrow> payload_id \<Rightarrow> bytes \<Rightarrow> bool) \<Rightarrow> (u64 \<Rightarrow> av_packet) \<Rightarrow> (u64 \<Rightarrow> bytes) \<Rightarrow> af_msg event \<Rightarrow> 'd af_state \<Rightarrow> bool" where
  "af_from_sender symb pk ob (ts, Msg (FStream packet raw)) s \<longleftrightarrow>
     (\<exists>h. packet = Codec h \<and> frame_size h > 0) \<or> packet = pk 0 \<and> raw = 0 \<and> af_frame_size s \<noteq> None"
| "af_from_sender symb pk ob (ts, Msg (FDatagram data raw oti pid)) s \<longleftrightarrow>
     (\<exists>k. audio_frame k \<and> unat raw = unat k \<and> symb (ob k) oti pid data)"
| "af_from_sender symb pk ob (ts, MsgErr e) s \<longleftrightarrow> \<not> panics e"
| "af_from_sender symb pk ob ev s \<longleftrightarrow> True"

lemma af_unrolled:
  assumes "af_inv rq good symb fed pk ob s" "small k" "unat raw = unat k"
  shows "\<exists>kq. seq_u32 (af_kseq s) raw = (k, kq) \<and> small (newest_seq kq)"
proof -
  have n: "small (newest_seq (af_kseq s))" using assms(1) by (simp add: af_inv_def)
  then have "unat (newest_seq (af_kseq s)) < 2 ^ 63" by (simp add: small_def)
  with numbered_unroll [OF small_numbered [OF assms(2) n assms(3)]] small_newest [OF assms(2) n assms(3)]
  show ?thesis by (cases "seq_u32 (af_kseq s) raw") simp
qed

lemma af_step_datagram_keeps:
  assumes "af_cinv rq good symb fed pk ob s" "af_from_sender symb pk ob (ts, Msg (FDatagram data raw oti pid)) s"
  shows "audio_keeps pk (af_cinv rq good symb fed pk ob) af_view (af_view s) (af_step rq (ts, Msg (FDatagram data raw oti pid)) s)"
proof -
  obtain k where k: "audio_frame k" "unat raw = unat k" "symb (ob k) oti pid data" using assms(2) by auto
  have i: "af_inv rq good symb fed pk ob s" using assms(1) by (simp add: af_cinv_def)
  obtain kq where q: "seq_u32 (af_kseq s) raw = (k, kq)" "small (newest_seq kq)"
    using af_unrolled [OF i _ k(2)] k(1) by (auto simp: audio_frame_def)
  have ok: "decoder_ok rq good" "af_group_inv rq good (af_pending s)" "codec_faithful rq symb fed"
    "af_content fed pk ob (af_next s) (af_pending s)" "\<forall>q. media_packet (ob k) = Inr q \<longrightarrow> q = pk k"
    using i by (simp_all add: af_inv_def af_sinv_def)
  show ?thesis
  proof (cases "k < af_next s")
    case True
    have "af_cinv rq good symb fed pk ob (s\<lparr>af_kseq := kq\<rparr>)" using assms(1) q(2) by (simp add: af_cinv_def af_inv_def af_sinv_def)
    then have "audio_keeps pk (af_cinv rq good symb fed pk ob) af_view (af_view s) ([], Running (s\<lparr>af_kseq := kq\<rparr>))"
      by (rule audio_keeps_idle) (simp add: af_view_def)
    with True show ?thesis by (simp add: af_step_datagram [OF q(1)])
  next
    case False
    show ?thesis
    proof (cases "af_insert_datagram rq (ts 0) k oti pid data (af_pending s)")
      case (Inl f)
      with af_insert_no_panic [OF ok(1,2), of "ts 0" k oti pid data] False show ?thesis
        by (simp add: af_step_datagram [OF q(1)] audio_keeps_stop)
    next
      case (Inr g)
      let ?s = "s\<lparr>af_kseq := kq, af_pending := g\<rparr>"
      have "af_inv rq good symb fed pk ob ?s"
        using i q(2) af_insert_inv [OF ok(1,2) Inr] af_insert_content [OF ok(1-4) Inr k(3) ok(5) k(1)] False
        by (simp add: af_inv_def af_sinv_def not_less)
      from af_drain_keeps [OF this, of ts 1] Inr False show ?thesis by (simp add: af_step_datagram [OF q(1)] af_view_def)
    qed
  qed
qed

lemma af_step_config_keeps:
  assumes "af_cinv rq good symb fed pk ob s" "af_frame_size s \<noteq> None"
  shows "audio_keeps pk (af_cinv rq good symb fed pk ob) af_view (af_view s) (af_step rq (ts, Msg (FStream (pk 0) 0)) s)"
proof -
  have i: "af_inv rq good symb fed pk ob s" using assms(1) by (simp add: af_cinv_def)
  obtain kq where q: "seq_u32 (af_kseq s) 0 = (0, kq)" "small (newest_seq kq)"
    using af_unrolled [OF i, of 0 0] by (auto simp: small_def)
  have "\<forall>h. pk 0 \<noteq> Codec h" using i by (simp add: af_inv_def)
  note step = af_step_stream [OF this q(1), of rq ts]
  show ?thesis
  proof (cases "af_next s = 0")
    case False
    have "af_inv rq good symb fed pk ob (s\<lparr>af_kseq := kq\<rparr>)" using i q(2) by (simp add: af_inv_def af_sinv_def)
    from af_drain_keeps [OF this, of ts 1] False show ?thesis by (simp add: step af_view_def word_le_0_iff)
  next
    case True
    show ?thesis
    proof (cases "af_insert_stream_packet 0 (pk 0) (af_pending s)")
      case (Inl f)
      with af_insert_stream_no_panic [of 0 "pk 0" "af_pending s"] True show ?thesis by (simp add: step audio_keeps_stop)
    next
      case (Inr g)
      have g: "af_group_inv rq good g" "g = (af_pending s)\<lparr>fg_config := CReady (pk 0) 0\<rparr>"
        using af_insert_stream_inv [OF _ Inr] i by (auto simp: af_inv_def af_sinv_def)
      have "af_inv rq good symb fed pk ob (s\<lparr>af_kseq := kq, af_pending := g\<rparr>)"
        using i q(2) g True assms(2) by (simp add: af_inv_def af_sinv_def af_content_def)
      from af_drain_keeps [OF this, of ts 1] Inr True show ?thesis by (simp add: step af_view_def)
    qed
  qed
qed

lemma af_step_keeps:
  assumes "af_cinv rq good symb fed pk ob s" "af_from_sender symb pk ob ev s"
  shows "audio_keeps pk (af_cinv rq good symb fed pk ob) af_view (af_view s) (af_step rq ev s)"
proof -
  obtain ts w where ev: "ev = (ts, w)" by (cases ev)
  have idle: "audio_keeps pk (af_cinv rq good symb fed pk ob) af_view (af_view s) ([], Running s)"
    using assms(1) by (rule audio_keeps_idle) simp
  have i: "af_inv rq good symb fed pk ob s" using assms(1) by (simp add: af_cinv_def)
  show ?thesis
  proof (cases w)
    case (Msg m)
    show ?thesis
    proof (cases m)
      case (FStream packet raw)
      show ?thesis
      proof (cases "\<exists>h. packet = Codec h \<and> frame_size h > 0")
        case True
        then obtain h where h: "packet = Codec h" "frame_size h > 0" by blast
        have "af_cinv rq good symb fed pk ob (s\<lparr>af_frame_size := Some (frame_size h)\<rparr>)"
          using assms(1) by (auto simp: af_cinv_def af_inv_def af_sinv_def intro: au_phase_resized)
        then have "audio_keeps pk (af_cinv rq good symb fed pk ob) af_view (af_view s)
            ([(None, packet)], Running (s\<lparr>af_frame_size := Some (frame_size h)\<rparr>))"
          unfolding h(1) by (rule audio_keeps_codec) (simp_all add: af_view_def h(2))
        with h ev Msg FStream show ?thesis by (auto simp: af_step_def)
      next
        case False
        with assms(2) ev Msg FStream have "packet = pk 0" "raw = 0" "af_frame_size s \<noteq> None" by auto
        with af_step_config_keeps [OF assms(1), of ts] ev Msg FStream show ?thesis by simp
      qed
    qed (use af_step_datagram_keeps [OF assms(1)] assms(2) ev Msg in simp)
  next
    case Timer
    with idle af_drain_keeps [OF i] ev show ?thesis by (auto simp: af_step_def split: option.splits)
  qed (use idle ev assms(2) in \<open>simp_all add: af_step_def audio_keeps_stop\<close>)
qed

interpretation af_rcv: audio_receiver "af_step rq" "af_cinv rq good symb fed pk ob" "af_from_sender symb pk ob" af_view
  for rq good symb fed pk ob
proof (standard, goal_cases)
  case (1 s e os s')
  from audio_keepsD(3) [OF af_step_keeps [OF 1(1,2), unfolded 1(3)] refl] show ?case .
next
  case (2 s e os f)
  from audio_keepsD(2) [OF af_step_keeps [OF 2(1,2), unfolded 2(3)] refl] show ?case .
next
  case (3 s e os st)
  from audio_keepsD(4) [OF af_step_keeps [OF 3(1,2), unfolded 3(3)]] show ?case .
qed

interpretation af_emit: emitting_receiver "af_step rq" "af_cinv rq good symb fed pk ob" "af_from_sender symb pk ob" "genuine pk"
  for rq good symb fed pk ob
proof (standard, goal_cases)
  case (1 s e os st x)
  from audio_keepsD(1) [OF af_step_keeps [OF 1(1,2), unfolded 1(3)] 1(4)] show ?case .
qed

fun af_packet_of :: "af_msg event \<Rightarrow> av_packet option" where
  "af_packet_of (ts, Msg (FStream packet raw_k)) = Some packet"
| "af_packet_of ev = None"

interpretation af_str: audio_stream_receiver "af_step rq" "af_cinv rq good symb fed pk ob" "af_from_sender symb pk ob" af_view af_packet_of
  for rq good symb fed pk ob
proof (standard, goal_cases)
  case (1 s e os s' h)
  then show ?case by (cases e rule: af_packet_of.cases) (auto simp: af_step_def af_view_def split: if_splits)
qed

section \<open>Nothing waits forever\<close>

lemma af_drain_end:
  assumes "af_drain ts i s = (os, Running s')"
  shows "\<exists>j a. af_take_next_packet (ts j) (af_next s') (af_pending s') = Inr (a, af_pending s') \<and> (\<forall>k q. a \<noteq> XPacket k q)
     \<and> af_deadline s' = (case a of XWait t \<Rightarrow> Some t | _ \<Rightarrow> None)"
  using assms
proof (induction "af_ready (af_pending s)" arbitrary: i s os rule: less_induct)
  case less
  show ?case
  proof (cases rule: af_drain_cases [of ts i s])
    case (stops a dl)
    then have "s' = s\<lparr>af_deadline := dl\<rparr>" using less.prems by simp
    with stops show ?thesis by (intro exI [of _ i] exI [of _ a]) simp
  next
    case (takes k q g fs os1 r)
    have "af_ready (af_pending (af_account k g s)) < af_ready (af_pending s)"
      using af_take_decreases [OF takes(1)] by (simp add: af_account_def)
    with less.hyps takes(3,4) less.prems show ?thesis by simp
  qed (use less.prems in simp)
qed

lemma af_due_taken:
  assumes "fg_config g \<noteq> CNone" "fg_datagrams g = d # ds" "list_min (map ap_instant (d # ds)) = Some m" "m + af_MAX_BUFFERING \<le> now"
  shows "\<exists>k q g'. af_take_next_packet now nxt g = Inr (XPacket k q, g')"
proof -
  have "af_next_packet now nxt g = XReady (config_is_ready (fg_config g))"
    using assms by (cases "fg_config g") (simp_all add: af_next_packet_def audio_choose_def comp_def)
  then obtain x where x: "af_next_packet now nxt g = XReady x" by blast
  note r = audio_choose_ready [OF x [unfolded af_next_packet_def]]
  show ?thesis
  proof (cases "fg_config g")
    case (CReady q k)
    with r x show ?thesis by (cases x) (simp_all add: af_take_next_packet_def)
  next
    case CSent
    with r x assms(2) show ?thesis by (cases x) (simp_all add: af_take_next_packet_def)
  qed (use assms(1) in simp)
qed

text \<open>
  C32: Once the config and a codec have arrived, a completed packet does not wait for more traffic.
  (Before the config nothing can be forwarded and no timer is set; before the codec the size of a
  hole is not known.) When the FEC audio receiver has then
  forwarded what it can and a completed packet remains (behind a gap), its timer is set to fire
  at most 10 ms after that packet was completed, and when it fires, something is forwarded.
\<close>

theorem af_waits_at_most_10ms:
  assumes "af_drain ts i s = (os, Running s')" "fg_config (af_pending s') \<noteq> CNone"
    and "d \<in> set (fg_datagrams (af_pending s'))" "af_frame_size s' = Some fs"
  shows "\<exists>t. af_deadline s' = Some t \<and> t \<le> ap_instant d + 10000
     \<and> ((\<forall>j. t \<le> ts' j) \<longrightarrow> fst (af_step rq (ts', Timer) s') \<noteq> [])"
proof -
  let ?g = "af_pending s'"
  obtain d0 ds where ds: "fg_datagrams ?g = d0 # ds" using assms(3) by (cases "fg_datagrams ?g") auto
  obtain m where m: "list_min (map ap_instant (d0 # ds)) = Some m" "m \<le> ap_instant d"
    using list_min_le [of "ap_instant d" "map ap_instant (d0 # ds)"] assms(3) ds by auto
  obtain j a where a: "af_take_next_packet (ts j) (af_next s') ?g = Inr (a, ?g)" "\<forall>k q. a \<noteq> XPacket k q"
    "af_deadline s' = (case a of XWait t \<Rightarrow> Some t | _ \<Rightarrow> None)" using af_drain_end [OF assms(1)] by blast
  have "a = XWait (m + af_MAX_BUFFERING)"
    using a(1,2) m(1) assms(2) ds
    by (cases "fg_config ?g") (auto simp: af_take_next_packet_def af_next_packet_def audio_choose_def comp_def split: if_splits)
  then have t: "af_deadline s' = Some (m + 10000)" using a(3) by (simp add: af_MAX_BUFFERING_def)
  have "fst (af_step rq (ts', Timer) s') \<noteq> []" if late: "\<forall>j. m + 10000 \<le> ts' j"
  proof -
    obtain k q g' where k: "af_take_next_packet (ts' 1) (af_next s') ?g = Inr (XPacket k q, g')"
      using af_due_taken [OF assms(2) ds m(1), of "ts' 1" "af_next s'"] late by (auto simp: af_MAX_BUFFERING_def)
    have "fst (af_drain ts' 1 s') \<noteq> []"
      by (cases rule: af_drain_cases [of ts' 1 s']) (use k assms(4) in \<open>auto simp: af_holes_def\<close>)
    with t late show ?thesis by (simp add: af_step_def)
  qed
  with t m(2) show ?thesis by auto
qed

end
