(* ===== verification/AudioFec_End.thy ===== *)
theory AudioFec_End
  imports AudioFec_Props Audio_End
begin

text \<open>The FEC audio protocol from end to end.\<close>

section \<open>What the sender writes\<close>

definition af_sent_for :: "'d raptorq \<Rightarrow> u16 \<times> nat option \<Rightarrow> u32 \<times> av_packet \<Rightarrow> bytes \<Rightarrow> bool" where
  "af_sent_for rq e x dg \<longleftrightarrow>
     (\<exists>mtu n pid sym_bytes oti. oti = oti_with_defaults rq (of_nat (length (av_enc (snd x)))) mtu
        \<and> (pid, sym_bytes) \<in> set (encoded_packets rq (av_enc (snd x)) oti n)
        \<and> dg = put_u16 (fst e) @ put_u32 (fst x) @ oti_serialize rq oti @ payload_id_serialize rq pid @ sym_bytes)"

lemma af_send_datagrams_ok:
  assumes "af_send_datagrams rq h payload s = (Inr u, s')"
  shows "as_stream s' = as_stream s \<and> as_kypacket_seq s' = as_kypacket_seq s
       \<and> sc_limits (as_channel s') = sc_limits (as_channel s)
       \<and> (\<forall>dg \<in> set (sc_sent (as_channel s')). dg \<in> set (sc_sent (as_channel s)) \<or>
            af_sent_for rq (sc_limits (as_channel s)) (as_kypacket_seq s, Media h payload) dg)"
proof -
  let ?p = "Media h payload"
  obtain m where m: "sc_max_datagram (as_channel s) = Some m"
    using assms by (auto simp: af_send_datagrams_def split: option.splits)
  with assms have big: "af_DATAGRAM_HEADER_SIZE < m" "m < 0x10000"
    by (auto simp: af_send_datagrams_def assert_that_def split: if_splits)
  obtain hdr where hdr: "media_serialize h = Inr hdr"
    using assms m big by (cases "media_serialize h") (simp_all add: af_send_datagrams_def)
  define mtu where "mtu = (of_nat (m - af_DATAGRAM_HEADER_SIZE) :: u16)"
  let ?oti = "oti_with_defaults rq (of_nat (length (av_enc ?p))) mtu"
  define n where "n = repair_symbols (div_ceil (length (av_enc ?p)) (unat (symbol_size ?oti)))"
  define dgs where "dgs = map (af_datagram rq s ?oti) (encoded_packets rq (av_enc ?p) ?oti n)"
  have r: "s' = s\<lparr>as_channel := snd (send_datagram_list dgs (as_channel s))\<rparr>"
    using assms m big hdr by (auto simp: af_send_datagrams_def Let_def dgs_def n_def mtu_def apsnd_def map_prod_def
        split: if_splits prod.splits)
  obtain k where k: "sc_sent (as_channel s') = sc_sent (as_channel s) @ take k dgs"
    using send_datagram_list_prefix [of dgs "as_channel s"] r by auto
  have "af_sent_for rq (sc_limits (as_channel s)) (as_kypacket_seq s, ?p) dg" if d: "dg \<in> set dgs" for dg
  proof -
    obtain pid b where "(pid, b) \<in> set (encoded_packets rq (av_enc ?p) ?oti n)" "dg = af_datagram rq s ?oti (pid, b)"
      using d unfolding dgs_def by auto
    then show ?thesis unfolding af_sent_for_def snd_conv fst_conv
      by (intro exI [of _ mtu] exI [of _ n] exI [of _ pid] exI [of _ b] exI [of _ ?oti])
         (simp add: af_datagram_def write_datagram_header_def sc_limits_def)
  qed
  with k r send_datagram_list_limits [of dgs "as_channel s"] show ?thesis by (auto dest: in_set_takeD)
qed

interpretation af_snd: audio_datagram_sender "af_send_datagrams rq" "af_sent_for rq" for rq
  by standard (rule af_send_datagrams_ok)

section \<open>What the reader tasks make of it\<close>

lemma af_parse_sent:
  assumes "encoder_ok rq symb" "wire_ok rq" "length (av_enc p) < 2 ^ 40"
    and "af_sent_for rq e (a, p) dg" "af_parse rq dg = Inr m"
  shows "\<exists>oti pid data. m = FDatagram data a oti pid \<and> symb (av_enc p) oti pid data"
proof -
  obtain mtu n pid data oti where dg: "oti = oti_with_defaults rq (of_nat (length (av_enc p))) mtu"
    "(pid, data) \<in> set (encoded_packets rq (av_enc p) oti n)"
    "dg = put_u16 (fst e) @ put_u32 a @ oti_serialize rq oti @ payload_id_serialize rq pid @ data"
    using assms(4) by (auto simp: af_sent_for_def)
  have enc: "unat (transfer_length oti) = length (av_enc p)" "length (payload_id_serialize rq pid) = 4"
    "validate_oti oti MAX_VIDEO_PAYLOAD = Inr () \<Longrightarrow> unat (encoding_symbol_id pid) < 2 ^ 24 \<and> symb (av_enc p) oti pid data"
    using assms(1,3) dg(1,2) unfolding encoder_ok_def by blast+
  have len: "length (oti_serialize rq oti) = 12" "oti_deserialize rq (oti_serialize rq oti) = oti"
    using assms(2,3) enc(1) unfolding wire_ok_def by auto
  have parts: "take 4 (drop 2 dg) = put_u32 a"
    "take 12 (drop 6 dg) = oti_serialize rq oti" "take 4 (drop 18 dg) = payload_id_serialize rq pid"
    "drop 22 dg = data"
    using enc(2) len(1) by (simp_all add: dg(3))
  obtain d o' p' where pd: "parse_datagram rq dg 22 MAX_AUDIO_PAYLOAD = Inr (d, o', p')"
    "m = FDatagram d a o' p'"
    using assms(5) parts by (auto simp: af_parse_def af_DATAGRAM_HEADER_SIZE_def and_then_eq_Inr)
  then have v: "validate_oti oti MAX_AUDIO_PAYLOAD = Inr ()" "d = data" "o' = oti"
    "p' = payload_id_deserialize rq (payload_id_serialize rq pid)"
    using parts len by (auto simp: parse_datagram_def Let_def and_then_eq_Inr split: if_splits)
  have "validate_oti oti MAX_VIDEO_PAYLOAD = Inr ()" using v(1) by (simp add: validate_oti_iff fec_limits)
  note e = enc(3) [OF this]
  have "payload_id_deserialize rq (payload_id_serialize rq pid) = pid"
    using assms(2) e unfolding wire_ok_def by blast
  with v pd(2) e show ?thesis by blast
qed

definition af_record_msg :: "u32 \<times> av_packet \<Rightarrow> af_msg" where
  "af_record_msg r = FStream (snd r) (fst r)"

definition af_msgs :: "reader \<Rightarrow> af_msg list" where
  "af_msgs r = List.map_filter (\<lambda>x. case x of Inr m \<Rightarrow> Some m | Inl e \<Rightarrow> None) (af_recv_stream_packets r)"

lemma af_msgs_step:
  "af_msgs r = (case af_read_stream_msg r of Inl e \<Rightarrow> [] | Inr (m, r') \<Rightarrow> m # af_msgs r')"
  unfolding af_msgs_def by (subst af_recv_stream_packets.simps) (auto simp: List.map_filter_simps split: sum.splits)

lemma af_msgs_records:
  assumes "\<forall>x \<in> set rs. av_valid (snd x) \<and> (\<forall>h. snd x \<noteq> Hole h)" "rbuf r = concat (map audio_record_bytes rs)"
  shows "prefix (af_msgs r) (map af_record_msg rs)"
  using assms
proof (induction rs arbitrary: r)
  case Nil
  then have "read_exact 4 r = Inl (end_err ''early eof'' r)" by (simp add: read_exact_def)
  then show ?case by (subst af_msgs_step) (simp add: af_read_stream_msg_def)
next
  case (Cons x rs)
  obtain k p where x: "x = (k, p)" by (cases x)
  show ?case
  proof (cases "af_read_stream_msg r")
    case (Inl e)
    then show ?thesis by (subst af_msgs_step) simp
  next
    case (Inr y)
    obtain m r' where y: "y = (m, r')" by (cases y)
    have e: "read_exact 4 r = Inr (put_u32 k, r\<lparr>rbuf := av_enc p @ concat (map audio_record_bytes rs)\<rparr>)"
      by (rule read_exact_append) (use Cons.prems(2) x in \<open>simp_all add: audio_record_bytes_def [of "(k, p)"]\<close>)
    then obtain q where q: "read_stream_packet (r\<lparr>rbuf := av_enc p @ concat (map audio_record_bytes rs)\<rparr>) MAX_AUDIO_PAYLOAD = Inr (q, r')"
      "m = FStream q k" using Inr y by (auto simp: af_read_stream_msg_def and_then_eq_Inr)
    have "q = p \<and> rbuf r' = concat (map audio_record_bytes rs)"
      by (rule read_stream_enc [OF _ _ _ q(1)]) (use Cons.prems(1) x in simp_all)
    with Cons.IH [of r'] Cons.prems(1) q(2) x have "prefix (m # af_msgs r') (map af_record_msg (x # rs))"
      by (simp add: af_record_msg_def [of "(k, p)"])
    with Inr y show ?thesis by (subst af_msgs_step) simp
  qed
qed

lemma af_msgs_extend:
  assumes "rbuf q = rbuf r @ ext"
  shows "prefix (af_msgs r) (af_msgs q)"
  using assms
proof (induction r arbitrary: q rule: af_recv_stream_packets.induct)
  case (1 r)
  show ?case
  proof (cases "af_read_stream_msg r")
    case (Inl e)
    then show ?thesis by (subst (1) af_msgs_step) simp
  next
    case (Inr y)
    obtain m r' where y: "af_read_stream_msg r = Inr (m, r')" using Inr by (cases y) simp
    obtain seqs r1 where s1: "read_exact 4 r = Inr (seqs, r1)"
      using y by (cases "read_exact 4 r") (auto simp: af_read_stream_msg_def)
    with y obtain p where s2: "read_stream_packet r1 MAX_AUDIO_PAYLOAD = Inr (p, r')" "m = FStream p (get_u32 seqs)"
      by (cases "read_stream_packet r1 MAX_AUDIO_PAYLOAD") (auto simp: af_read_stream_msg_def)
    have "af_read_stream_msg q = Inr (m, q\<lparr>rbuf := rbuf r' @ ext\<rparr>)"
      using read_exact_extend [OF s1 "1.prems"] read_stream_extend [OF s2(1), of "q\<lparr>rbuf := rbuf r1 @ ext\<rparr>" ext] s2(2)
      by (simp add: af_read_stream_msg_def)
    moreover have "prefix (af_msgs r') (af_msgs (q\<lparr>rbuf := rbuf r' @ ext\<rparr>))" by (rule "1.IH" [OF y refl]) simp
    ultimately show ?thesis using y by (subst (1 2) af_msgs_step) simp
  qed
qed

section \<open>End to end\<close>

fun af_stream_of :: "af_msg event \<Rightarrow> af_msg option" where
  "af_stream_of (ts, Msg (FStream packet raw_k)) = Some (FStream packet raw_k)"
| "af_stream_of ev = None"

text \<open>
  What the events may be: of the stream any part from its start, in its order; of the datagrams
  any, in any order and number; any error that is not a panic.
\<close>

definition af_arrives :: "'d raptorq \<Rightarrow> bytes \<Rightarrow> bytes list \<Rightarrow> af_msg event list \<Rightarrow> bool" where
  "af_arrives rq bs dgs es \<longleftrightarrow>
     (\<exists>n e. prefix (List.map_filter af_stream_of es) (af_msgs \<lparr>rbuf = take n bs, rerr = e\<rparr>))
     \<and> (\<forall>ev \<in> set es. case snd ev of
          Msg (FStream packet raw_k) \<Rightarrow> True
        | Msg m \<Rightarrow> (\<exists>dg \<in> set dgs. af_parse rq dg = Inr m)
        | MsgErr e \<Rightarrow> \<not> panics e
        | _ \<Rightarrow> True)"

lemma af_arrives_stream:
  assumes "\<forall>p \<in> set ps. av_valid p" "\<forall>h. Hole h \<notin> set ps" "audio_session ps"
    and "af_arrives rq (concat (map audio_record_bytes (audio_records 0 ps))) dgs es"
  shows "set (List.map_filter af_stream_of es) \<subseteq> af_record_msg ` set (audio_records 0 ps)"
    "codec_first False (List.map_filter af_packet_of es)"
proof -
  let ?rs = "audio_records 0 ps" and ?bs = "concat (map audio_record_bytes (audio_records 0 ps))"
  have rv: "\<forall>x \<in> set ?rs. av_valid (snd x) \<and> (\<forall>h. snd x \<noteq> Hole h)"
    using vf_records_valid [OF assms(1,2)] by (auto simp: audio_records_def ungrouped_def)
  obtain n e where pre1: "prefix (List.map_filter af_stream_of es) (af_msgs \<lparr>rbuf = take n ?bs, rerr = e\<rparr>)"
    using assms(4) unfolding af_arrives_def by blast
  have "prefix (af_msgs \<lparr>rbuf = take n ?bs, rerr = e\<rparr>) (af_msgs \<lparr>rbuf = ?bs, rerr = e\<rparr>)"
    by (rule af_msgs_extend [of _ _ "drop n ?bs"]) simp
  also have "prefix \<dots> (map af_record_msg ?rs)" by (rule af_msgs_records [OF rv]) simp
  finally have pre: "prefix (List.map_filter af_stream_of es) (map af_record_msg ?rs)"
    using pre1 prefix_order.trans by blast
  show "set (List.map_filter af_stream_of es) \<subseteq> af_record_msg ` set ?rs"
    using set_mono_prefix [OF pre] by simp
  have one: "af_packet_of ev = map_option (\<lambda>m. case m of FStream p k \<Rightarrow> p) (af_stream_of ev)" for ev
    by (cases ev rule: af_packet_of.cases) auto
  have "List.map_filter af_packet_of es = map (\<lambda>m. case m of FStream p k \<Rightarrow> p) (List.map_filter af_stream_of es)"
    by (induction es) (auto simp: List.map_filter_simps one split: option.splits)
  with map_mono_prefix [OF pre, of "\<lambda>m. case m of FStream p k \<Rightarrow> p"]
  have "prefix (List.map_filter af_packet_of es) (map snd ?rs)" by (simp add: comp_def af_record_msg_def)
  with audio_session_codec_first [OF assms(3)] show "codec_first False (List.map_filter af_packet_of es)"
    by (rule codec_first_prefix)
qed

lemma af_datagram_authentic:
  assumes "encoder_ok rq symb" "wire_ok rq" "\<forall>p \<in> set ps. av_valid p" "length ps < 2 ^ 31" "audio_session ps"
    and "x \<in> set (audio_objects 0 ps)" "af_sent_for rq lim x dg" "af_parse rq dg = Inr msg"
  defines "ms \<equiv> filter is_media ps"
  shows "af_from_sender symb pk (sent_ob ms) (ts, Msg msg) s"
proof -
  obtain a p where x: "x = (a, p)" by (cases x)
  have short: "length ms < 2 ^ 31" using assms(4) length_filter_le [of is_media ps] unfolding ms_def by linarith
  obtain i where i: "i < length ms" "ms ! i = p" "is_media p" "\<not> is_conf p" "a = of_nat i"
    using audio_objects_index [OF assms(6) [unfolded x]] unfolding ms_def by auto
  have "av_valid p" using i(1,2) nth_mem [of i ms] assms(3) unfolding ms_def by auto
  from af_parse_sent [OF assms(1,2) av_enc_length [OF this i(3)] assms(7) [unfolded x] assms(8)]
  obtain oti pid data where d: "msg = FDatagram data a oti pid" "symb (av_enc p) oti pid data" by blast
  note nn = sent_numbers [OF short i(1)]
  have "i \<noteq> 0" using audio_session_config [OF assms(5), of i] i unfolding ms_def by auto
  with nn(1,2) have f: "audio_frame (of_nat i)" by (auto simp: audio_frame_def)
  have "sent_ob ms (of_nat i) = av_enc p" unfolding sent_ob_def nn(1) using i by simp
  with f nn(4) i(5) d show ?thesis by auto
qed

lemma af_init_cinv:
  assumes "decoder_ok rq good" "codec_faithful rq symb fed" "\<forall>p \<in> set ms. av_valid p \<and> is_media p" "is_media dflt"
  shows "af_cinv rq good symb fed (sent_pk dflt ms) (sent_ob ms) af_init"
proof -
  have "q = sent_pk dflt ms k" if "media_packet (sent_ob ms k) = Inr q" for k q
  proof (cases "unat k < length ms")
    case True
    with assms(3) have "av_valid (ms ! unat k)" "is_media (ms ! unat k)" by simp_all
    with that True media_packet_enc show ?thesis by (simp add: sent_ob_def sent_pk_def)
  qed (use that in \<open>simp add: sent_ob_def media_packet_def fec_limits\<close>)
  moreover have "is_media (sent_pk dflt ms 0)" using assms(3,4) by (simp add: sent_pk_def)
  then have "\<forall>h. sent_pk dflt ms 0 \<noteq> Codec h" by (metis is_media.simps(2))
  moreover have "af_sinv rq good af_init" using assms(1) af_group_new_inv [of rq good] by (simp add: af_sinv_def af_init_def)
  ultimately show ?thesis using assms(2)
    by (simp add: af_cinv_def af_inv_def af_init_def af_content_def af_group_new_def sequencer_new_def small_def)
qed

lemma af_authentic_session:
  assumes "decoder_ok rq good" "codec_faithful rq symb fed" "\<forall>p \<in> set ms. av_valid p \<and> is_media p"
    and ok: "\<And>dflt. is_media dflt \<Longrightarrow> run_ok (af_from_sender symb (sent_pk dflt ms) (sent_ob ms)) (af_step rq) es af_init"
    and run: "run (af_step rq) es af_init = (os, st)"
  shows "subseq (map snd (filter (\<lambda>x. fst x \<noteq> None) os)) ms \<and> audio_accepts (None, 0, None) os \<noteq> None
     \<and> (\<forall>f. st = Failed f \<longrightarrow> \<not> panics f)"
proof -
  let ?dflt = "\<lambda>t. Media \<lparr>is_config = False, is_key = False, pts = t, msize = 0\<rparr> []"
  have v: "is_media (?dflt 0)" "is_media (?dflt 1)" by simp_all
  note inv0 = af_init_cinv [OF assms(1-3) v(1)] and inv1 = af_init_cinv [OF assms(1-3) v(2)]
  have inside: "unat k < length ms \<and> snd x = ms ! unat k" if "x \<in> set os" "fst x = Some k" for x k
    using af_emit.run_emits [OF inv0 ok [OF v(1)] run that(1)] af_emit.run_emits [OF inv1 ok [OF v(2)] run that(1)] that(2)
    by (auto simp: genuine_def sent_pk_def split: if_splits)
  obtain w where w: "audio_accepts (None, 0, None) os = Some w"
    using af_rcv.run_accepted [OF inv0 ok [OF v(1)] run] by (auto simp: af_view_def af_init_def)
  with accepted_subseq [OF w inside] af_rcv.run_no_panic [OF inv0 ok [OF v(1)], of os] run show ?thesis by auto
qed

text \<open>
  C31: Sender and receiver of the FEC audio protocol agree. For a session of fewer
  than \<open>2 ^ 31\<close> packets that starts with a codec and then the config, has no second config, and
  whose codecs all state a frame size above zero: whatever part of the datagrams arrives, repeated and reordered at will,
  and however much of the stream, the media packets the receiver forwards are a subsequence of
  those that were sent; every gap is announced by exactly one hole, before the packet that follows
  it, with the samples of the missing packets; and the receiver does not panic. The codec is asked
  for what RFC 6330 promises.
\<close>

theorem af_end_to_end:
  assumes "decoder_ok rq good" "codec_faithful rq symb fed" "encoder_ok rq symb" "wire_ok rq"
    and "audio_send_start c (Inr new_writer) = Inr s0" "sc_sent c = []"
    and "\<forall>p \<in> set ps. av_valid p" "length ps < 2 ^ 31" "audio_session ps"
    and "audio_send_all (af_send_datagrams rq) ps s0 = (Inr (), s)"
    and "af_arrives rq (drop 2 (wout (as_stream s))) (sc_sent (as_channel s)) es"
    and "run (af_step rq) es af_init = (os, st)"
  shows "subseq (map snd (filter (\<lambda>x. fst x \<noteq> None) os)) (filter is_media ps)
     \<and> audio_accepts (None, 0, None) os \<noteq> None \<and> (\<forall>f. st = Failed f \<longrightarrow> \<not> panics f)"
proof (rule af_authentic_session [OF assms(1,2) _ _ assms(12)])
  let ?ms = "filter is_media ps"
  note out = af_snd.started_ok [OF assms(5,6,10)]
  show media: "\<forall>p \<in> set ?ms. av_valid p \<and> is_media p" using assms(7) by simp
  note arr = af_arrives_stream [OF assms(7) out(3) assms(9) assms(11) [unfolded out(1)]]
  fix dflt :: av_packet assume dflt: "is_media dflt"
  show "run_ok (af_from_sender symb (sent_pk dflt ?ms) (sent_ob ?ms)) (af_step rq) es af_init"
  proof (rule af_str.run_ok_codec_first)
    show "af_cinv rq good symb fed (sent_pk dflt ?ms) (sent_ob ?ms) af_init" using af_init_cinv assms(1,2) media dflt by blast
    show "codec_first (fst (af_view af_init) \<noteq> None) (List.map_filter af_packet_of es)"
      using arr(2) by (simp add: af_view_def af_init_def)
    fix ev s' assume ev: "ev \<in> set es" "\<And>p. af_packet_of ev = Some p \<Longrightarrow> (\<exists>h. p = Codec h) \<or> fst (af_view s') \<noteq> None"
    have a: "case snd ev of Msg (FStream packet raw_k) \<Rightarrow> True | Msg m \<Rightarrow> (\<exists>dg \<in> set (sc_sent (as_channel s)). af_parse rq dg = Inr m)
        | MsgErr e \<Rightarrow> \<not> panics e | _ \<Rightarrow> True" using assms(11) ev(1) unfolding af_arrives_def by blast
    show "af_from_sender symb (sent_pk dflt ?ms) (sent_ob ?ms) ev s'"
    proof (cases "(symb, sent_pk dflt ?ms, sent_ob ?ms, ev, s')" rule: af_from_sender.cases)
      case (1 symb' pk' ob' ts packet raw s1)
      then have "FStream packet raw \<in> set (List.map_filter af_stream_of es)" using ev(1) by (force simp: List.map_filter_def)
      with arr(1) have r: "(raw, packet) \<in> set (audio_records 0 ps)" by (auto simp: af_record_msg_def)
      from audio_session_records [OF assms(9) out(3) r] ev(2) [of packet] 1 show ?thesis
        by (auto simp: af_view_def sent_pk_def)
    next
      case (2 symb' pk' ob' ts data raw oti pid s1)
      with a obtain dg where dg: "dg \<in> set (sc_sent (as_channel s))" "af_parse rq dg = Inr (FDatagram data raw oti pid)" by auto
      with out(2) obtain x where x: "x \<in> set (audio_objects 0 ps)" "af_sent_for rq (sc_limits c) x dg" by blast
      from af_datagram_authentic [OF assms(3,4,7,8,9) x dg(2)] 2 show ?thesis by blast
    qed (use a in auto)
  qed
qed

section \<open>A sender and a receiver\<close>

definition af_sample_channel :: send_channel where
  "af_sample_channel = \<lparr>sc_endpoint = 0, sc_max_datagram = Some 38, sc_sent = [], sc_room = None, sc_error = []\<rparr>"

definition af_sample_wire :: "u32 \<Rightarrow> bytes" where
  "af_sample_wire k = [0, 0] @ put_u32 k @ [0, 0, 0, 0, 13, 0, 0, 16, 1, 0, 1, 1, 0, 0, 0, 0] @ sample_symbol"

abbreviation af_sample_sender' :: audio_sender where
  "af_sample_sender' \<equiv> audio_sample_sender (af_sample_channel\<lparr>sc_sent := [af_sample_wire 1, af_sample_wire 2]\<rparr>)
     (concat (map audio_record_bytes audio_sample_records)) 3"

definition af_sample_events :: "af_msg event list" where
  "af_sample_events = [(\<lambda>_. 0, Msg (FStream sample_codec 0)), (\<lambda>_. 1, Msg (FStream sample_config 0)),
     (\<lambda>_. 2, Msg (FDatagram sample_symbol 2 sample_oti sample_pid)), (\<lambda>_. 10002, Timer)]"

lemma af_sample_start:
  "audio_send_start af_sample_channel (Inr new_writer) = Inr (audio_sample_sender af_sample_channel [] 0)"
  by (simp add: audio_send_start_def open_uni_def write_endpoint_id_def new_writer_def flush_def write_all_def
      audio_sample_sender_def af_sample_channel_def put_u16_def be_nat_numeral)

lemma af_sample_frame_send:
  "audio_send (af_send_datagrams ref_codec) sample_media (audio_sample_sender (af_sample_channel\<lparr>sc_sent := dgs\<rparr>) bs k)
     = (Inr (), audio_sample_sender (af_sample_channel\<lparr>sc_sent := dgs @ [af_sample_wire k]\<rparr>) bs (k + 1))"
proof -
  have h: "media_serialize \<lparr>is_config = False, is_key = False, pts = 0, msize = 1\<rparr> = Inr (take 12 (av_enc sample_media))"
    unfolding sample_media_enc
    by (simp add: media_serialize_bytes media_word_def push_bit_eq_mult put_u64_def put_u32_def be_nat_numeral replicate_numeral)
  show ?thesis
    by (subst sample_media_def) (simp add: h sample_media_enc audio_send_def af_send_datagrams_def af_DATAGRAM_HEADER_SIZE_def
        audio_sample_sender_def af_sample_channel_def af_datagram_def write_datagram_header_def send_datagram_def
        ref_with_defaults_def ref_encoded_packets_def div_ceil_def ref_oti_serialize_def ref_id_serialize_def
        af_sample_wire_def sample_symbol_def put_u16_def be_nat_numeral replicate_numeral)
qed

lemma af_sample_send:
  "audio_send_all (af_send_datagrams ref_codec) audio_sample (audio_sample_sender af_sample_channel [] 0) = (Inr (), af_sample_sender')"
proof -
  have c: "af_sample_channel = af_sample_channel\<lparr>sc_sent := []\<rparr>" by (simp add: af_sample_channel_def)
  show ?thesis by (subst c) (simp add: audio_sample_records_send af_sample_frame_send)
qed

lemma af_sample_oti_valid: "validate_oti sample_oti MAX_AUDIO_PAYLOAD = Inr ()"
  by (simp add: validate_oti_iff rfc_oti_def sample_oti_def oti_symbols_def div_ceil_def fec_limits)

lemma af_sample_capacity:
  "n \<le> 8192 \<Longrightarrow> \<not> config_is_ready c \<Longrightarrow> af_check_capacity n \<lparr>fg_config = c, fg_datagrams = [], fg_segments = []\<rparr> = Inr ()"
  unfolding af_check_capacity_iff by (cases c) (simp_all add: af_usage_config)

lemma af_sample_parse: "af_parse ref_codec (af_sample_wire 2) = Inr (FDatagram sample_symbol 2 sample_oti sample_pid)"
proof -
  have "oti_deserialize ref_codec [0, 0, 0, 0, 13, 0, 0, 16, 1, 0, 1, 1] = sample_oti"
    by (simp add: ref_oti_deserialize_def nat_be_def get_u16_def sample_oti_def)
  moreover have "payload_id_deserialize ref_codec [0, 0, 0, 0] = sample_pid"
    by (simp add: ref_id_deserialize_def nat_be_def sample_pid_def)
  moreover have "validate_symbol sample_oti sample_pid 16 = Inr ()"
    by (simp add: validate_symbol_def sample_oti_def sample_pid_def)
  moreover have "length sample_symbol = 16" by (simp add: sample_symbol_def)
  ultimately show ?thesis
    by (simp add: af_parse_def af_DATAGRAM_HEADER_SIZE_def parse_datagram_def af_sample_wire_def
        af_sample_oti_valid Let_def get_u32_def nat_be_def put_u32_def be_nat_numeral)
qed

definition af_sample_state :: "config_packet \<Rightarrow> af_packet list \<Rightarrow> u64 \<Rightarrow> u64 \<Rightarrow> instant option \<Rightarrow> ref_decoder af_state" where
  "af_sample_state c ds k n dl = af_init\<lparr>af_kseq := \<lparr>newest_seq = k\<rparr>,
     af_pending := \<lparr>fg_config = c, fg_datagrams = ds, fg_segments = []\<rparr>, af_next := n, af_deadline := dl,
     af_frame_size := Some 960\<rparr>"

definition af_sample_late :: "af_packet list" where
  "af_sample_late = [\<lparr>ap_oti = sample_oti, ap_packet = sample_media, ap_seq = 2, ap_instant = 2\<rparr>]"

lemma af_sample_insert:
  "af_insert_datagram ref_codec 2 2 sample_oti sample_pid sample_symbol \<lparr>fg_config = CSent, fg_datagrams = [], fg_segments = []\<rparr>
   = Inr \<lparr>fg_config = CSent, fg_datagrams = af_sample_late, fg_segments = []\<rparr>"
  using sample_decode sample_media_packet sample_symbols
  by (simp add: af_insert_datagram_def binary_search_small af_prepare_segments_def af_segments_new_def
      af_sample_capacity sample_reservation object_decoder_new_def af_sample_oti_valid sample_oti_blocks insert_at_def af_add_packet_def
      af_is_complete_def af_assemble_def af_insert_packet_def remove_at_def af_sample_late_def)

lemmas af_drain_first = af_drain.simps [of _ "Suc 0"] af_drain.simps [of _ "Suc (Suc 0)"]

lemma af_sample_steps:
  "af_step ref_codec (ts, Msg (FStream sample_codec 0)) af_init = ([(None, sample_codec)], Running (af_sample_state CNone [] 0 0 None))"
  "af_step ref_codec (ts, Msg (FStream sample_config 0)) (af_sample_state CNone [] 0 0 None)
     = ([(Some 0, sample_config)], Running (af_sample_state CSent [] 0 1 None))"
  "af_step ref_codec (\<lambda>_. 2, Msg (FDatagram sample_symbol 2 sample_oti sample_pid)) (af_sample_state CSent [] 0 1 None)
     = ([], Running (af_sample_state CSent af_sample_late 2 1 (Some 10002)))"
  by (simp_all add: af_step_def sample_codec_def sample_config_def af_init_def af_sample_state_def sequencer_new_def af_group_new_def
      audio_sample_unroll af_insert_stream_packet_def af_sample_capacity af_sample_insert af_drain_first
      af_take_next_packet_def af_next_packet_def audio_choose_def af_account_def af_holes_def af_sample_late_def
      af_MAX_BUFFERING_def list_min_def Let_def)

lemma af_sample_timer:
  "\<exists>s. af_step ref_codec (\<lambda>_. 10002, Timer) (af_sample_state CSent af_sample_late 2 1 (Some 10002))
     = ([(None, Hole \<lparr>missing_audio_samples = 960\<rparr>), (Some 2, sample_media)], Running s)"
  by (simp add: af_step_def af_sample_state_def af_init_def af_drain_first af_take_next_packet_def af_next_packet_def
      audio_choose_def af_account_def af_holes_def af_hole_def af_drop_expired_def binary_search_small af_sample_late_def
      af_MAX_BUFFERING_def list_min_def Let_def)

lemma af_sample_run:
  "\<exists>s. run (af_step ref_codec) af_sample_events af_init = ([(None, sample_codec), (Some 0, sample_config),
      (None, Hole \<lparr>missing_audio_samples = 960\<rparr>), (Some 2, sample_media)], Running s)"
  using af_sample_timer af_sample_steps by (auto simp: af_sample_events_def)

lemma af_sample_msgs:
  "af_recv_stream_packets \<lparr>rbuf = concat (map audio_record_bytes audio_sample_records), rerr = None\<rparr>
     = [Inr (FStream sample_codec 0), Inr (FStream sample_config 0), Inl (protocol_error_new (end_err ''early eof'' \<lparr>rbuf = [], rerr = None\<rparr>))]"
proof -
  have c: "audio_record_bytes (0, sample_codec) = [0, 0, 0, 0, 0, 0, 0, 1, 0, 3, 192, 0, 0, 0, 0, 0]"
    "audio_record_bytes (0, sample_config) = [0, 0, 0, 0, 0xC0, 0, 0, 0, 0, 0, 0, 0, 0, 0, 0, 0]"
    by (simp_all add: audio_record_bytes_def sample_codec_def sample_config_def codec_serialize_bytes media_serialize_bytes
        media_word_def push_bit_eq_mult put_u64_def put_u32_def put_u16_def be_nat_numeral replicate_numeral)
  have "af_read_stream_msg \<lparr>rbuf = [0, 0, 0, 0, 0, 0, 0, 1, 0, 3, 192, 0, 0, 0, 0, 0] @ rest, rerr = None\<rparr>
      = Inr (FStream sample_codec 0, \<lparr>rbuf = rest, rerr = None\<rparr>)" for rest
    by (simp add: af_read_stream_msg_def read_exact_def read_stream_packet_def fec_limits codec_deserialize_def SERIALIZED_SIZE_def
        get_u32_def get_u16_def nat_be_def sample_codec_def)
  moreover have "af_read_stream_msg \<lparr>rbuf = [0, 0, 0, 0, 0xC0, 0, 0, 0, 0, 0, 0, 0, 0, 0, 0, 0], rerr = None\<rparr>
      = Inr (FStream sample_config 0, \<lparr>rbuf = [], rerr = None\<rparr>)"
    by (simp add: af_read_stream_msg_def read_exact_def read_stream_packet_def fec_limits
        media_deserialize_def Let_def get_u64_def get_u32_def nat_be_def push_bit_eq_mult sample_config_def)
  moreover have "af_read_stream_msg \<lparr>rbuf = [], rerr = None\<rparr> = Inl (protocol_error_new (end_err ''early eof'' \<lparr>rbuf = [], rerr = None\<rparr>))"
    by (simp add: af_read_stream_msg_def read_exact_def)
  ultimately show ?thesis
    by (simp add: c af_recv_stream_packets.simps [of "\<lparr>rbuf = _ # _, rerr = None\<rparr>"] af_recv_stream_packets.simps [of "\<lparr>rbuf = [], rerr = None\<rparr>"])
qed

theorem af_receiver_safe_witness:
  "\<exists>s. run (af_step ref_codec) af_sample_events af_init
       = ([(None, sample_codec), (Some 0, sample_config), (None, Hole \<lparr>missing_audio_samples = 960\<rparr>), (Some 2, sample_media)], Running s)
     \<and> fst (af_usage (af_pending s)) \<le> 128"
proof -
  obtain s where r: "run (af_step ref_codec) af_sample_events af_init = ([(None, sample_codec), (Some 0, sample_config),
      (None, Hole \<lparr>missing_audio_samples = 960\<rparr>), (Some 2, sample_media)], Running s)" using af_sample_run by blast
  have "af_recv_datagrams ref_codec [Inr (af_sample_wire 2)] = [Inr (FDatagram sample_symbol 2 sample_oti sample_pid)]"
    using af_sample_parse by simp
  then have "\<forall>ev \<in> set af_sample_events. delivered (set (af_recv_datagrams ref_codec [Inr (af_sample_wire 2)])
      \<union> set (af_recv_stream_packets \<lparr>rbuf = concat (map audio_record_bytes audio_sample_records), rerr = None\<rparr>)) (snd ev)"
    unfolding af_sample_msgs by (simp add: af_sample_events_def)
  from af_receiver_safe [OF ref_decoder_ok _ this r] r show ?thesis by simp
qed

theorem af_end_to_end_witness:
  "\<exists>st. run (af_step ref_codec) af_sample_events af_init
       = ([(None, sample_codec), (Some 0, sample_config), (None, Hole \<lparr>missing_audio_samples = 960\<rparr>), (Some 2, sample_media)], st)
     \<and> subseq [sample_config, sample_media] (filter is_media audio_sample)"
proof -
  obtain s where run: "run (af_step ref_codec) af_sample_events af_init = ([(None, sample_codec), (Some 0, sample_config),
      (None, Hole \<lparr>missing_audio_samples = 960\<rparr>), (Some 2, sample_media)], Running s)" using af_sample_run by blast
  have v: "\<forall>p \<in> set audio_sample. av_valid p" by (simp add: sample_codec_def sample_config_def sample_media_def)
  have n: "take 32 (drop 2 (wout (as_stream af_sample_sender'))) = concat (map audio_record_bytes audio_sample_records)"
    by (simp add: audio_sample_sender_def audio_record_bytes_def sample_codec_def sample_config_def codec_serialize_bytes
        media_serialize_bytes)
  have "af_arrives ref_codec (drop 2 (wout (as_stream af_sample_sender'))) (sc_sent (as_channel af_sample_sender')) af_sample_events"
    unfolding af_arrives_def
  proof (intro conjI exI [of _ 32] exI [of _ None])
    show "prefix (List.map_filter af_stream_of af_sample_events)
        (af_msgs \<lparr>rbuf = take 32 (drop 2 (wout (as_stream af_sample_sender'))), rerr = None\<rparr>)"
      unfolding n af_msgs_def af_sample_msgs by (simp add: af_sample_events_def List.map_filter_simps)
  qed (use af_sample_parse in \<open>simp add: af_sample_events_def audio_sample_sender_def\<close>)
  moreover have "audio_session audio_sample" by (simp add: sample_codec_def sample_config_def sample_media_def)
  moreover have "sc_sent af_sample_channel = []" "length audio_sample < 2 ^ 31" by (simp_all add: af_sample_channel_def)
  ultimately show ?thesis
    using af_end_to_end [OF ref_decoder_ok ref_codec_faithful ref_encoder_ok ref_wire_ok af_sample_start _ v _ _ af_sample_send _ run] run
    by auto
qed

theorem af_waits_at_most_10ms_witness:
  "\<exists>t. af_deadline (af_sample_state CSent af_sample_late 2 1 (Some 10002)) = Some t \<and> t \<le> 10002
     \<and> fst (af_step ref_codec (\<lambda>_. 10002, Timer) (af_sample_state CSent af_sample_late 2 1 (Some 10002))) \<noteq> []"
proof -
  let ?s = "af_sample_state CSent af_sample_late 2 1 (Some 10002)"
    and ?d = "\<lparr>ap_oti = sample_oti, ap_packet = sample_media, ap_seq = 2, ap_instant = 2\<rparr>"
  have "af_drain (\<lambda>_. 2) 1 (af_sample_state CSent af_sample_late 2 1 None) = ([], Running ?s)"
    by (simp add: af_sample_state_def af_init_def af_drain_first af_take_next_packet_def af_next_packet_def
        audio_choose_def af_sample_late_def af_MAX_BUFFERING_def list_min_def)
  moreover have "fg_config (af_pending ?s) \<noteq> CNone" "?d \<in> set (fg_datagrams (af_pending ?s))" "af_frame_size ?s = Some 960"
    "af_deadline ?s = Some 10002"
    by (simp_all add: af_sample_state_def af_sample_late_def)
  ultimately show ?thesis using af_waits_at_most_10ms [of "\<lambda>_. 2" 1 _ "[]" ?s ?d 960 "\<lambda>_. 10002" ref_codec] by auto
qed

end
