(* ===== verification/Reliable.thy ===== *)
theory Reliable
  imports Packets Router
begin

text \<open>
  The reliable protocols (\<open>driver/av/reliable.rs\<close>, \<open>driver/data/reliable.rs\<close>,
  \<open>driver/input/reliable.rs\<close>, \<open>driver/metrics/reliable.rs\<close>): one stream per direction, one packet
  after the other. The four files have the same drivers, for the four packet types.
\<close>

section \<open>Drivers\<close>

record reliable_sender =
  rs_endpoint :: u16
  rs_send :: writer

definition reliable_send_start :: "writer result \<Rightarrow> u16 \<Rightarrow> reliable_sender result" where
  "reliable_send_start opened endpoint =
     and_then (map_err protocol_error_new (open_uni opened endpoint)) (\<lambda>send.
     Inr \<lparr>rs_endpoint = endpoint, rs_send = send\<rparr>)"

definition reliable_send :: "'p write_fun \<Rightarrow> 'p \<Rightarrow> reliable_sender \<Rightarrow> unit result \<times> reliable_sender" where
  "reliable_send write_p packet d = apsnd (\<lambda>w. d\<lparr>rs_send := w\<rparr>) (write_packet write_p packet (rs_send d))"

text \<open>The channel of a receiver is its position in the router; starting may have to wait (\<open>None\<close>).\<close>

record reliable_receiver =
  rr_chan :: nat
  rr_recv :: reader

definition reliable_recv_start :: "nat \<Rightarrow> router \<Rightarrow> (reliable_receiver \<times> router) result option" where
  "reliable_recv_start c r =
     map_option (\<lambda>x. and_then (map_err protocol_error_new x) (\<lambda>(recv, r').
                     Inr (\<lparr>rr_chan = c, rr_recv = recv\<rparr>, r'))) (accept_uni c r)"

definition reliable_recv :: "'p read_fun \<Rightarrow> reliable_receiver \<Rightarrow> 'p option result \<times> reliable_receiver" where
  "reliable_recv read_p d =
     (case read_packet read_p (rr_recv d) of
        Inl e \<Rightarrow> (Inl e, d)
      | Inr None \<Rightarrow> (Inr None, d)
      | Inr (Some (packet, recv)) \<Rightarrow> (Inr (Some packet), d\<lparr>rr_recv := recv\<rparr>))"

definition av_reliable_send :: "av_packet \<Rightarrow> reliable_sender \<Rightarrow> unit result \<times> reliable_sender" where
  "av_reliable_send = reliable_send av_write"

definition av_reliable_recv :: "reliable_receiver \<Rightarrow> av_packet option result \<times> reliable_receiver" where
  "av_reliable_recv = reliable_recv av_read"

definition data_reliable_send :: "data_packet \<Rightarrow> reliable_sender \<Rightarrow> unit result \<times> reliable_sender" where
  "data_reliable_send = reliable_send data_write"

definition data_reliable_recv :: "nat \<Rightarrow> reliable_receiver \<Rightarrow> data_packet option result \<times> reliable_receiver" where
  "data_reliable_recv chunk = reliable_recv (data_read chunk)"

definition input_reliable_send :: "input_packet \<Rightarrow> reliable_sender \<Rightarrow> unit result \<times> reliable_sender" where
  "input_reliable_send = reliable_send input_write"

definition input_reliable_recv :: "reliable_receiver \<Rightarrow> input_packet option result \<times> reliable_receiver" where
  "input_reliable_recv = reliable_recv input_read"

definition metrics_reliable_send :: "metrics_packet \<Rightarrow> reliable_sender \<Rightarrow> unit result \<times> reliable_sender" where
  "metrics_reliable_send = reliable_send metrics_write"

definition metrics_reliable_recv :: "reliable_receiver \<Rightarrow> metrics_packet option result \<times> reliable_receiver" where
  "metrics_reliable_recv = reliable_recv metrics_read"

section \<open>From one end to the other\<close>

text \<open>A client that sends a list of packets, and one that receives \<open>n\<close> times.\<close>

fun reliable_sends :: "('p \<Rightarrow> reliable_sender \<Rightarrow> unit result \<times> reliable_sender) \<Rightarrow> 'p list \<Rightarrow> reliable_sender
    \<Rightarrow> unit result \<times> reliable_sender" where
  "reliable_sends send [] d = (Inr (), d)"
| "reliable_sends send (p # ps) d =
     (case send p d of (Inl e, d') \<Rightarrow> (Inl e, d') | (Inr u, d') \<Rightarrow> reliable_sends send ps d')"

fun reliable_recvs :: "(reliable_receiver \<Rightarrow> 'p option result \<times> reliable_receiver) \<Rightarrow> nat \<Rightarrow> reliable_receiver
    \<Rightarrow> 'p option result list" where
  "reliable_recvs recv 0 d = []"
| "reliable_recvs recv (Suc n) d = (case recv d of (x, d') \<Rightarrow> x # reliable_recvs recv n d')"

text \<open>
  The packets \<open>ps\<close>, sent on a stream for endpoint \<open>e\<close>, reach the receiver on channel \<open>c\<close> of the router
  \<open>r\<close> in their order, and the call after them satisfies \<open>fin\<close>.
\<close>

definition reliable_delivers ::
  "('p \<Rightarrow> reliable_sender \<Rightarrow> unit result \<times> reliable_sender) \<Rightarrow> (reliable_receiver \<Rightarrow> 'p option result \<times> reliable_receiver)
     \<Rightarrow> 'p list \<Rightarrow> ('p option result \<Rightarrow> bool) \<Rightarrow> u16 \<Rightarrow> nat \<Rightarrow> router \<Rightarrow> bool" where
  "reliable_delivers send recv ps fin e c r \<longleftrightarrow>
     (\<exists>s0 s r1 d r2 x.
        reliable_send_start (Inr new_writer) e = Inr s0 \<and> reliable_sends send ps s0 = (Inr (), s)
        \<and> router_step\<^sup>*\<^sup>* (uni_accepted (Inr \<lparr>rbuf = wout (rs_send s), rerr = None\<rparr>) r) r1
        \<and> reliable_recv_start c r1 = Some (Inr (d, r2))
        \<and> reliable_recvs recv (Suc (length ps)) d = map (\<lambda>p. Inr (Some p)) ps @ [x] \<and> fin x)"

context serializable
begin

lemma reliable_sends_enc:
  assumes "\<forall>p \<in> set ps. valid p" "wcap (rs_send d) = None"
  shows "reliable_sends (reliable_send write_p) ps d
         = (Inr (), d\<lparr>rs_send := (rs_send d)\<lparr>wout := wout (rs_send d) @ concat (map enc ps)\<rparr>\<rparr>)"
  using assms
proof (induction ps arbitrary: d)
  case (Cons p ps)
  have "reliable_send write_p p d = (Inr (), d\<lparr>rs_send := (rs_send d)\<lparr>wout := wout (rs_send d) @ enc p\<rparr>\<rparr>)"
    using Cons.prems by (simp add: reliable_send_def write_packet_def write_enc write_all_unbounded flush_def)
  with Cons show ?case by simp
qed simp

lemma reliable_recvs_enc:
  assumes "\<forall>p \<in> set ps. valid p" "rbuf (rr_recv d) = concat (map enc ps)"
  shows "reliable_recvs (reliable_recv read_p) (Suc (length ps)) d
         = map (\<lambda>p. Inr (Some p)) ps @ [fst (reliable_recv read_p (d\<lparr>rr_recv := (rr_recv d)\<lparr>rbuf := []\<rparr>\<rparr>))]"
  using assms
proof (induction ps arbitrary: d)
  case Nil
  then have "rr_recv d\<lparr>rbuf := []\<rparr> = rr_recv d" by simp
  then show ?case by (simp split: prod.splits)
next
  case (Cons p ps)
  let ?d = "d\<lparr>rr_recv := (rr_recv d)\<lparr>rbuf := concat (map enc ps)\<rparr>\<rparr>"
  have "reliable_recv read_p d = (Inr (Some p), ?d)"
    using Cons.prems read_enc [of p "rr_recv d" "concat (map enc ps)"] by (simp add: reliable_recv_def read_packet_def)
  with Cons.IH [of ?d] Cons.prems(1) show ?case by simp
qed

lemma reliable_delivered:
  assumes "\<forall>p \<in> set ps. valid p" "rt_uni r = Accepting" "rt_clients r e = Some c" "c < length (rt_chans r)"
    and "ch_uni (rt_chans r ! c) = mpsc_new 8"
    and "\<And>d. rr_recv d = \<lparr>rbuf = [], rerr = None\<rparr> \<Longrightarrow> fin (fst (reliable_recv read_p d))"
  shows "reliable_delivers (reliable_send write_p) (reliable_recv read_p) ps fin e c r"
proof -
  define s0 where "s0 = \<lparr>rs_endpoint = e, rs_send = new_writer\<lparr>wout := put_u16 e\<rparr>\<rparr>"
  define s where "s = s0\<lparr>rs_send := new_writer\<lparr>wout := put_u16 e @ concat (map enc ps)\<rparr>\<rparr>"
  let ?x = "\<lparr>rbuf = concat (map enc ps), rerr = None\<rparr>"
  define q where "q = (mpsc_new 8 :: reader mpsc)\<lparr>mq_items := [?x]\<rparr>"
  define r1 where "r1 = r\<lparr>rt_chans := (rt_chans r)[c := (rt_chans r ! c)\<lparr>ch_uni := q\<rparr>]\<rparr>"
  define r2 where "r2 = r1\<lparr>rt_chans := (rt_chans r1)[c := (rt_chans r1 ! c)\<lparr>ch_uni := q\<lparr>mq_items := []\<rparr>\<rparr>]\<rparr>"
  have start: "reliable_send_start (Inr new_writer) e = Inr s0"
    by (simp add: reliable_send_start_def open_uni_def write_endpoint_id_def new_writer_def flush_def s0_def)
  have sends: "reliable_sends (reliable_send write_p) ps s0 = (Inr (), s)"
    using reliable_sends_enc [OF assms(1), of s0] by (simp add: s0_def s_def new_writer_def)
  have acc: "uni_accepted (Inr \<lparr>rbuf = wout (rs_send s), rerr = None\<rparr>) r = r\<lparr>rt_uni := Sending ?x c\<rparr>"
    using assms(3) by (simp add: uni_accepted_def read_endpoint_id_def s_def read_exact_def)
  have "uni_sent ?x c (r\<lparr>rt_uni := Sending ?x c\<rparr>) = Some r1"
    using assms(2,5) by (simp add: uni_sent_def mpsc_send_def mpsc_new_def Let_def r1_def q_def)
  then have "router_step (r\<lparr>rt_uni := Sending ?x c\<rparr>) r1" by (intro router_step.uni_sent [of _ ?x c]) simp_all
  then have steps: "router_step\<^sup>*\<^sup>* (uni_accepted (Inr \<lparr>rbuf = wout (rs_send s), rerr = None\<rparr>) r) r1" by (simp add: acc)
  have recv: "reliable_recv_start c r1 = Some (Inr (\<lparr>rr_chan = c, rr_recv = ?x\<rparr>, r2))"
    using assms(4)
    by (simp add: reliable_recv_start_def accept_uni_def chan_recv_def mpsc_recv_def r1_def r2_def q_def)
  let ?d = "\<lparr>rr_chan = c, rr_recv = ?x\<rparr>" and ?fin = "\<lparr>rr_chan = c, rr_recv = \<lparr>rbuf = [], rerr = None\<rparr>\<rparr>"
  have "reliable_recvs (reliable_recv read_p) (Suc (length ps)) ?d = map (\<lambda>p. Inr (Some p)) ps @ [fst (reliable_recv read_p ?fin)]"
    using reliable_recvs_enc [OF assms(1), of ?d] by simp
  with start sends steps recv assms(6) [of ?fin] show ?thesis
    unfolding reliable_delivers_def by auto
qed

end

context serializable_eof
begin

lemma reliable_delivered_eof:
  assumes "\<forall>p \<in> set ps. valid p" "rt_uni r = Accepting" "rt_clients r e = Some c" "c < length (rt_chans r)"
    and "ch_uni (rt_chans r ! c) = mpsc_new 8"
  shows "reliable_delivers (reliable_send write_p) (reliable_recv read_p) ps (\<lambda>x. x = Inr None) e c r"
  using assms by (rule reliable_delivered) (simp add: reliable_recv_def read_packet_def read_eof)

end

text \<open>
  C33: The reliable protocols lose nothing. Packets of any of the four types, sent one after the
  other on the stream of an endpoint, reach the receiver that waits on that endpoint's channel
  complete, unaltered and in their order. After the last one the receiver of audio, video, data
  and metrics packets reports the end of the stream; the receiver of input packets an error.
\<close>

theorem reliable_end_to_end:
  assumes "\<forall>p \<in> set avs. av_valid p" "\<forall>p \<in> set ds. data_valid p" "\<forall>p \<in> set ins. input_valid p" "\<forall>p \<in> set ms. metrics_valid p"
    and "rt_uni r = Accepting" "rt_clients r e = Some c" "c < length (rt_chans r)" "ch_uni (rt_chans r ! c) = mpsc_new 8"
  shows "reliable_delivers av_reliable_send av_reliable_recv avs (\<lambda>x. x = Inr None) e c r
     \<and> reliable_delivers data_reliable_send (data_reliable_recv chunk) ds (\<lambda>x. x = Inr None) e c r
     \<and> reliable_delivers input_reliable_send input_reliable_recv ins (\<lambda>x. \<exists>f. x = Inl f) e c r
     \<and> reliable_delivers metrics_reliable_send metrics_reliable_recv ms (\<lambda>x. x = Inr None) e c r"
proof -
  have "reliable_delivers input_reliable_send input_reliable_recv ins (\<lambda>x. \<exists>f. x = Inl f) e c r"
    unfolding input_reliable_send_def input_reliable_recv_def using assms(3,5-8)
    by (rule input.reliable_delivered) (simp add: reliable_recv_def read_packet_def input_read_def read_u8_def read_exact_def)
  with av.reliable_delivered_eof [OF assms(1,5-8)] data.reliable_delivered_eof [OF assms(2,5-8), of chunk]
    metrics.reliable_delivered_eof [OF assms(4-8)]
  show ?thesis
    unfolding av_reliable_send_def av_reliable_recv_def data_reliable_send_def data_reliable_recv_def
      metrics_reliable_send_def metrics_reliable_recv_def by blast
qed

theorem reliable_end_to_end_witness:
  "reliable_delivers av_reliable_send av_reliable_recv [Codec \<lparr>codec = 1, rotation = 0, frame_size = 960\<rparr>] (\<lambda>x. x = Inr None)
     7 0 (snd (router_register 7 router_start))
   \<and> reliable_delivers input_reliable_send input_reliable_recv [] (\<lambda>x. \<exists>f. x = Inl f) 7 0 (snd (router_register 7 router_start))"
proof -
  let ?r = "snd (router_register 7 router_start)"
  have "rt_uni ?r = Accepting" "rt_clients ?r 7 = Some 0" "0 < length (rt_chans ?r)" "ch_uni (rt_chans ?r ! 0) = mpsc_new 8"
    by (simp_all add: router_register_def router_start_def ky_channel_new_def)
  from reliable_end_to_end [OF _ _ _ _ this, of "[Codec \<lparr>codec = 1, rotation = 0, frame_size = 960\<rparr>]" "[]" "[]" "[]"]
  show ?thesis by simp
qed

end
