(* ===== verification/Control.thy ===== *)
theory Control
  imports Serial
begin

text \<open>
  The control channel of a connection (\<open>kyproto/src/control.rs\<close>): both peers announce
  endpoints to each other and meet when both are ready to use one. The message codec
  (\<open>rmp_serde\<close>) is outside the repository: its two functions are parameters.
\<close>

section \<open>Data\<close>

datatype control_msg = RegisterEndpoint u16 | EndpointRegistered u16 | Ready u16

text \<open>A one-shot channel: nothing sent yet, its message sent, or its receiver gone.\<close>

datatype shot = Waiting | Fired | Gone

text \<open>One-shot senders are kept by the position of the channel in the list \<open>shots\<close>.\<close>

datatype pending_ready = AwaitingLocal | AwaitingRemote nat

record control =
  pending_register_ack :: "u16 \<rightharpoonup> nat"
  pending_connect :: "u16 set"
  pending_ready :: "u16 \<rightharpoonup> pending_ready"
  shots :: "shot list"
  control_out :: "control_msg list"

definition control_start :: control where
  "control_start = \<lparr>pending_register_ack = Map.empty, pending_connect = {}, pending_ready = Map.empty,
     shots = [], control_out = []\<rparr>"

record ready_notifier =
  rn_endpoint :: u16
  rn_shot :: nat
  rn_used :: bool

definition control_error :: "string \<Rightarrow> fault" where
  "control_error s = ProtocolError (''control error: '' @ s)"

text \<open>Any other error is converted to its message.\<close>

fun control_error_from :: "fault \<Rightarrow> fault" where
  "control_error_from (IoError k m) = control_error m"
| "control_error_from (ProtocolError m) = control_error m"
| "control_error_from (Panic m) = Panic m"

text \<open>Upper-case hexadecimal, as \<open>{:X}\<close> prints it.\<close>

definition hex_digit :: "nat \<Rightarrow> char" where
  "hex_digit n = ''0123456789ABCDEF'' ! n"

fun string_of_hex :: "nat \<Rightarrow> string" where
  "string_of_hex n = (if n < 16 then [hex_digit n] else string_of_hex (n div 16) @ [hex_digit (n mod 16)])"

declare string_of_hex.simps [simp del]

section \<open>Operations\<close>

definition oneshot :: "control \<Rightarrow> nat \<times> control" where
  "oneshot s = (length (shots s), s\<lparr>shots := shots s @ [Waiting]\<rparr>)"

definition shot_send :: "string \<Rightarrow> nat \<Rightarrow> control \<Rightarrow> unit result \<times> control" where
  "shot_send msg i s =
     (if shots s ! i = Gone then (Inl (control_error msg), s)
      else (Inr (), s\<lparr>shots := (shots s)[i := Fired]\<rparr>))"

definition tx_send :: "control_msg \<Rightarrow> control \<Rightarrow> control" where
  "tx_send m s = s\<lparr>control_out := control_out s @ [m]\<rparr>"

text \<open>\<open>register_endpoint\<close> up to the point where it waits for the acknowledgement.\<close>

definition register_endpoint :: "u16 \<Rightarrow> control \<Rightarrow> nat result \<times> control" where
  "register_endpoint e s =
     (case pending_register_ack s e of
        Some _ \<Rightarrow> (Inl (control_error (''Endpoint already pending: '' @ string_of_hex (unat e))), s)
      | None \<Rightarrow>
          let (i, s1) = oneshot s;
              s2 = s1\<lparr>pending_register_ack := (pending_register_ack s1)(e \<mapsto> i)\<rparr>
          in (Inr i, tx_send (RegisterEndpoint e) s2))"

definition register_ready_notifier :: "u16 \<Rightarrow> control \<Rightarrow> ready_notifier result \<times> control" where
  "register_ready_notifier e s =
     (case pending_ready s e of
        Some (AwaitingRemote _) \<Rightarrow>
          (Inl (control_error (''Endpoint already registered for ready notifications: ''
                 @ string_of_hex (unat e))), s)
      | Some AwaitingLocal \<Rightarrow>
          let s1 = s\<lparr>pending_ready := (pending_ready s)(e := None)\<rparr>;
              (i, s2) = oneshot s1;
              (r, s3) = shot_send ''Ready sender error'' i s2
          in (and_then r (\<lambda>_. Inr \<lparr>rn_endpoint = e, rn_shot = i, rn_used = False\<rparr>), s3)
      | None \<Rightarrow>
          let (i, s1) = oneshot s
          in (Inr \<lparr>rn_endpoint = e, rn_shot = i, rn_used = False\<rparr>,
              s1\<lparr>pending_ready := (pending_ready s1)(e \<mapsto> AwaitingRemote i)\<rparr>))"

text \<open>\<open>ReadyNotifier::ready\<close> up to the point where it waits for the other peer.\<close>

definition notify_ready :: "ready_notifier \<Rightarrow> control \<Rightarrow> ready_notifier \<times> control" where
  "notify_ready n s = (n\<lparr>rn_used := True\<rparr>, tx_send (Ready (rn_endpoint n)) s)"

fun handle_msg :: "control_msg \<Rightarrow> control \<Rightarrow> unit result \<times> control" where
  "handle_msg (RegisterEndpoint e) s =
     (if e \<in> pending_connect s
      then (Inl (control_error (''Endpoint already registered: '' @ string_of_hex (unat e))), s)
      else (Inr (), tx_send (EndpointRegistered e) (s\<lparr>pending_connect := insert e (pending_connect s)\<rparr>)))"
| "handle_msg (EndpointRegistered e) s =
     (let s1 = s\<lparr>pending_register_ack := (pending_register_ack s)(e := None)\<rparr> in
      case pending_register_ack s e of
        Some i \<Rightarrow> shot_send ''Endpoint registered sender error'' i s1
      | None \<Rightarrow> (Inl (control_error (''Received unexpected registration ack for endpoint ''
                  @ string_of_hex (unat e))), s1))"
| "handle_msg (Ready e) s =
     (let s1 = s\<lparr>pending_ready := (pending_ready s)(e := None)\<rparr> in
      case pending_ready s e of
        Some (AwaitingRemote i) \<Rightarrow> shot_send ''Ready sender error'' i s1
      | Some AwaitingLocal \<Rightarrow>
          (Inl (control_error (''Received multiple ready notifications for endpoint ''
             @ string_of_hex (unat e))), s1)
      | None \<Rightarrow> (Inr (), s1\<lparr>pending_ready := (pending_ready s1)(e \<mapsto> AwaitingLocal)\<rparr>))"

section \<open>Messages on the wire\<close>

definition send_msg :: "(control_msg \<Rightarrow> bytes result) \<Rightarrow> control_msg \<Rightarrow> writer \<Rightarrow> unit result \<times> writer" where
  "send_msg to_vec msg tx =
     (case to_vec msg of
        Inl e \<Rightarrow> (Inl (control_error_from e), tx)
      | Inr buf \<Rightarrow>
          if 2 ^ 32 \<le> length buf then (Inl (Panic ''called `Result::unwrap()` on an `Err` value''), tx)
          else apfst (map_err control_error_from)
            (then_write (then_write (write_all (put_u32 (of_nat (length buf))) tx) (write_all buf)) flush))"

fun cannot_decode :: "fault \<Rightarrow> fault" where
  "cannot_decode (ProtocolError e) = ProtocolError (''Cannot decode serde message: '' @ e)"
| "cannot_decode e = e"

definition recv_msg ::
  "(bytes \<Rightarrow> control_msg result) \<Rightarrow> reader \<Rightarrow> (control_msg \<times> reader) option result" where
  "recv_msg from_slice rx =
     map_err control_error_from
       (read_or_eof 4 rx (\<lambda>len rx1.
        read_or_eof (unat (get_u32 len)) rx1 (\<lambda>buf rx2.
        and_then (map_err cannot_decode (from_slice buf)) (\<lambda>msg. Inr (Some (msg, rx2))))))"

fun send_msgs :: "(control_msg \<Rightarrow> bytes result) \<Rightarrow> control_msg list \<Rightarrow> writer \<Rightarrow> unit result \<times> writer" where
  "send_msgs to_vec [] tx = (Inr (), tx)"
| "send_msgs to_vec (m # ms) tx = then_write (send_msg to_vec m tx) (send_msgs to_vec ms)"

text \<open>\<open>recv_msgs\<close>: a message that cannot be handled is not fatal.\<close>

lemma recv_msg_progress:
  assumes "recv_msg from_slice rx = Inr (Some (m, rx'))"
  shows "length (rbuf rx') < length (rbuf rx)"
  using assms
  by (auto simp: recv_msg_def read_or_eof_Some and_then_eq_Inr)

function recv_msgs ::
  "(bytes \<Rightarrow> control_msg result) \<Rightarrow> reader \<Rightarrow> control \<Rightarrow> unit result \<times> control" where
  "recv_msgs from_slice rx s =
     (case recv_msg from_slice rx of
        Inl e \<Rightarrow> (Inl e, s)
      | Inr None \<Rightarrow> (Inr (), s)
      | Inr (Some (msg, rx')) \<Rightarrow> recv_msgs from_slice rx' (snd (handle_msg msg s)))"
  by pat_completeness auto
termination
  by (relation "measure (\<lambda>(f, rx, s). length (rbuf rx))") (auto dest: recv_msg_progress)

declare recv_msgs.simps [simp del]

section \<open>Framing\<close>

text \<open>What the message codec promises: a message encodes, shortly, and decodes to itself.\<close>

definition msg_codec_ok :: "(control_msg \<Rightarrow> bytes result) \<Rightarrow> (bytes \<Rightarrow> control_msg result) \<Rightarrow> bool" where
  "msg_codec_ok to_vec from_slice \<longleftrightarrow>
     (\<forall>m. \<exists>buf. to_vec m = Inr buf \<and> length buf < 2 ^ 32 \<and> from_slice buf = Inr m)"

definition msg_bytes :: "(control_msg \<Rightarrow> bytes result) \<Rightarrow> control_msg \<Rightarrow> bytes" where
  "msg_bytes to_vec m = put_u32 (of_nat (length (projr (to_vec m)))) @ projr (to_vec m)"

lemma send_msgs_bytes:
  assumes "msg_codec_ok to_vec from_slice" "wcap w = None"
  shows "send_msgs to_vec ms w = (Inr (), w\<lparr>wout := wout w @ concat (map (msg_bytes to_vec) ms)\<rparr>)"
  using assms(2)
proof (induction ms arbitrary: w)
  case (Cons m ms)
  obtain buf where buf: "to_vec m = Inr buf" "length buf < 2 ^ 32"
    using assms(1) by (auto simp: msg_codec_ok_def)
  have "send_msg to_vec m w = (Inr (), w\<lparr>wout := wout w @ msg_bytes to_vec m\<rparr>)"
    using buf Cons.prems by (simp add: send_msg_def msg_bytes_def write_all_def flush_def)
  with Cons show ?case by simp
qed simp

lemma recv_msg_bytes:
  assumes "msg_codec_ok to_vec from_slice" "rbuf rx = msg_bytes to_vec m @ rest"
  shows "recv_msg from_slice rx = Inr (Some (m, rx\<lparr>rbuf := rest\<rparr>))"
proof -
  obtain buf where buf: "to_vec m = Inr buf" "length buf < 2 ^ 32" "from_slice buf = Inr m"
    using assms(1) unfolding msg_codec_ok_def by blast
  have "unat (of_nat (length buf) :: u32) = length buf" using buf(2) by (simp add: unat_of_nat)
  with buf assms(2) show ?thesis
    by (simp add: recv_msg_def msg_bytes_def read_or_eof_append
        [where bs = "put_u32 (of_nat (length buf))" and rest = "buf @ rest"]
        read_or_eof_append [where bs = buf and rest = rest])
qed

lemma recv_msgs_bytes:
  assumes "msg_codec_ok to_vec from_slice" "rbuf rx = concat (map (msg_bytes to_vec) ms)" "rerr rx = None"
  shows "recv_msgs from_slice rx s = (Inr (), foldl (\<lambda>s m. snd (handle_msg m s)) s ms)"
  using assms(2,3)
proof (induction ms arbitrary: rx s)
  case Nil
  then show ?case
    by (subst recv_msgs.simps) (simp add: recv_msg_def read_or_eof_at_end)
next
  case (Cons m ms)
  then have "recv_msg from_slice rx = Inr (Some (m, rx\<lparr>rbuf := concat (map (msg_bytes to_vec) ms)\<rparr>))"
    by (intro recv_msg_bytes [OF assms(1)]) simp
  with Cons show ?case by (subst recv_msgs.simps) simp
qed

section \<open>Two peers\<close>

text \<open>
  Each peer has its control state and the notifiers its drivers hold. What a peer has
  queued or written and the other has not yet handled is the list \<open>control_out\<close>, in order. The
  drivers ask for one notifier per endpoint, since ids are not reused.
\<close>

record peer =
  p_ctl :: control
  p_notifiers :: "ready_notifier list"

type_synonym peers = "bool \<Rightarrow> peer"

definition peers_start :: peers where
  "peers_start b = \<lparr>p_ctl = control_start, p_notifiers = []\<rparr>"

definition deliver :: "bool \<Rightarrow> peers \<Rightarrow> peers" where
  "deliver b S =
     (case control_out (p_ctl (S b)) of
        [] \<Rightarrow> S
      | m # ms \<Rightarrow>
          S(b := (S b)\<lparr>p_ctl := (p_ctl (S b))\<lparr>control_out := ms\<rparr>\<rparr>,
            \<not> b := (S (\<not> b))\<lparr>p_ctl := snd (handle_msg m (p_ctl (S (\<not> b))))\<rparr>))"

inductive peers_step :: "peers \<Rightarrow> peers \<Rightarrow> bool" where
  announce: "register_endpoint e (p_ctl (S b)) = (Inr i, c) \<Longrightarrow>
     peers_step S (S(b := (S b)\<lparr>p_ctl := c\<rparr>))"
| notifier: "e \<notin> rn_endpoint ` set (p_notifiers (S b)) \<Longrightarrow>
     register_ready_notifier e (p_ctl (S b)) = (Inr n, c) \<Longrightarrow>
     peers_step S (S(b := (S b)\<lparr>p_ctl := c, p_notifiers := p_notifiers (S b) @ [n]\<rparr>))"
| ready: "j < length (p_notifiers (S b)) \<Longrightarrow> \<not> rn_used (p_notifiers (S b) ! j) \<Longrightarrow>
     notify_ready (p_notifiers (S b) ! j) (p_ctl (S b)) = (n, c) \<Longrightarrow>
     peers_step S (S(b := (S b)\<lparr>p_ctl := c, p_notifiers := (p_notifiers (S b))[j := n]\<rparr>))"
| deliver: "control_out (p_ctl (S b)) \<noteq> [] \<Longrightarrow> peers_step S (deliver b S)"

text \<open>
  What holds of one direction, from a peer \<open>q\<close> that may become ready to a peer \<open>p\<close> that
  waits: \<open>Ready\<close> is at most once under way and only if \<open>q\<close> called \<open>ready\<close>; it was handled by
  \<open>p\<close> when it was sent and is not under way any more.
\<close>

definition is_ready :: "u16 \<Rightarrow> peer \<Rightarrow> bool" where
  "is_ready e q \<longleftrightarrow> (\<exists>n \<in> set (p_notifiers q). rn_endpoint n = e \<and> rn_used n)"

definition under_way :: "u16 \<Rightarrow> peer \<Rightarrow> nat" where
  "under_way e q = count_list (control_out (p_ctl q)) (Ready e)"

definition handled :: "u16 \<Rightarrow> peer \<Rightarrow> bool" where
  "handled e q \<longleftrightarrow> is_ready e q \<and> under_way e q = 0"

definition peer_inv :: "peer \<Rightarrow> bool" where
  "peer_inv p \<longleftrightarrow>
     distinct (map rn_endpoint (p_notifiers p))
     \<and> (\<forall>n \<in> set (p_notifiers p). rn_shot n < length (shots (p_ctl p)))
     \<and> (\<forall>n \<in> set (p_notifiers p). \<forall>e. pending_register_ack (p_ctl p) e \<noteq> Some (rn_shot n))
     \<and> (\<forall>e i. pending_register_ack (p_ctl p) e = Some i \<longrightarrow> i < length (shots (p_ctl p)))
     \<and> distinct (map rn_shot (p_notifiers p))"

definition link_inv :: "peer \<Rightarrow> peer \<Rightarrow> bool" where
  "link_inv q p \<longleftrightarrow>
     (\<forall>e. under_way e q \<le> 1 \<and> (under_way e q = 1 \<longrightarrow> is_ready e q)
        \<and> (e \<notin> rn_endpoint ` set (p_notifiers p) \<longrightarrow>
             pending_ready (p_ctl p) e = (if handled e q then Some AwaitingLocal else None)))
     \<and> (\<forall>n \<in> set (p_notifiers p).
          pending_ready (p_ctl p) (rn_endpoint n)
            = (if handled (rn_endpoint n) q then None else Some (AwaitingRemote (rn_shot n)))
          \<and> shots (p_ctl p) ! rn_shot n = (if handled (rn_endpoint n) q then Fired else Waiting))"

definition peers_inv :: "peers \<Rightarrow> bool" where
  "peers_inv S \<longleftrightarrow> (\<forall>b. peer_inv (S b) \<and> link_inv (S b) (S (\<not> b)))"

lemma peers_invD: "peers_inv S \<Longrightarrow> peer_inv (S b) \<and> link_inv (S b) (S (\<not> b))"
  by (simp add: peers_inv_def)

lemma peers_invI:
  "peer_inv (S b) \<Longrightarrow> peer_inv (S (\<not> b)) \<Longrightarrow> link_inv (S b) (S (\<not> b)) \<Longrightarrow> link_inv (S (\<not> b)) (S b)
     \<Longrightarrow> peers_inv S"
  by (auto simp: peers_inv_def all_bool_eq) (cases b; simp)+

text \<open>A step of the waiting side does not disturb the link when it keeps what the link sees.\<close>

lemma link_inv_cong:
  assumes "link_inv q p"
    and "\<And>e. is_ready e q' = is_ready e q" "\<And>e. under_way e q' = under_way e q"
    and "p_notifiers p' = p_notifiers p" "pending_ready (p_ctl p') = pending_ready (p_ctl p)"
    and "\<forall>n \<in> set (p_notifiers p). shots (p_ctl p') ! rn_shot n = shots (p_ctl p) ! rn_shot n"
  shows "link_inv q' p'"
  using assms unfolding link_inv_def handled_def by simp

lemma link_inv_notifiers:
  assumes "link_inv q p" "rn_endpoint ` set (p_notifiers p') = rn_endpoint ` set (p_notifiers p)"
    and "\<And>x. x \<in> set (p_notifiers p') \<Longrightarrow>
           \<exists>m \<in> set (p_notifiers p). rn_endpoint m = rn_endpoint x \<and> rn_shot m = rn_shot x"
    and "pending_ready (p_ctl p') = pending_ready (p_ctl p)" "shots (p_ctl p') = shots (p_ctl p)"
  shows "link_inv q p'"
proof -
  have "pending_ready (p_ctl p') (rn_endpoint x)
        = (if handled (rn_endpoint x) q then None else Some (AwaitingRemote (rn_shot x)))
      \<and> shots (p_ctl p') ! rn_shot x = (if handled (rn_endpoint x) q then Fired else Waiting)"
    if x: "x \<in> set (p_notifiers p')" for x
  proof -
    obtain m where "m \<in> set (p_notifiers p)" "rn_endpoint m = rn_endpoint x" "rn_shot m = rn_shot x"
      using assms(3) [OF x] by blast
    with assms(1,4,5) show ?thesis unfolding link_inv_def by metis
  qed
  with assms(1,2,4) show ?thesis by (simp add: link_inv_def)
qed

lemma shot_send_simps [simp]:
  "control_out (snd (shot_send m i s)) = control_out s"
  "pending_ready (snd (shot_send m i s)) = pending_ready s"
  "pending_register_ack (snd (shot_send m i s)) = pending_register_ack s"
  "length (shots (snd (shot_send m i s))) = length (shots s)"
  "j \<noteq> i \<Longrightarrow> shots (snd (shot_send m i s)) ! j = shots s ! j"
  by (simp_all add: shot_send_def)

lemma handle_msg_out: "count_list (control_out (snd (handle_msg m s))) (Ready e) = count_list (control_out s) (Ready e)"
  by (cases m) (auto simp: tx_send_def Let_def split: option.splits pending_ready.splits)

lemma handle_msg_peer:
  assumes "peer_inv p"
  shows "peer_inv (p\<lparr>p_ctl := snd (handle_msg m (p_ctl p))\<rparr>)"
  using assms
  by (cases m) (auto simp: peer_inv_def tx_send_def Let_def split: option.splits pending_ready.splits)

text \<open>Handling a message that is not \<open>Ready\<close> changes nothing that the link looks at.\<close>

lemma handle_other_link:
  assumes "peer_inv p" "link_inv q p" "\<forall>e. m \<noteq> Ready e" "control_out (p_ctl q) = m # ms"
  shows "link_inv (q\<lparr>p_ctl := (p_ctl q)\<lparr>control_out := ms\<rparr>\<rparr>) (p\<lparr>p_ctl := snd (handle_msg m (p_ctl p))\<rparr>)"
proof (rule link_inv_cong [OF assms(2)])
  show "pending_ready (p_ctl (p\<lparr>p_ctl := snd (handle_msg m (p_ctl p))\<rparr>)) = pending_ready (p_ctl p)"
    using assms(3) by (cases m) (auto simp: tx_send_def Let_def split: option.splits)
  show "\<forall>n \<in> set (p_notifiers p). shots (p_ctl (p\<lparr>p_ctl := snd (handle_msg m (p_ctl p))\<rparr>)) ! rn_shot n
      = shots (p_ctl p) ! rn_shot n"
  proof (cases m)
    case (EndpointRegistered e)
    show ?thesis
    proof (cases "pending_register_ack (p_ctl p) e")
      case (Some i)
      then have "\<forall>n \<in> set (p_notifiers p). rn_shot n \<noteq> i" using assms(1) by (auto simp: peer_inv_def)
      with EndpointRegistered Some show ?thesis by (simp add: Let_def)
    qed (simp add: EndpointRegistered Let_def)
  qed (use assms(3) in \<open>auto simp: tx_send_def\<close>)
qed (use assms(3,4) in \<open>auto simp: under_way_def is_ready_def\<close>)

lemma handle_ready_link:
  assumes "peer_inv p" "link_inv q p" "control_out (p_ctl q) = Ready e # ms"
  shows "link_inv (q\<lparr>p_ctl := (p_ctl q)\<lparr>control_out := ms\<rparr>\<rparr>)
           (p\<lparr>p_ctl := snd (handle_msg (Ready e) (p_ctl p))\<rparr>)"
    (is "link_inv ?q _")
proof -
  define c where "c = snd (handle_msg (Ready e) (p_ctl p))"
  let ?p = "p\<lparr>p_ctl := c\<rparr>"
  have u: "under_way e q = Suc (under_way e ?q)" "\<And>e'. e' \<noteq> e \<Longrightarrow> under_way e' ?q = under_way e' q"
    using assms(3) by (auto simp: under_way_def)
  have "under_way e q \<le> 1" using assms(2) by (simp add: link_inv_def)
  then have one: "under_way e q = 1" and u0: "under_way e ?q = 0" using u(1) by simp_all
  have r: "is_ready e' ?q = is_ready e' q" for e' by (simp add: is_ready_def)
  have re: "is_ready e q" using one assms(2) unfolding link_inv_def by blast
  have h: "handled e' ?q = (e' = e \<or> handled e' q)" for e'
    using re u0 u(2) [of e'] r by (cases "e' = e") (simp_all add: handled_def)
  have nh: "\<not> handled e q" using one by (simp add: handled_def)
  have le: "under_way e' ?q \<le> 1 \<and> (under_way e' ?q = 1 \<longrightarrow> is_ready e' ?q)" for e'
    using assms(2) u0 u(2) [of e'] r [of e'] unfolding link_inv_def by (cases "e' = e") auto
  have pend: "pending_ready (p_ctl p) e' = (if handled e' q then Some AwaitingLocal else None)"
    if "e' \<notin> rn_endpoint ` set (p_notifiers p)" for e'
    using assms(2) that by (simp add: link_inv_def)
  have notif: "pending_ready (p_ctl p) (rn_endpoint n)
        = (if handled (rn_endpoint n) q then None else Some (AwaitingRemote (rn_shot n)))"
      "shots (p_ctl p) ! rn_shot n = (if handled (rn_endpoint n) q then Fired else Waiting)"
      "rn_shot n < length (shots (p_ctl p))" if "n \<in> set (p_notifiers p)" for n
    using assms(1,2) that by (simp_all add: link_inv_def peer_inv_def)
  have inj: "rn_endpoint n = rn_endpoint n' \<Longrightarrow> n = n'" "rn_shot n = rn_shot n' \<Longrightarrow> n = n'"
    if "n \<in> set (p_notifiers p)" "n' \<in> set (p_notifiers p)" for n n'
    using assms(1) that by (auto simp: peer_inv_def distinct_map inj_on_def)
  have "link_inv ?q ?p"
  proof (cases "e \<in> rn_endpoint ` set (p_notifiers p)")
    case True
    then obtain n where n: "n \<in> set (p_notifiers p)" "rn_endpoint n = e" by auto
    have s: "c = (p_ctl p)\<lparr>pending_ready := (pending_ready (p_ctl p))(e := None),
        shots := (shots (p_ctl p))[rn_shot n := Fired]\<rparr>"
      using notif [OF n(1)] n(2) nh by (simp add: c_def Let_def shot_send_def)
    have sh: "shots (p_ctl ?p) ! rn_shot n' = (if n' = n then Fired else shots (p_ctl p) ! rn_shot n')"
      if "n' \<in> set (p_notifiers p)" for n'
      using s inj(2) [OF n(1) that] notif(3) [OF n(1)]
      by (cases "rn_shot n = rn_shot n'") auto
    show ?thesis
      unfolding link_inv_def
    proof (intro conjI allI ballI, goal_cases)
      case (3 e')
      then show ?case using pend [of e'] True h [of e'] by (auto simp: s)
    next
      case (4 n')
      then have "n' \<noteq> n \<longrightarrow> rn_endpoint n' \<noteq> e" using inj(1) [of n' n] n by auto
      with 4 show ?case
        using notif(1) [of n'] n(2) h [of "rn_endpoint n'"] by (cases "n' = n") (simp_all add: s)
    next
      case (5 n')
      then have "n' \<noteq> n \<longrightarrow> rn_endpoint n' \<noteq> e" using inj(1) [of n' n] n by auto
      with 5 show ?case
        using notif(2) [of n'] sh [of n'] n(2) h [of "rn_endpoint n'"] by (cases "n' = n") simp_all
    qed (use le in auto)
  next
    case False
    have s: "c = (p_ctl p)\<lparr>pending_ready := (pending_ready (p_ctl p))(e \<mapsto> AwaitingLocal)\<rparr>"
      using pend [OF False] nh by (simp add: c_def Let_def)
    show ?thesis
      unfolding link_inv_def
    proof (intro conjI allI ballI, goal_cases)
      case (3 e')
      then show ?case using pend [of e'] h [of e'] by (auto simp: s)
    next
      case (4 n')
      then show ?case using notif(1) [of n'] False h [of "rn_endpoint n'"] by (auto simp: s)
    next
      case (5 n')
      then show ?case using notif(2) [of n'] False h [of "rn_endpoint n'"] by (auto simp: s)
    qed (use le in auto)
  qed
  then show ?thesis by (simp only: c_def)
qed

lemma deliver_inv:
  assumes "peers_inv S" "control_out (p_ctl (S b)) = m # ms"
  shows "peers_inv (deliver b S)"
proof -
  let ?q = "(S b)\<lparr>p_ctl := (p_ctl (S b))\<lparr>control_out := ms\<rparr>\<rparr>"
  let ?p = "(S (\<not> b))\<lparr>p_ctl := snd (handle_msg m (p_ctl (S (\<not> b))))\<rparr>"
  have i: "peer_inv (S b)" "peer_inv (S (\<not> b))" "link_inv (S b) (S (\<not> b))" "link_inv (S (\<not> b)) (S b)"
    using peers_invD [OF assms(1), of b] peers_invD [OF assms(1), of "\<not> b"] by simp_all
  have "link_inv ?q ?p"
    using handle_ready_link [OF i(2,3)] handle_other_link [OF i(2,3) _ assms(2)] assms(2) by (cases "\<forall>e. m \<noteq> Ready e") blast+
  moreover have "link_inv ?p ?q"
    by (rule link_inv_cong [OF i(4)]) (auto simp: is_ready_def under_way_def handle_msg_out)
  moreover have "peer_inv ?q" "peer_inv ?p"
    using i(1) handle_msg_peer [OF i(2)] by (simp_all add: peer_inv_def)
  moreover have "deliver b S b = ?q" "deliver b S (\<not> b) = ?p" by (simp_all add: deliver_def assms(2))
  ultimately show ?thesis by (intro peers_invI [of _ b]) simp_all
qed

text \<open>The local steps of peer \<open>b\<close>: nothing the other direction looks at changes, except what is sent.\<close>

lemma local_inv:
  assumes "peers_inv S" "peer_inv p" "link_inv p (S (\<not> b))" "link_inv (S (\<not> b)) p"
  shows "peers_inv (S(b := p))"
  using assms peers_invD [OF assms(1), of "\<not> b"] by (intro peers_invI [of _ b]) auto

lemma announce_inv:
  assumes "peers_inv S" "register_endpoint e (p_ctl (S b)) = (Inr i, c)"
  shows "peers_inv (S(b := (S b)\<lparr>p_ctl := c\<rparr>))"
proof -
  have c: "c = (p_ctl (S b))\<lparr>shots := shots (p_ctl (S b)) @ [Waiting],
      pending_register_ack := (pending_register_ack (p_ctl (S b)))(e \<mapsto> length (shots (p_ctl (S b)))),
      control_out := control_out (p_ctl (S b)) @ [RegisterEndpoint e]\<rparr>"
    using assms(2) by (auto simp: register_endpoint_def oneshot_def tx_send_def Let_def split: option.splits)
  note i = peers_invD [OF assms(1), of b] peers_invD [OF assms(1), of "\<not> b"]
  have p: "peer_inv (S b)" "link_inv (S (\<not> b)) (S b)" using i by simp_all
  show ?thesis
  proof (rule local_inv [OF assms(1)])
    show "peer_inv ((S b)\<lparr>p_ctl := c\<rparr>)" using p(1) by (auto simp: peer_inv_def c less_Suc_eq)
    show "link_inv ((S b)\<lparr>p_ctl := c\<rparr>) (S (\<not> b))"
      by (rule link_inv_cong [OF conjunct2 [OF i(1)]]) (auto simp: is_ready_def under_way_def c)
    show "link_inv (S (\<not> b)) ((S b)\<lparr>p_ctl := c\<rparr>)"
      by (rule link_inv_cong [OF p(2)]) (use p(1) in \<open>auto simp: c peer_inv_def nth_append\<close>)
  qed
qed

lemma notifier_inv:
  assumes "peers_inv S" "e \<notin> rn_endpoint ` set (p_notifiers (S b))"
    and "register_ready_notifier e (p_ctl (S b)) = (Inr n, c)"
  shows "peers_inv (S(b := (S b)\<lparr>p_ctl := c, p_notifiers := p_notifiers (S b) @ [n]\<rparr>))"
    (is "peers_inv (S(b := ?p))")
proof -
  let ?s = "p_ctl (S b)" and ?h = "handled e (S (\<not> b))"
  note i = peers_invD [OF assms(1), of b] peers_invD [OF assms(1), of "\<not> b"]
  have p: "peer_inv (S b)" and l: "link_inv (S (\<not> b)) (S b)" using i by simp_all
  have pend: "pending_ready ?s e = (if ?h then Some AwaitingLocal else None)"
    using l assms(2) by (simp add: link_inv_def)
  have n: "n = \<lparr>rn_endpoint = e, rn_shot = length (shots ?s), rn_used = False\<rparr>"
    and c: "c = ?s\<lparr>pending_ready := (pending_ready ?s)(e := if ?h then None else Some (AwaitingRemote (length (shots ?s)))),
      shots := shots ?s @ [if ?h then Fired else Waiting]\<rparr>"
    using assms(3) pend
    by (auto simp: register_ready_notifier_def oneshot_def shot_send_def Let_def nth_append split: if_splits)
  have lt: "rn_shot m < length (shots ?s)" if "m \<in> set (p_notifiers (S b))" for m
    using p that by (simp add: peer_inv_def)
  show ?thesis
  proof (rule local_inv [OF assms(1)])
    show "peer_inv ?p"
      using p assms(2) by (auto simp: peer_inv_def c n less_Suc_eq)
    show "link_inv ?p (S (\<not> b))"
      by (rule link_inv_cong [OF conjunct2 [OF i(1)]]) (auto simp: is_ready_def under_way_def c n)
    show "link_inv (S (\<not> b)) ?p"
      using l assms(2) lt unfolding link_inv_def by (auto simp: c n nth_append image_iff)
  qed
qed

lemma ready_inv:
  assumes "peers_inv S" "j < length (p_notifiers (S b))" "\<not> rn_used (p_notifiers (S b) ! j)"
    and "notify_ready (p_notifiers (S b) ! j) (p_ctl (S b)) = (n, c)"
  shows "peers_inv (S(b := (S b)\<lparr>p_ctl := c, p_notifiers := (p_notifiers (S b))[j := n]\<rparr>))"
    (is "peers_inv (S(b := ?p))")
proof -
  let ?s = "p_ctl (S b)" and ?ns = "p_notifiers (S b)"
  let ?e = "rn_endpoint (?ns ! j)"
  note i = peers_invD [OF assms(1), of b] peers_invD [OF assms(1), of "\<not> b"]
  have p: "peer_inv (S b)" and l: "link_inv (S (\<not> b)) (S b)" and k: "link_inv (S b) (S (\<not> b))"
    using i by simp_all
  have n: "n = (?ns ! j)\<lparr>rn_used := True\<rparr>" and c: "c = tx_send (Ready ?e) ?s"
    using assms(4) by (auto simp: notify_ready_def)
  have m: "map rn_endpoint (?ns[j := n]) = map rn_endpoint ?ns" "map rn_shot (?ns[j := n]) = map rn_shot ?ns"
    using assms(2) by (simp_all add: n map_update list_update_same_conv)
  have nr: "\<not> is_ready ?e (S b)"
    using p assms(2,3) unfolding is_ready_def peer_inv_def
    by (metis distinct_map in_set_conv_nth inj_onD nth_mem)
  have u0: "under_way ?e (S b) = 0"
    using k nr unfolding link_inv_def by (metis le_antisym less_one linorder_not_less)
  have r: "is_ready e ?p = (e = ?e \<or> is_ready e (S b))" for e
  proof -
    have "set (?ns[j := n]) = insert n (set ?ns - {?ns ! j})"
      using p assms(2) by (intro set_update_distinct) (auto simp: peer_inv_def distinct_map)
    with assms(3) n show ?thesis by (auto simp: is_ready_def)
  qed
  have u: "under_way e ?p = (if e = ?e then 1 else under_way e (S b))" for e
    using u0 by (simp add: under_way_def c tx_send_def)
  have h: "handled e ?p = handled e (S b)" for e
    using r u nr by (simp add: handled_def)
  show ?thesis
  proof (rule local_inv [OF assms(1)])
    have "set (?ns[j := n]) \<subseteq> insert n (set ?ns)" by (rule set_update_subset_insert)
    moreover have "rn_shot n = rn_shot (?ns ! j)" "?ns ! j \<in> set ?ns" using n assms(2) by simp_all
    ultimately have "rn_shot ` set (?ns[j := n]) \<subseteq> rn_shot ` set ?ns" by auto
    with p m show "peer_inv ?p" by (auto simp: peer_inv_def c tx_send_def)
    show "link_inv ?p (S (\<not> b))"
      using k r u h unfolding link_inv_def by simp
    show "link_inv (S (\<not> b)) ?p"
    proof -
      have "\<exists>m \<in> set ?ns. rn_endpoint m = rn_endpoint x \<and> rn_shot m = rn_shot x"
        if "x \<in> set (?ns[j := n])" for x
      proof -
        have "x = n \<or> x \<in> set ?ns" using that set_update_subset_insert [of ?ns j n] by blast
        then show ?thesis using n assms(2) nth_mem [OF assms(2)] by fastforce
      qed
      moreover have "rn_endpoint ` set (?ns[j := n]) = rn_endpoint ` set ?ns"
        using m(1) by (metis list.set_map)
      ultimately show ?thesis by (intro link_inv_notifiers [OF l]) (auto simp: c tx_send_def)
    qed
  qed
qed

lemma peers_step_inv: "peers_step S S' \<Longrightarrow> peers_inv S \<Longrightarrow> peers_inv S'"
proof (induction rule: peers_step.induct)
  case (deliver S b)
  then show ?case using deliver_inv by (cases "control_out (p_ctl (S b))") auto
qed (simp_all add: announce_inv notifier_inv ready_inv)

lemma peers_reachable_inv: "peers_step\<^sup>*\<^sup>* peers_start S \<Longrightarrow> peers_inv S"
proof (induction rule: rtranclp_induct)
  case base
  then show ?case
    by (simp add: peers_inv_def peers_start_def peer_inv_def link_inv_def control_start_def
        handled_def is_ready_def under_way_def)
qed (rule peers_step_inv)

section \<open>Properties\<close>

text \<open>Every delivery makes the messages under way lighter, so that deliveries come to an end.\<close>

fun msg_weight :: "control_msg \<Rightarrow> nat" where
  "msg_weight (RegisterEndpoint e) = 2"
| "msg_weight m = 1"

definition out_weight :: "peer \<Rightarrow> nat" where
  "out_weight p = sum_list (map msg_weight (control_out (p_ctl p)))"

definition delivery :: "peers \<Rightarrow> peers \<Rightarrow> bool" where
  "delivery S S' \<longleftrightarrow> (\<exists>b. control_out (p_ctl (S b)) \<noteq> [] \<and> S' = deliver b S)"

lemma delivery_step: "delivery S S' \<Longrightarrow> peers_step S S'"
  by (auto simp: delivery_def intro: peers_step.deliver)

lemma delivery_notifiers: "delivery S S' \<Longrightarrow> p_notifiers (S' b) = p_notifiers (S b)"
proof -
  assume "delivery S S'"
  then obtain c m ms where "control_out (p_ctl (S c)) = m # ms" "S' = deliver c S"
    by (auto simp: delivery_def neq_Nil_conv)
  then show "p_notifiers (S' b) = p_notifiers (S b)" by (simp add: deliver_def)
qed

lemma handle_msg_weight:
  "sum_list (map msg_weight (control_out (snd (handle_msg m s))))
     < sum_list (map msg_weight (control_out s)) + msg_weight m"
  by (cases m) (auto simp: tx_send_def Let_def split: option.splits pending_ready.splits)

lemma delivery_weight:
  assumes "delivery S S'"
  shows "out_weight (S' True) + out_weight (S' False) < out_weight (S True) + out_weight (S False)"
proof -
  obtain b m ms where b: "control_out (p_ctl (S b)) = m # ms" and S': "S' = deliver b S"
    using assms by (auto simp: delivery_def neq_Nil_conv)
  have "out_weight (S' b) + out_weight (S' (\<not> b)) < out_weight (S b) + out_weight (S (\<not> b))"
    using handle_msg_weight [of m "p_ctl (S (\<not> b))"] b by (simp add: S' deliver_def out_weight_def)
  then show ?thesis by (cases b) simp_all
qed

lemma deliveries_end:
  "\<exists>S'. delivery\<^sup>*\<^sup>* S S' \<and> (\<forall>b. control_out (p_ctl (S' b)) = []) \<and> (\<forall>b. p_notifiers (S' b) = p_notifiers (S b))"
proof (induction "out_weight (S True) + out_weight (S False)" arbitrary: S rule: less_induct)
  case less
  show ?case
  proof (cases "\<forall>b. control_out (p_ctl (S b)) = []")
    case False
    then obtain b where "control_out (p_ctl (S b)) \<noteq> []" by blast
    then have d: "delivery S (deliver b S)" by (auto simp: delivery_def)
    from less [OF delivery_weight [OF d]] delivery_notifiers [OF d] show ?thesis
      by (metis converse_rtranclp_into_rtranclp d)
  qed blast
qed

lemma notifier_fired_iff:
  assumes "peers_inv S" "n \<in> set (p_notifiers (S b))"
  shows "shots (p_ctl (S b)) ! rn_shot n = Fired \<longleftrightarrow>
     is_ready (rn_endpoint n) (S (\<not> b)) \<and> Ready (rn_endpoint n) \<notin> set (control_out (p_ctl (S (\<not> b))))"
proof -
  have "link_inv (S (\<not> b)) (S b)" using peers_invD [OF assms(1), of "\<not> b"] by simp
  then have "shots (p_ctl (S b)) ! rn_shot n = (if handled (rn_endpoint n) (S (\<not> b)) then Fired else Waiting)"
    using assms(2) by (simp add: link_inv_def)
  then show ?thesis by (simp add: handled_def under_way_def count_list_0_iff)
qed

text \<open>
  C18: The two peers meet at an endpoint. Whatever the order in which they announce
  endpoints, ask for notifiers, become ready and handle each other's messages, a peer that
  waits for an endpoint is released only if the other peer has declared itself ready for
  it, and it is released once that declaration has been handled, even if it came before this
  peer asked. From every state the messages under way can be handled to the last, and then
  everyone whose partner is ready has been released.
\<close>

theorem peers_meet:
  assumes "peers_step\<^sup>*\<^sup>* peers_start S"
  shows "(\<forall>n \<in> set (p_notifiers (S b)). shots (p_ctl (S b)) ! rn_shot n = Fired \<longleftrightarrow>
            is_ready (rn_endpoint n) (S (\<not> b))
            \<and> Ready (rn_endpoint n) \<notin> set (control_out (p_ctl (S (\<not> b)))))
       \<and> (\<exists>S'. delivery\<^sup>*\<^sup>* S S' \<and> (\<forall>c. control_out (p_ctl (S' c)) = [])
            \<and> (\<forall>c. \<forall>n \<in> set (p_notifiers (S c)). is_ready (rn_endpoint n) (S (\<not> c)) \<longrightarrow>
                  shots (p_ctl (S' c)) ! rn_shot n = Fired))"
proof -
  have i: "peers_inv S" by (rule peers_reachable_inv [OF assms])
  obtain S' where S': "delivery\<^sup>*\<^sup>* S S'" "\<forall>c. control_out (p_ctl (S' c)) = []"
    "\<forall>c. p_notifiers (S' c) = p_notifiers (S c)"
    using deliveries_end [of S] by blast
  have "peers_step\<^sup>*\<^sup>* S S'" using S'(1) by (rule rtranclp_mono [THEN predicate2D, rotated]) (auto intro: delivery_step)
  then have "peers_inv S'" using peers_reachable_inv [of S'] assms by (meson rtranclp_trans)
  then have "shots (p_ctl (S' c)) ! rn_shot n = Fired"
    if "n \<in> set (p_notifiers (S c))" "is_ready (rn_endpoint n) (S (\<not> c))" for c n
    using notifier_fired_iff [of S' n c] that S'(2,3) by (simp add: is_ready_def)
  with S'(1,2) notifier_fired_iff [OF i] show ?thesis by blast
qed

text \<open>One peer is ready for endpoint 7 before the other asks for it.\<close>

theorem peers_meet_witness:
  "\<exists>S S'. peers_step\<^sup>*\<^sup>* peers_start S \<and> is_ready 7 (S True) \<and> rn_endpoint (p_notifiers (S False) ! 0) = 7
     \<and> delivery\<^sup>*\<^sup>* S S' \<and> shots (p_ctl (S' False)) ! 0 = Fired"
proof -
  define n where "n = \<lparr>rn_endpoint = 7, rn_shot = 0, rn_used = False\<rparr>"
  define c where "c = control_start\<lparr>shots := [Waiting], pending_ready := [7 \<mapsto> AwaitingRemote 0]\<rparr>"
  let ?A = "peers_start(True := \<lparr>p_ctl = c, p_notifiers = [n]\<rparr>)"
  let ?B = "?A(True := \<lparr>p_ctl = c\<lparr>control_out := [Ready 7]\<rparr>, p_notifiers = [n\<lparr>rn_used := True\<rparr>]\<rparr>)"
  let ?C = "?B(False := \<lparr>p_ctl = c, p_notifiers = [n]\<rparr>)"
  have reg: "register_ready_notifier 7 control_start = (Inr n, c)"
    by (simp add: n_def c_def control_start_def register_ready_notifier_def oneshot_def Let_def)
  have rdy: "notify_ready n c = (n\<lparr>rn_used := True\<rparr>, c\<lparr>control_out := [Ready 7]\<rparr>)"
    by (simp add: n_def c_def control_start_def notify_ready_def tx_send_def)
  have "peers_step peers_start ?A"
    using notifier [of 7 peers_start True n c] reg by (simp add: peers_start_def)
  moreover have "peers_step ?A ?B"
    using ready [of 0 ?A True "n\<lparr>rn_used := True\<rparr>" "c\<lparr>control_out := [Ready 7]\<rparr>"] rdy by (simp add: n_def)
  moreover have "peers_step ?B ?C"
    using notifier [of 7 ?B False n c] reg by (simp add: peers_start_def)
  ultimately have r: "peers_step\<^sup>*\<^sup>* peers_start ?C" by (meson rtranclp.intros)
  obtain S' where d: "delivery\<^sup>*\<^sup>* ?C S'"
    and f: "\<forall>c. \<forall>n \<in> set (p_notifiers (?C c)). is_ready (rn_endpoint n) (?C (\<not> c)) \<longrightarrow>
          shots (p_ctl (S' c)) ! rn_shot n = Fired"
    using peers_meet [OF r, of False] by blast
  have "shots (p_ctl (S' False)) ! 0 = Fired"
    using spec [OF f, of False] by (simp add: n_def is_ready_def)
  with d r show ?thesis
    by (intro exI [of _ ?C] exI [of _ S']) (simp add: n_def is_ready_def)
qed

text \<open>
  C19: Control messages survive the wire: whatever messages one peer sends, the other, reading
  the bytes from its stream, handles exactly these in their order and then sees the end of
  the stream, where a message it cannot handle does not stop it. (The message codec decodes
  what it encodes.)
\<close>

theorem control_stream_faithful:
  assumes "msg_codec_ok to_vec from_slice"
  shows "\<exists>w. send_msgs to_vec ms new_writer = (Inr (), w)
           \<and> recv_msgs from_slice \<lparr>rbuf = wout w, rerr = None\<rparr> s
             = (Inr (), foldl (\<lambda>s m. snd (handle_msg m s)) s ms)"
  using send_msgs_bytes [OF assms, of new_writer ms] recv_msgs_bytes [OF assms, of _ ms s]
  by (simp add: new_writer_def)

text \<open>A codec with one tag byte and the id.\<close>

fun sample_to_vec :: "control_msg \<Rightarrow> bytes result" where
  "sample_to_vec (RegisterEndpoint e) = Inr (0 # put_u16 e)"
| "sample_to_vec (EndpointRegistered e) = Inr (1 # put_u16 e)"
| "sample_to_vec (Ready e) = Inr (2 # put_u16 e)"

definition sample_from_slice :: "bytes \<Rightarrow> control_msg result" where
  "sample_from_slice bs =
     (if bs ! 0 = 0 then Inr (RegisterEndpoint (get_u16 (drop 1 bs)))
      else if bs ! 0 = 1 then Inr (EndpointRegistered (get_u16 (drop 1 bs)))
      else Inr (Ready (get_u16 (drop 1 bs))))"

theorem control_stream_faithful_witness:
  "\<exists>w. send_msgs sample_to_vec [Ready 7, Ready 7] new_writer = (Inr (), w)
     \<and> pending_ready (snd (recv_msgs sample_from_slice \<lparr>rbuf = wout w, rerr = None\<rparr> control_start)) 7 = None"
proof -
  have "msg_codec_ok sample_to_vec sample_from_slice"
    unfolding msg_codec_ok_def
  proof
    fix m
    show "\<exists>buf. sample_to_vec m = Inr buf \<and> length buf < 2 ^ 32 \<and> sample_from_slice buf = Inr m"
      by (cases m) (simp_all add: sample_from_slice_def)
  qed
  from control_stream_faithful [OF this, of "[Ready 7, Ready 7]" control_start] show ?thesis
    by (auto simp: control_start_def Let_def)
qed

end
