(* ===== verification/ClockSync.thy ===== *)
theory ClockSync
  imports Router
begin

text \<open>
  Clock synchronisation (\<open>protocol/clock_sync.rs\<close>): a request and response over datagrams
  with four time stamps, the estimates made of them, and their average. Times are
  microseconds in an \<open>i64\<close>; arithmetic wraps around as it does without overflow checks.
  \<open>clock::now_micros\<close> (\<open>clock.rs\<close>) is an argument of every operation that reads the clock.
\<close>

section \<open>Signed 64-bit integers\<close>

definition wrap64 :: "int \<Rightarrow> int" where
  "wrap64 x = (x + 2 ^ 63) mod 2 ^ 64 - 2 ^ 63"

definition in_i64 :: "int \<Rightarrow> bool" where
  "in_i64 x \<longleftrightarrow> - (2 ^ 63) \<le> x \<and> x < 2 ^ 63"

lemma wrap64_id [simp]: "in_i64 x \<Longrightarrow> wrap64 x = x"
  by (simp add: wrap64_def in_i64_def)

text \<open>Integer division rounds towards zero.\<close>

definition i64_div :: "int \<Rightarrow> int \<Rightarrow> int" where
  "i64_div a b = (if 0 \<le> a then a div b else - ((- a) div b))"

definition put_i64 :: "int \<Rightarrow> bytes" where
  "put_i64 t = put_u64 (word_of_int t)"

definition get_i64 :: "bytes \<Rightarrow> int" where
  "get_i64 bs = sint (get_u64 bs)"

lemma length_put_i64 [simp]: "length (put_i64 t) = 8"
  by (simp add: put_i64_def)

lemma get_put_i64 [simp]: "in_i64 t \<Longrightarrow> get_i64 (put_i64 t) = t"
  by (simp add: get_i64_def put_i64_def in_i64_def int_word_sint)

text \<open>A division towards zero of a number between two multiples lies between the factors.\<close>

lemma i64_div_bounds:
  assumes "0 < b" "lo * b \<le> a" "a \<le> hi * b"
  shows "lo \<le> i64_div a b" "i64_div a b \<le> hi"
proof -
  show "lo \<le> i64_div a b"
  proof (cases "0 \<le> a")
    case True
    then show ?thesis using assms zdiv_mono1 [of "lo * b" a b] by (simp add: i64_div_def)
  next
    case False
    then show ?thesis
      using assms zdiv_mono1 [of "- a" "(- lo) * b" b] by (simp add: i64_div_def del: mult_minus_left)
  qed
  show "i64_div a b \<le> hi"
  proof (cases "0 \<le> a")
    case True
    then show ?thesis using assms zdiv_mono1 [of a "hi * b" b] by (simp add: i64_div_def)
  next
    case False
    then show ?thesis
      using assms zdiv_mono1 [of "(- hi) * b" "- a" b] by (simp add: i64_div_def del: mult_minus_left)
  qed
qed

section \<open>Estimates\<close>

record clock_sync_result =
  t1 :: int
  t2 :: int
  t3 :: int
  t4 :: int

definition offset_micros :: "clock_sync_result \<Rightarrow> int" where
  "offset_micros r = i64_div (wrap64 (wrap64 (wrap64 (t2 r - t1 r) + t3 r) - t4 r)) 2"

definition delay_micros :: "clock_sync_result \<Rightarrow> int" where
  "delay_micros r = wrap64 (wrap64 (t4 r - t1 r) - wrap64 (t3 r - t2 r))"

record clock_sync_average =
  avg_offset :: int
  avg_delay :: int

section \<open>Messages\<close>

definition validate_sync_response :: "bytes \<Rightarrow> u16 \<Rightarrow> unit result" where
  "validate_sync_response response expected_endpoint_id =
     (if length response \<noteq> 30
      then Inl (ProtocolError (''expected 30 byte clock sync response, got ''
                 @ string_of_nat (length response)))
      else if get_u16 [response ! 0, response ! 1] \<noteq> expected_endpoint_id
      then Inl (ProtocolError (''clock sync endpoint id mismatch: expected ''
                 @ string_of_nat (unat expected_endpoint_id) @ '', got ''
                 @ string_of_nat (unat (get_u16 [response ! 0, response ! 1]))))
      else Inr ())"

definition validate_sync_request :: "bytes \<Rightarrow> unit result" where
  "validate_sync_request datagram =
     (if length datagram \<noteq> 14
      then Inl (ProtocolError (''expected 14 byte clock sync request, got ''
                 @ string_of_nat (length datagram)))
      else Inr ())"

section \<open>Client\<close>

record clock_client =
  cc_endpoint :: u16
  next_id :: u32

definition clock_client_new :: "u16 \<Rightarrow> clock_client" where
  "clock_client_new e = \<lparr>cc_endpoint = e, next_id = 0\<rparr>"

text \<open>The request, and the client after it has taken an id.\<close>

definition sync_request :: "int \<Rightarrow> clock_client \<Rightarrow> u32 \<times> bytes \<times> clock_client" where
  "sync_request now c =
     (next_id c, put_u16 (cc_endpoint c) @ put_u32 (next_id c) @ put_i64 now,
      c\<lparr>next_id := next_id c + 1\<rparr>)"

text \<open>
  One iteration of the loop is given by the clock at its start and what the wait brings:
  nothing before the timeout, or a datagram (or an error) and the clock behind it.
\<close>

type_synonym sync_turn = "int result \<times> (bytes result \<times> int result) option"

fun sync_loop ::
  "u16 \<Rightarrow> u32 \<Rightarrow> int \<Rightarrow> sync_turn list \<Rightarrow> clock_sync_result option result option" where
  "sync_loop e req_id deadline [] = None"
| "sync_loop e req_id deadline ((now, wait) # turns) =
     (case map_err protocol_error_new now of
        Inl f \<Rightarrow> Some (Inl f)
      | Inr n \<Rightarrow>
          if n \<ge> deadline then Some (Inr None)
          else
            case wait of
              None \<Rightarrow> Some (Inr None)
            | Some (response, clock) \<Rightarrow>
                (case and_then (map_err protocol_error_new response) (\<lambda>r.
                      and_then (validate_sync_response r e) (\<lambda>_.
                      and_then (map_err protocol_error_new clock) (\<lambda>t. Inr (r, t)))) of
                   Inl f \<Rightarrow> Some (Inl f)
                 | Inr (r, t) \<Rightarrow>
                     if req_id = get_u32 (take 4 (drop 2 r))
                     then Some (Inr (Some \<lparr>t1 = get_i64 (take 8 (drop 6 r)),
                            t2 = get_i64 (take 8 (drop 14 r)), t3 = get_i64 (take 8 (drop 22 r)), t4 = t\<rparr>))
                     else sync_loop e req_id deadline turns))"

text \<open>\<open>sync\<close>; \<open>None\<close> means that it still waits after the given turns.\<close>

definition sync ::
  "int result \<Rightarrow> (bytes \<Rightarrow> unit result) \<Rightarrow> sync_turn list \<Rightarrow> clock_client
     \<Rightarrow> clock_sync_result option result option \<times> clock_client" where
  "sync now send_datagram turns c =
     (case map_err protocol_error_new now of
        Inl f \<Rightarrow> (Some (Inl f), c\<lparr>next_id := next_id c + 1\<rparr>)
      | Inr n \<Rightarrow>
          (case sync_request n c of
             (req_id, buf, c1) \<Rightarrow>
               (case map_err protocol_error_new (send_datagram buf) of
                  Inl f \<Rightarrow> (Some (Inl f), c1)
                | Inr _ \<Rightarrow> (sync_loop (cc_endpoint c) req_id (wrap64 (n + 200000)) turns, c1))))"

text \<open>
  \<open>sync_average\<close> over the results of the successive calls of \<open>sync\<close>. The loop has no bound on
  the calls that time out.
\<close>

partial_function (option) sync_average_loop ::
  "(nat \<Rightarrow> clock_sync_result option result) \<Rightarrow> nat \<Rightarrow> nat \<Rightarrow> nat \<Rightarrow> int \<Rightarrow> int
     \<Rightarrow> clock_sync_average result option" where
  "sync_average_loop rs n i count offset_sum delay_sum =
     (if count < n then
        (case rs i of
           Inl f \<Rightarrow> Some (Inl f)
         | Inr None \<Rightarrow> sync_average_loop rs n (Suc i) count offset_sum delay_sum
         | Inr (Some r) \<Rightarrow>
             sync_average_loop rs n (Suc i) (Suc count) (wrap64 (offset_sum + offset_micros r))
               (wrap64 (delay_sum + delay_micros r)))
      else Some (Inr \<lparr>avg_offset = i64_div offset_sum (int count), avg_delay = i64_div delay_sum (int count)\<rparr>))"

definition sync_average ::
  "(nat \<Rightarrow> clock_sync_result option result) \<Rightarrow> nat \<Rightarrow> clock_sync_average result option" where
  "sync_average rs n =
     (if n = 0 then Some (Inl (Panic ''times > 0'')) else sync_average_loop rs n 0 0 0 0)"

section \<open>Server\<close>

text \<open>One request: the response, with the clock at its reception and at its emission.\<close>

definition serve_one :: "int result \<Rightarrow> int result \<Rightarrow> bytes \<Rightarrow> bytes result" where
  "serve_one clock2 clock3 datagram =
     and_then (validate_sync_request datagram) (\<lambda>_.
     and_then (map_err protocol_error_new clock2) (\<lambda>a.
     and_then (map_err protocol_error_new clock3) (\<lambda>b.
     Inr (datagram @ put_i64 a @ put_i64 b))))"

text \<open>\<open>serve\<close>: the responses until the first error; it never ends otherwise.\<close>

fun serve ::
  "(bytes result \<times> int result \<times> int result) list \<Rightarrow> bytes list \<times> fault option" where
  "serve [] = ([], None)"
| "serve ((datagram, clock2, clock3) # rest) =
     (case and_then (map_err protocol_error_new datagram) (serve_one clock2 clock3) of
        Inl f \<Rightarrow> ([], Some f)
      | Inr response \<Rightarrow> apfst ((#) response) (serve rest))"

section \<open>Properties\<close>

text \<open>
  C20: The estimate of the clock offset is as good as the delay allows. If the server's
  clock is ahead of the client's by \<open>theta\<close>, the request takes \<open>d\<close> microseconds, the server
  \<open>p\<close> and the response \<open>d'\<close>, then the delay reported is \<open>d + d'\<close> and the offset reported is off
  by at most half of it, rounded up. (Clock readings below 2^60 microseconds.)
\<close>

theorem clock_sync_accurate:
  assumes "0 \<le> d" "0 \<le> d'" "0 \<le> p" "\<bar>t\<bar> + \<bar>theta\<bar> + d + d' + p < 2 ^ 60"
    and "r = \<lparr>t1 = t, t2 = t + d + theta, t3 = t + d + p + theta, t4 = t + d + p + d'\<rparr>"
  shows "delay_micros r = d + d' \<and> \<bar>offset_micros r - theta\<bar> \<le> (delay_micros r + 1) div 2"
proof -
  have "in_i64 (d + theta)" "in_i64 (t + 2 * d + p + 2 * theta)" "in_i64 (2 * theta + d - d')"
    "in_i64 (d + p + d')" "in_i64 p" "in_i64 (d + d')"
    using assms(1-4) unfolding in_i64_def by (simp_all add: abs_if split: if_splits)
  then have o: "offset_micros r = i64_div (2 * theta + d - d') 2" and dl: "delay_micros r = d + d'"
    using assms(5) by (simp_all add: offset_micros_def delay_micros_def algebra_simps)
  have "\<bar>i64_div (2 * theta + d - d') 2 - theta\<bar> \<le> (d + d' + 1) div 2"
    using assms(1,2) unfolding i64_div_def by (cases "0 \<le> 2 * theta + d - d'") (simp; presburger)+
  with o dl show ?thesis by simp
qed

theorem clock_sync_accurate_witness:
  "\<bar>offset_micros \<lparr>t1 = 1000, t2 = -3900, t3 = -3880, t4 = 1170\<rparr> - (-5000)\<bar> \<le> 75"
  using clock_sync_accurate [of 100 50 20 1000 "-5000" "\<lparr>t1 = 1000, t2 = -3900, t3 = -3880, t4 = 1170\<rparr>"]
  by (simp add: delay_micros_def wrap64_def)

text \<open>A response to a later or earlier request of the same client is passed over.\<close>

definition stale_turn :: "u16 \<Rightarrow> u32 \<Rightarrow> int \<Rightarrow> sync_turn \<Rightarrow> bool" where
  "stale_turn e req_id deadline turn \<longleftrightarrow>
     (\<exists>n r t. turn = (Inr n, Some (Inr r, Inr t)) \<and> n < deadline \<and> length r = 30
        \<and> take 2 r = put_u16 e \<and> get_u32 (take 4 (drop 2 r)) \<noteq> req_id)"

lemma validate_sync_response_iff:
  "validate_sync_response r e = Inr () \<longleftrightarrow> length r = 30 \<and> take 2 r = put_u16 e"
proof (cases "length r = 30")
  case True
  then obtain a b rest where r: "r = a # b # rest" by (cases r; cases "tl r") auto
  have "get_u16 [a, b] = e \<longleftrightarrow> [a, b] = put_u16 e"
    using put_get(1) [of "[a, b]"] by auto
  with True show ?thesis by (auto simp: validate_sync_response_def r)
qed (simp add: validate_sync_response_def)

lemma sync_loop_stale:
  "\<forall>turn \<in> set turns. stale_turn e req_id deadline turn \<Longrightarrow>
     sync_loop e req_id deadline (turns @ rest) = sync_loop e req_id deadline rest"
proof (induction turns)
  case (Cons turn turns)
  then show ?case
    by (auto simp: stale_turn_def validate_sync_response_iff
        [THEN iffD2] simp del: One_nat_def)
qed simp

text \<open>
  C21: Request and response fit together: whatever valid responses to other requests arrive
  before it, the response a server makes to a client's request gives the client the four
  time stamps that were taken, if it arrives before the deadline; and the next request
  carries another id.
\<close>

theorem clock_sync_roundtrip:
  assumes "sync_request t c = (req_id, request, c')" "serve_one (Inr u) (Inr v) request = Inr response"
    and "\<forall>turn \<in> set stale. stale_turn (cc_endpoint c) req_id (t + 200000) turn"
    and "now < t + 200000" "in_i64 (t + 200000)" "in_i64 t" "in_i64 u" "in_i64 v"
  shows "sync (Inr t) (\<lambda>_. Inr ()) (stale @ [(Inr now, Some (Inr response, Inr w))]) c
         = (Some (Inr (Some \<lparr>t1 = t, t2 = u, t3 = v, t4 = w\<rparr>)), c') \<and> next_id c' \<noteq> req_id"
proof -
  have r: "req_id = next_id c" "request = put_u16 (cc_endpoint c) @ put_u32 req_id @ put_i64 t"
    "c' = c\<lparr>next_id := next_id c + 1\<rparr>"
    using assms(1) by (auto simp: sync_request_def)
  have resp: "response = put_u16 (cc_endpoint c) @ put_u32 req_id @ put_i64 t @ put_i64 u @ put_i64 v"
    using assms(2) r(2) by (simp add: serve_one_def validate_sync_request_def)
  have v: "validate_sync_response response (cc_endpoint c) = Inr ()"
    by (simp add: validate_sync_response_iff resp)
  have d: "take 4 (drop 2 response) = put_u32 req_id" "take 8 (drop 6 response) = put_i64 t"
    "take 8 (drop 14 response) = put_i64 u" "take 8 (drop 22 response) = put_i64 v"
    by (simp_all add: resp drop_append take_append)
  have "sync_loop (cc_endpoint c) req_id (t + 200000) [(Inr now, Some (Inr response, Inr w))]
      = Some (Inr (Some \<lparr>t1 = t, t2 = u, t3 = v, t4 = w\<rparr>))"
    using assms(4,6-8) v by (simp add: d)
  with sync_loop_stale [OF assms(3)] assms(1,5) r(1,3) show ?thesis by (simp add: sync_def)
qed

definition sample_client :: clock_client where
  "sample_client = (clock_client_new 5)\<lparr>next_id := 9\<rparr>"

theorem clock_sync_roundtrip_witness:
  "\<exists>response. serve_one (Inr 70) (Inr 80) (put_u16 5 @ put_u32 9 @ put_i64 1000) = Inr response
     \<and> fst (sync (Inr 1000) (\<lambda>_. Inr ())
          [(Inr 1001, Some (Inr (put_u16 5 @ put_u32 8 @ replicate 24 0), Inr 1002)),
           (Inr 1003, Some (Inr response, Inr 1100))] sample_client)
       = Some (Inr (Some \<lparr>t1 = 1000, t2 = 70, t3 = 80, t4 = 1100\<rparr>))"
proof -
  let ?stale = "(Inr 1001, Some (Inr (put_u16 5 @ put_u32 8 @ replicate 24 0), Inr 1002)) :: sync_turn"
  obtain response where s: "serve_one (Inr 70) (Inr 80) (put_u16 5 @ put_u32 9 @ put_i64 1000) = Inr response"
    by (simp add: serve_one_def validate_sync_request_def)
  have "stale_turn 5 9 (1000 + 200000) ?stale" by (simp add: stale_turn_def)
  with clock_sync_roundtrip [of 1000 sample_client 9 "put_u16 5 @ put_u32 9 @ put_i64 1000"
      "sample_client\<lparr>next_id := 10\<rparr>" 70 80 response "[?stale]" 1003 1100] s
  show ?thesis by (simp add: sync_request_def sample_client_def clock_client_new_def in_i64_def)
qed

subsection \<open>The average\<close>

text \<open>The results of the exchanges from \<open>i\<close> on, before \<open>j\<close>, that succeeded.\<close>

fun sync_success :: "clock_sync_result option result \<Rightarrow> clock_sync_result option" where
  "sync_success (Inr r) = r"
| "sync_success (Inl f) = None"

definition successes :: "(nat \<Rightarrow> clock_sync_result option result) \<Rightarrow> nat \<Rightarrow> nat \<Rightarrow> clock_sync_result list" where
  "successes rs i j = List.map_filter (\<lambda>k. sync_success (rs k)) [i..<j]"

definition average_of :: "clock_sync_result list \<Rightarrow> clock_sync_average" where
  "average_of ss =
     \<lparr>avg_offset = i64_div (wrap64 (sum_list (map offset_micros ss))) (int (length ss)),
      avg_delay = i64_div (wrap64 (sum_list (map delay_micros ss))) (int (length ss))\<rparr>"

lemma successes_empty [simp]: "successes rs i i = []"
  by (simp add: successes_def List.map_filter_simps)

lemma successes_rec:
  "i < j \<Longrightarrow> successes rs i j
     = (case sync_success (rs i) of None \<Rightarrow> [] | Some r \<Rightarrow> [r]) @ successes rs (Suc i) j"
  by (simp add: successes_def upt_conv_Cons List.map_filter_simps split: option.split)

lemma wrap64_add [simp]: "wrap64 (wrap64 a + b) = wrap64 (a + b)"
  by (simp add: wrap64_def) (metis (no_types, opaque_lifting) add.assoc add.commute diff_add_cancel mod_add_left_eq)

text \<open>The loop passes over \<open>k\<close> results without an error as long as it does not need fewer.\<close>

lemma sync_average_loop_advance:
  assumes "\<And>l. i \<le> l \<Longrightarrow> l < i + k \<Longrightarrow> \<not> isl (rs l)" "count + length (successes rs i (i + k)) \<le> n"
  shows "sync_average_loop rs n i count (wrap64 x) (wrap64 y)
       = sync_average_loop rs n (i + k) (count + length (successes rs i (i + k)))
           (wrap64 (x + sum_list (map offset_micros (successes rs i (i + k)))))
           (wrap64 (y + sum_list (map delay_micros (successes rs i (i + k)))))"
  using assms
proof (induction k arbitrary: i count x y)
  case (Suc k)
  let ?ss = "successes rs (Suc i) (i + Suc k)"
  have noerr: "\<not> isl (rs l)" if "Suc i \<le> l" "l < Suc i + k" for l using Suc.prems(1) [of l] that by simp
  show ?case
  proof (cases "count = n")
    case True
    then have "successes rs i (i + Suc k) = []" using Suc.prems(2) by simp
    with True show ?thesis by (subst (1 2) sync_average_loop.simps) simp
  next
    case False
    then have lt: "count < n" using Suc.prems(2) by simp
    obtain o' where o: "rs i = Inr o'" using Suc.prems(1) [of i] by (cases "rs i") auto
    have e: "successes rs i (i + Suc k) = (case o' of None \<Rightarrow> [] | Some r \<Rightarrow> [r]) @ ?ss"
      using successes_rec [of i "i + Suc k" rs] o by simp
    show ?thesis
    proof (cases o')
      case None
      with o lt have "sync_average_loop rs n i count (wrap64 x) (wrap64 y)
          = sync_average_loop rs n (Suc i) count (wrap64 x) (wrap64 y)"
        by (subst sync_average_loop.simps) simp
      with Suc.IH [where i = "Suc i" and count = count and x = x and y = y] noerr Suc.prems(2) e None show ?thesis by simp
    next
      case (Some r)
      with o lt have "sync_average_loop rs n i count (wrap64 x) (wrap64 y)
          = sync_average_loop rs n (Suc i) (Suc count) (wrap64 (x + offset_micros r)) (wrap64 (y + delay_micros r))"
        by (subst sync_average_loop.simps) simp
      with Suc.IH [where i = "Suc i" and count = "Suc count" and x = "x + offset_micros r" and y = "y + delay_micros r"]
        noerr Suc.prems(2) e Some
      show ?thesis by (simp add: add.assoc)
    qed
  qed
qed simp

lemma wrap64_0 [simp]: "wrap64 0 = 0"
  by (simp add: wrap64_def)

lemma sync_average_advance:
  assumes "0 < n" "\<And>l. l < k \<Longrightarrow> \<not> isl (rs l)" "length (successes rs 0 k) \<le> n"
  shows "sync_average rs n
       = sync_average_loop rs n k (length (successes rs 0 k))
           (wrap64 (sum_list (map offset_micros (successes rs 0 k))))
           (wrap64 (sum_list (map delay_micros (successes rs 0 k))))"
  using sync_average_loop_advance [of 0 k rs 0 n 0 0] assms by (simp add: sync_average_def)

text \<open>If the loop returns, it has seen enough results or an error.\<close>

lemma sync_average_loop_some:
  assumes "sync_average_loop rs n i count os ds = Some y"
  shows "\<exists>j \<ge> i. n \<le> count + length (successes rs i j) \<or> isl (rs j)"
proof (rule sync_average_loop.raw_induct
      [where P = "\<lambda>rs n i count os ds y. \<exists>j \<ge> i. n \<le> count + length (successes rs i j) \<or> isl (rs j)",
        OF _ assms], goal_cases)
  case (1 f rs n i count os ds y)
  note ih = 1(1) and result = 1(2)
  show ?case
  proof (cases "n \<le> count \<or> isl (rs i)")
    case True
    then show ?thesis by (intro exI [of _ i]) auto
  next
    case False
    then obtain o' where o: "rs i = Inr o'" by (cases "rs i") auto
    let ?c = "case o' of None \<Rightarrow> count | Some r \<Rightarrow> Suc count"
    obtain a b where "f rs n (Suc i) ?c a b = Some y"
      using result False o by (cases o') auto
    then obtain j where j: "Suc i \<le> j" "n \<le> ?c + length (successes rs (Suc i) j) \<or> isl (rs j)"
      using ih by blast
    then have "n \<le> count + length (successes rs i j) \<or> isl (rs j)"
      using successes_rec [of i j rs] o by (cases o') auto
    with j(1) show ?thesis by (intro exI [of _ j]) simp
  qed
qed

text \<open>An average lies between the bounds of the single values.\<close>

lemma sum_list_between:
  fixes f :: "'a \<Rightarrow> int"
  assumes "\<forall>x \<in> set xs. lo \<le> f x \<and> f x \<le> hi"
  shows "int (length xs) * lo \<le> sum_list (map f xs)" "sum_list (map f xs) \<le> int (length xs) * hi"
  using assms by (induction xs) (auto simp: distrib_right)

lemma average_between:
  assumes "\<forall>x \<in> set xs. lo \<le> f x \<and> f x \<le> hi" "xs \<noteq> []"
    and "in_i64 (int (length xs) * lo)" "in_i64 (int (length xs) * hi)"
  shows "lo \<le> i64_div (wrap64 (sum_list (map f xs))) (int (length xs))
       \<and> i64_div (wrap64 (sum_list (map f xs))) (int (length xs)) \<le> hi"
proof -
  note b = sum_list_between [OF assms(1)]
  have "in_i64 (sum_list (map f xs))" using b assms(3,4) by (simp add: in_i64_def)
  then have "wrap64 (sum_list (map f xs)) = sum_list (map f xs)" by simp
  with i64_div_bounds [of "int (length xs)" lo "sum_list (map f xs)" hi] b assms(2) show ?thesis
    by (simp add: mult.commute)
qed

text \<open>
  C22: \<open>sync_average\<close> averages exactly the first \<open>n\<close> exchanges that succeed. When no exchange before
  the \<open>k\<close>-th fails and \<open>n\<close> of them succeed, however many time out, it returns the sums of their
  offsets and delays divided by \<open>n\<close> (with the wrap-around of the 64-bit sums written out); these lie
  within bounds of the single values as long as \<open>n\<close> times the bound is a 64-bit number. An exchange
  that fails before \<open>n\<close> have succeeded gives its error. If none fails and fewer than \<open>n\<close> ever
  succeed, in particular if every exchange times out, it never returns.
\<close>

theorem sync_average_returns:
  assumes "0 < n"
  shows "((\<forall>l < k. \<not> isl (rs l)) \<and> length (successes rs 0 k) = n \<longrightarrow>
            sync_average rs n = Some (Inr (average_of (successes rs 0 k)))
            \<and> ((\<forall>r \<in> set (successes rs 0 k). lo \<le> offset_micros r \<and> offset_micros r \<le> hi)
               \<and> in_i64 (int n * lo) \<and> in_i64 (int n * hi) \<longrightarrow>
                 lo \<le> avg_offset (average_of (successes rs 0 k)) \<and> avg_offset (average_of (successes rs 0 k)) \<le> hi)
            \<and> ((\<forall>r \<in> set (successes rs 0 k). lo \<le> delay_micros r \<and> delay_micros r \<le> hi)
               \<and> in_i64 (int n * lo) \<and> in_i64 (int n * hi) \<longrightarrow>
                 lo \<le> avg_delay (average_of (successes rs 0 k)) \<and> avg_delay (average_of (successes rs 0 k)) \<le> hi))
       \<and> ((\<forall>l < k. \<not> isl (rs l)) \<and> length (successes rs 0 k) < n \<and> rs k = Inl f \<longrightarrow>
            sync_average rs n = Some (Inl f))
       \<and> ((\<forall>l. \<not> isl (rs l)) \<and> (\<forall>l. length (successes rs 0 l) < n) \<longrightarrow> sync_average rs n = None)"
proof -
  let ?ss = "successes rs 0 k"
  have avg: "sync_average rs n = Some (Inr (average_of ?ss))" if "\<forall>l < k. \<not> isl (rs l)" "length ?ss = n"
    using sync_average_advance [OF assms, of k rs] that
    by (simp add: average_of_def sync_average_loop.simps [of rs n k n])
  have err: "sync_average rs n = Some (Inl f)"
    if "\<forall>l < k. \<not> isl (rs l)" "length ?ss < n" "rs k = Inl f"
    using sync_average_advance [OF assms, of k rs] that
    by (simp add: sync_average_loop.simps [of rs n k "length ?ss"])
  have none: "sync_average rs n = None" if "\<forall>l. \<not> isl (rs l)" "\<forall>l. length (successes rs 0 l) < n"
  proof (rule ccontr)
    assume "sync_average rs n \<noteq> None"
    then obtain y where "sync_average_loop rs n 0 0 0 0 = Some y" using assms by (auto simp: sync_average_def)
    then obtain j where "n \<le> length (successes rs 0 j) \<or> isl (rs j)" using sync_average_loop_some by fastforce
    with that show False by (metis not_le)
  qed
  have bounds: "lo \<le> i64_div (wrap64 (sum_list (map f ?ss))) (int n) \<and> i64_div (wrap64 (sum_list (map f ?ss))) (int n) \<le> hi"
    if "length ?ss = n" "\<forall>r \<in> set ?ss. lo \<le> f r \<and> f r \<le> hi" "in_i64 (int n * lo)" "in_i64 (int n * hi)" for f
    using average_between [of ?ss lo f hi] that assms by auto
  have off: "lo \<le> avg_offset (average_of ?ss) \<and> avg_offset (average_of ?ss) \<le> hi"
    if "length ?ss = n" "\<forall>r \<in> set ?ss. lo \<le> offset_micros r \<and> offset_micros r \<le> hi"
      "in_i64 (int n * lo)" "in_i64 (int n * hi)"
    using bounds [OF that] that(1) by (simp add: average_of_def)
  have del: "lo \<le> avg_delay (average_of ?ss) \<and> avg_delay (average_of ?ss) \<le> hi"
    if "length ?ss = n" "\<forall>r \<in> set ?ss. lo \<le> delay_micros r \<and> delay_micros r \<le> hi"
      "in_i64 (int n * lo)" "in_i64 (int n * hi)"
    using bounds [OF that] that(1) by (simp add: average_of_def)
  show ?thesis using avg off del err none by (intro conjI impI) (elim conjE; blast)+
qed

text \<open>Every second exchange times out; the others see an offset of -4985 or -5000.\<close>

definition sample_results :: "nat \<Rightarrow> clock_sync_result option result" where
  "sample_results i = (if even i then Inr None
     else Inr (Some \<lparr>t1 = 0, t2 = (if i mod 4 = 1 then -4970 else -5000), t3 = -5000, t4 = 0\<rparr>))"

theorem sync_average_returns_witness:
  "sync_average sample_results 2 = Some (Inr \<lparr>avg_offset = -4992, avg_delay = 15\<rparr>)
   \<and> sync_average (\<lambda>_. Inr None) 2 = None"
proof -
  have "successes sample_results 0 4 = [\<lparr>t1 = 0, t2 = -4970, t3 = -5000, t4 = 0\<rparr>, \<lparr>t1 = 0, t2 = -5000, t3 = -5000, t4 = 0\<rparr>]"
    by (simp add: successes_def sample_results_def upt_rec List.map_filter_simps)
  moreover have "\<forall>l < (4 :: nat). \<not> isl (sample_results l)" by (simp add: sample_results_def)
  moreover have "successes (\<lambda>_. Inr None) 0 l = []" for l
    by (induction l) (simp_all add: successes_def List.map_filter_def)
  ultimately show ?thesis
    using sync_average_returns [of 2 4 sample_results] sync_average_returns [of 2 0 "\<lambda>_. Inr None"]
    by (simp add: average_of_def offset_micros_def delay_micros_def wrap64_def i64_div_def)
qed

end
