(* ===== verification/CancelSafe.thy ===== *)
theory CancelSafe
  imports Serial
begin

text \<open>
  The cancel-safe wrappers of \<open>kymux-types/src/lib.rs\<close>. Both put a task between the client and a
  driver, connected by bounded queues of one element: the client's calls then only touch a queue
  and can be abandoned at any point. The driver is outside: what its calls give is part of the
  labels of the steps.
\<close>

section \<open>The sending wrapper\<close>

text \<open>Where the spawned task is: receiving, in the driver's \<open>send\<close>, reporting an error, or over.\<close>

datatype 'p send_task = TakeNext | InSend 'p | Report fault | SendOver

record 'p cs_sender =
  cs_queue :: "'p list"
  cs_errors :: "fault list"
  cs_task :: "'p send_task"
  cs_dropped :: bool

definition cs_send_new :: "'p cs_sender" where
  "cs_send_new = \<lparr>cs_queue = [], cs_errors = [], cs_task = TakeNext, cs_dropped = False\<rparr>"

definition send_disconnected :: fault where
  "send_disconnected = ProtocolError ''send task disconnected''"

text \<open>
  \<open>Sender::send\<close>: an error that waits comes first; otherwise the packet is queued as soon as there
  is room. \<open>None\<close> is a call that still waits, and a call that is dropped while it waits does nothing.
\<close>

definition cs_send :: "'p \<Rightarrow> 'p cs_sender \<Rightarrow> (unit result \<times> 'p cs_sender) option" where
  "cs_send packet s =
     (case cs_errors s of
        err # errs \<Rightarrow> Some (Inl err, s\<lparr>cs_errors := errs\<rparr>)
      | [] \<Rightarrow>
          if cs_task s = SendOver then Some (Inl send_disconnected, s)
          else if length (cs_queue s) < 1 then Some (Inr (), s\<lparr>cs_queue := cs_queue s @ [packet]\<rparr>)
          else None)"

definition cs_send_drop :: "'p cs_sender \<Rightarrow> 'p cs_sender" where
  "cs_send_drop s = s\<lparr>cs_dropped := True, cs_errors := []\<rparr>"

text \<open>
  The task: the next packet or the end of the queue, the driver's answer, the report. A driver that
  panics unwinds the task, which drops its ends of both queues.
\<close>

definition cs_take :: "'p cs_sender \<Rightarrow> 'p cs_sender option" where
  "cs_take s =
     (case cs_queue s of
        p # ps \<Rightarrow> Some (s\<lparr>cs_queue := ps, cs_task := InSend p\<rparr>)
      | [] \<Rightarrow> if cs_dropped s then Some (s\<lparr>cs_task := SendOver\<rparr>) else None)"

definition cs_sent :: "unit result \<Rightarrow> 'p cs_sender \<Rightarrow> 'p cs_sender" where
  "cs_sent res s = s\<lparr>cs_task := (case res of Inr _ \<Rightarrow> TakeNext | Inl err \<Rightarrow> if panics err then SendOver else Report err)\<rparr>"

definition cs_report :: "fault \<Rightarrow> 'p cs_sender \<Rightarrow> 'p cs_sender option" where
  "cs_report err s =
     (if cs_dropped s then Some (s\<lparr>cs_task := SendOver\<rparr>)
      else if length (cs_errors s) < 1 then Some (s\<lparr>cs_errors := cs_errors s @ [err], cs_task := TakeNext\<rparr>)
      else None)"

datatype 'p send_event = Accepted 'p | Refused fault | Disconnected fault | Dropped | Driven 'p "unit result" | Tau

inductive cs_send_step :: "'p cs_sender \<Rightarrow> 'p send_event \<Rightarrow> 'p cs_sender \<Rightarrow> bool" where
  accepted: "\<not> cs_dropped s \<Longrightarrow> cs_send p s = Some (Inr u, s') \<Longrightarrow> cs_send_step s (Accepted p) s'"
| refused: "\<not> cs_dropped s \<Longrightarrow> cs_errors s \<noteq> [] \<Longrightarrow> cs_send p s = Some (Inl e, s') \<Longrightarrow> cs_send_step s (Refused e) s'"
| disconnected: "\<not> cs_dropped s \<Longrightarrow> cs_errors s = [] \<Longrightarrow> cs_send p s = Some (Inl e, s') \<Longrightarrow> cs_send_step s (Disconnected e) s'"
| dropped: "\<not> cs_dropped s \<Longrightarrow> cs_send_step s Dropped (cs_send_drop s)"
| takes: "cs_task s = TakeNext \<Longrightarrow> cs_take s = Some s' \<Longrightarrow> cs_send_step s Tau s'"
| driven: "cs_task s = InSend p \<Longrightarrow> cs_send_step s (Driven p res) (cs_sent res s)"
| reports: "cs_task s = Report e \<Longrightarrow> cs_report e s = Some s' \<Longrightarrow> cs_send_step s Tau s'"

inductive cs_send_trace :: "'p send_event list \<Rightarrow> 'p cs_sender \<Rightarrow> bool" where
  start: "cs_send_trace [] cs_send_new"
| step: "cs_send_trace es s \<Longrightarrow> cs_send_step s e s' \<Longrightarrow> cs_send_trace (es @ [e]) s'"

text \<open>What the events say: the packets accepted and driven, the errors that occurred and were told.\<close>

fun accepted_of :: "'p send_event \<Rightarrow> 'p list" where
  "accepted_of (Accepted p) = [p]"
| "accepted_of e = []"

fun driven_of :: "'p send_event \<Rightarrow> 'p list" where
  "driven_of (Driven p res) = [p]"
| "driven_of e = []"

fun failed_of :: "'p send_event \<Rightarrow> fault list" where
  "failed_of (Driven p (Inl e)) = (if panics e then [] else [e])"
| "failed_of e = []"

fun told_of :: "'p send_event \<Rightarrow> fault list" where
  "told_of (Refused e) = [e]"
| "told_of e = []"

abbreviation of_events :: "('e \<Rightarrow> 'a list) \<Rightarrow> 'e list \<Rightarrow> 'a list" where
  "of_events f es \<equiv> concat (map f es)"

fun in_hand :: "'p send_task \<Rightarrow> 'p list" where
  "in_hand (InSend p) = [p]"
| "in_hand t = []"

fun to_report :: "'p send_task \<Rightarrow> fault list" where
  "to_report (Report e) = [e]"
| "to_report t = []"

definition cs_send_inv :: "'p send_event list \<Rightarrow> 'p cs_sender \<Rightarrow> bool" where
  "cs_send_inv es s \<longleftrightarrow>
     of_events accepted_of es = of_events driven_of es @ in_hand (cs_task s) @ cs_queue s
     \<and> (\<not> cs_dropped s \<longrightarrow> of_events failed_of es = of_events told_of es @ cs_errors s @ to_report (cs_task s))
     \<and> length (cs_queue s) \<le> 1 \<and> length (cs_errors s) \<le> 1
     \<and> (\<exists>rest. of_events failed_of es = of_events told_of es @ rest)"

lemma cs_send_inv_step:
  assumes "cs_send_inv es s" "cs_send_step s e s'"
  shows "cs_send_inv (es @ [e]) s'"
  using assms(2)
proof (cases rule: cs_send_step.cases)
  case (accepted p u)
  with assms(1) show ?thesis by (auto simp: cs_send_inv_def cs_send_def split: list.splits if_splits)
next
  case (refused p f)
  with assms(1) show ?thesis by (auto simp: cs_send_inv_def cs_send_def split: list.splits if_splits)
next
  case (disconnected p f)
  with assms(1) show ?thesis by (auto simp: cs_send_inv_def cs_send_def split: list.splits if_splits)
next
  case dropped
  with assms(1) show ?thesis by (auto simp: cs_send_inv_def cs_send_drop_def)
next
  case takes
  with assms(1) show ?thesis by (auto simp: cs_send_inv_def cs_take_def split: list.splits if_splits)
next
  case (driven p res)
  with assms(1) show ?thesis by (cases res) (auto simp: cs_send_inv_def cs_sent_def)
next
  case (reports f)
  with assms(1) show ?thesis by (auto simp: cs_send_inv_def cs_report_def split: if_splits)
qed

lemma cs_send_trace_inv: "cs_send_trace es s \<Longrightarrow> cs_send_inv es s"
proof (induction rule: cs_send_trace.induct)
  case start
  show ?case by (simp add: cs_send_inv_def cs_send_new_def)
next
  case (step es s e s')
  then show ?case using cs_send_inv_step by blast
qed

text \<open>
  Whether the task can go on without the client. In the driver's \<open>send\<close> it can: the driver answers
  independently of the client.
\<close>

definition cs_task_moves :: "'p cs_sender \<Rightarrow> bool" where
  "cs_task_moves s =
     (case cs_task s of
        TakeNext \<Rightarrow> cs_take s \<noteq> None
      | InSend p \<Rightarrow> True
      | Report e \<Rightarrow> cs_report e s \<noteq> None
      | SendOver \<Rightarrow> False)"

lemma cs_task_moves_step:
  assumes "cs_task_moves s"
  shows "\<exists>s'. cs_send_step s Tau s' \<or> (\<exists>p. \<forall>res. cs_send_step s (Driven p res) (cs_sent res s))"
  using assms cs_send_step.takes [of s] cs_send_step.driven [of s] cs_send_step.reports [of s]
  by (cases "cs_task s") (force simp: cs_task_moves_def)+

lemma cs_send_waits: "cs_send p s = None \<Longrightarrow> \<not> cs_dropped s \<Longrightarrow> cs_task_moves s"
  by (cases "cs_task s")
    (auto simp: cs_send_def cs_task_moves_def cs_take_def cs_report_def split: list.splits if_splits)

lemma cs_dropped_ends: "cs_dropped s \<Longrightarrow> cs_task s \<noteq> SendOver \<Longrightarrow> cs_task_moves s"
  by (cases "cs_task s") (auto simp: cs_task_moves_def cs_take_def cs_report_def split: list.splits)

lemma cs_report_waits:
  "cs_task s = Report e \<Longrightarrow> \<not> cs_task_moves s \<Longrightarrow>
     \<exists>f fs. cs_errors s = f # fs \<and> cs_send p s = Some (Inl f, s\<lparr>cs_errors := fs\<rparr>)"
  by (cases "cs_errors s") (auto simp: cs_task_moves_def cs_report_def cs_send_def split: if_splits)

text \<open>
  C34: The cancel-safe sender hands over exactly what it accepted. Whenever the task runs and
  whichever calls are abandoned, the packets given to the driver, the one it is given now and the
  one still queued are, in this order, the packets whose \<open>send\<close> returned without error; a packet
  whose \<open>send\<close> returned an error is never given to the driver. Every error of the driver is told to
  the client at most once and in order; as long as the client is there, all those not told yet
  wait for it. Client and task never wait for each other: while a \<open>send\<close> waits, the task is in the
  driver or can make its next step; a task that has to wait with a report waits behind an earlier
  error, which any \<open>send\<close> takes at once; and once the client is gone the task can always go on until
  it is over.
\<close>

theorem cancel_safe_send:
  assumes "cs_send_trace es s"
  shows "of_events accepted_of es = of_events driven_of es @ in_hand (cs_task s) @ cs_queue s
     \<and> (\<exists>rest. of_events failed_of es = of_events told_of es @ rest)
     \<and> (\<not> cs_dropped s \<longrightarrow> of_events failed_of es = of_events told_of es @ cs_errors s @ to_report (cs_task s))
     \<and> (\<not> cs_dropped s \<and> cs_send p s = None \<longrightarrow> cs_task_moves s)
     \<and> (cs_task s = Report e \<and> \<not> cs_task_moves s \<longrightarrow>
          (\<exists>f fs. cs_errors s = f # fs \<and> cs_send p s = Some (Inl f, s\<lparr>cs_errors := fs\<rparr>)))
     \<and> (cs_dropped s \<and> cs_task s \<noteq> SendOver \<longrightarrow> cs_task_moves s)
     \<and> (cs_task_moves s \<longrightarrow>
          (\<exists>s'. cs_send_step s Tau s' \<or> (\<exists>q. \<forall>res. cs_send_step s (Driven q res) (cs_sent res s))))"
  using cs_send_trace_inv [OF assms] cs_send_waits [of p s] cs_report_waits [of s e p] cs_dropped_ends [of s]
    cs_task_moves_step [of s]
  unfolding cs_send_inv_def by blast

theorem cancel_safe_send_witness:
  "\<exists>s. cs_send_trace [Accepted 1, Tau, Driven (1 :: nat) (Inl (ProtocolError ''lost'')), Tau, Refused (ProtocolError ''lost''), Accepted 2] s
     \<and> cs_queue s = [2] \<and> cs_errors s = []"
proof -
  let ?q = "\<lparr>cs_queue = [1], cs_errors = [], cs_task = TakeNext, cs_dropped = False\<rparr> :: nat cs_sender"
  let ?e = "ProtocolError ''lost''"
  have t0: "cs_send_trace [] (cs_send_new :: nat cs_sender)" by (rule cs_send_trace.start)
  have "cs_send_step cs_send_new (Accepted 1) ?q"
    by (rule cs_send_step.accepted) (simp_all add: cs_send_def cs_send_new_def)
  with t0 have t1: "cs_send_trace [Accepted 1] ?q" using cs_send_trace.step by fastforce
  have "cs_send_step ?q Tau (?q\<lparr>cs_queue := [], cs_task := InSend 1\<rparr>)"
    by (rule cs_send_step.takes) (simp_all add: cs_take_def)
  with t1 have t2: "cs_send_trace [Accepted 1, Tau] (?q\<lparr>cs_queue := [], cs_task := InSend 1\<rparr>)" using cs_send_trace.step by fastforce
  have "cs_send_step (?q\<lparr>cs_queue := [], cs_task := InSend 1\<rparr>) (Driven 1 (Inl ?e)) (?q\<lparr>cs_queue := [], cs_task := Report ?e\<rparr>)"
    using cs_send_step.driven [of "?q\<lparr>cs_queue := [], cs_task := InSend 1\<rparr>" 1 "Inl ?e"] by (simp add: cs_sent_def)
  with t2 have t3: "cs_send_trace [Accepted 1, Tau, Driven 1 (Inl ?e)] (?q\<lparr>cs_queue := [], cs_task := Report ?e\<rparr>)"
    using cs_send_trace.step by fastforce
  have "cs_send_step (?q\<lparr>cs_queue := [], cs_task := Report ?e\<rparr>) Tau (?q\<lparr>cs_queue := [], cs_errors := [?e]\<rparr>)"
    by (rule cs_send_step.reports) (simp_all add: cs_report_def)
  with t3 have t4: "cs_send_trace [Accepted 1, Tau, Driven 1 (Inl ?e), Tau] (?q\<lparr>cs_queue := [], cs_errors := [?e]\<rparr>)"
    using cs_send_trace.step by fastforce
  have "cs_send_step (?q\<lparr>cs_queue := [], cs_errors := [?e]\<rparr>) (Refused ?e) cs_send_new"
    by (rule cs_send_step.refused [of _ 2]) (simp_all add: cs_send_def cs_send_new_def)
  from cs_send_trace.step [OF t4 this] have t5: "cs_send_trace [Accepted (1 :: nat), Tau, Driven 1 (Inl ?e), Tau, Refused ?e] cs_send_new"
    by simp
  have "cs_send_step cs_send_new (Accepted (2 :: nat)) (?q\<lparr>cs_queue := [2]\<rparr>)"
    by (rule cs_send_step.accepted) (simp_all add: cs_send_def cs_send_new_def)
  with t5 have t6: "cs_send_trace [Accepted 1, Tau, Driven 1 (Inl ?e), Tau, Refused ?e, Accepted 2] (?q\<lparr>cs_queue := [2]\<rparr>)"
    using cs_send_trace.step by fastforce
  from cancel_safe_send [OF t6] t6 show ?thesis by auto
qed


section \<open>The receiving wrapper\<close>

text \<open>The two directions of \<open>transpose\<close>.\<close>

fun transpose_result :: "'p option result \<Rightarrow> 'p result option" where
  "transpose_result (Inr None) = None"
| "transpose_result (Inr (Some p)) = Some (Inr p)"
| "transpose_result (Inl e) = Some (Inl e)"

fun transpose_option :: "'p result option \<Rightarrow> 'p option result" where
  "transpose_option None = Inr None"
| "transpose_option (Some (Inr p)) = Inr (Some p)"
| "transpose_option (Some (Inl e)) = Inl e"

lemma transpose_option_result [simp]: "transpose_option (transpose_result r) = r"
  by (cases r rule: transpose_result.cases) simp_all

lemma transpose_result_option [simp]: "transpose_result (transpose_option r) = r"
  by (cases r rule: transpose_option.cases) simp_all

datatype 'p recv_task = InRecv | HandOver "'p result" | RecvOver

record 'p cs_receiver =
  cr_queue :: "'p result list"
  cr_task :: "'p recv_task"
  cr_dropped :: bool

definition cs_recv_new :: "'p cs_receiver" where
  "cs_recv_new = \<lparr>cr_queue = [], cr_task = InRecv, cr_dropped = False\<rparr>"

text \<open>\<open>Receiver::recv\<close>: what waits in the queue, the end once the task is over; \<open>None\<close> is a call that waits.\<close>

definition cs_recv :: "'p cs_receiver \<Rightarrow> ('p option result \<times> 'p cs_receiver) option" where
  "cs_recv s =
     (case cr_queue s of
        r # rs \<Rightarrow> Some (transpose_option (Some r), s\<lparr>cr_queue := rs\<rparr>)
      | [] \<Rightarrow> if cr_task s = RecvOver then Some (transpose_option None, s) else None)"

definition cs_recv_drop :: "'p cs_receiver \<Rightarrow> 'p cs_receiver" where
  "cs_recv_drop s = s\<lparr>cr_dropped := True, cr_queue := []\<rparr>"

definition cs_received :: "'p option result \<Rightarrow> 'p cs_receiver \<Rightarrow> 'p cs_receiver" where
  "cs_received res s =
     s\<lparr>cr_task := (case transpose_result res of
                     None \<Rightarrow> RecvOver
                   | Some (Inl e) \<Rightarrow> if panics e then RecvOver else HandOver (Inl e)
                   | Some (Inr p) \<Rightarrow> HandOver (Inr p))\<rparr>"

definition cs_hand :: "'p result \<Rightarrow> 'p cs_receiver \<Rightarrow> 'p cs_receiver option" where
  "cs_hand r s =
     (if cr_dropped s then Some (s\<lparr>cr_task := RecvOver\<rparr>)
      else if length (cr_queue s) < 1 then Some (s\<lparr>cr_queue := cr_queue s @ [r], cr_task := InRecv\<rparr>)
      else None)"

datatype 'p recv_event = Got "'p option result" | Gave "'p option result" | RecvTau

inductive cs_recv_step :: "'p cs_receiver \<Rightarrow> 'p recv_event \<Rightarrow> 'p cs_receiver \<Rightarrow> bool" where
  got: "\<not> cr_dropped s \<Longrightarrow> cs_recv s = Some (res, s') \<Longrightarrow> cs_recv_step s (Got res) s'"
| closed: "\<not> cr_dropped s \<Longrightarrow> cs_recv_step s RecvTau (cs_recv_drop s)"
| gave: "cr_task s = InRecv \<Longrightarrow> cs_recv_step s (Gave res) (cs_received res s)"
| hands: "cr_task s = HandOver r \<Longrightarrow> cs_hand r s = Some s' \<Longrightarrow> cs_recv_step s RecvTau s'"

inductive cs_recv_trace :: "'p recv_event list \<Rightarrow> 'p cs_receiver \<Rightarrow> bool" where
  start: "cs_recv_trace [] cs_recv_new"
| step: "cs_recv_trace es s \<Longrightarrow> cs_recv_step s e s' \<Longrightarrow> cs_recv_trace (es @ [e]) s'"

text \<open>The results that are no end and no panic, as the driver gave them and as the client got them.\<close>

fun recv_ends :: "'p option result \<Rightarrow> bool" where
  "recv_ends (Inr None) = True"
| "recv_ends (Inr (Some p)) = False"
| "recv_ends (Inl e) = panics e"

fun got_of :: "'p recv_event \<Rightarrow> 'p option result list" where
  "got_of (Got res) = (if res = Inr None then [] else [res])"
| "got_of e = []"

fun gave_of :: "'p recv_event \<Rightarrow> 'p option result list" where
  "gave_of (Gave res) = (if recv_ends res then [] else [res])"
| "gave_of e = []"

fun end_of :: "'p recv_event \<Rightarrow> bool" where
  "end_of (Gave res) = recv_ends res"
| "end_of e = False"

fun handed :: "'p recv_task \<Rightarrow> 'p result list" where
  "handed (HandOver r) = [r]"
| "handed t = []"

definition cs_waiting :: "'p cs_receiver \<Rightarrow> 'p option result list" where
  "cs_waiting s = map (transpose_option \<circ> Some) (cr_queue s @ handed (cr_task s))"

definition cs_recv_inv :: "'p recv_event list \<Rightarrow> 'p cs_receiver \<Rightarrow> bool" where
  "cs_recv_inv es s \<longleftrightarrow>
     (\<exists>rest. of_events gave_of es = of_events got_of es @ rest)
     \<and> (\<not> cr_dropped s \<longrightarrow> of_events gave_of es = of_events got_of es @ cs_waiting s
          \<and> (cr_task s = RecvOver \<longleftrightarrow> (\<exists>e \<in> set es. end_of e))
          \<and> (Got (Inr None) \<in> set es \<longrightarrow> cr_task s = RecvOver \<and> cr_queue s = []))"

lemma transpose_option_Some [simp]: "transpose_option (Some r) \<noteq> Inr None"
  by (cases r) simp_all

lemma cs_recv_inv_step:
  assumes "cs_recv_inv es s" "cs_recv_step s e s'"
  shows "cs_recv_inv (es @ [e]) s'"
  using assms(2)
proof (cases rule: cs_recv_step.cases)
  case (got res)
  with assms(1) show ?thesis
    by (auto simp: cs_recv_inv_def cs_recv_def cs_waiting_def split: list.splits if_splits)
next
  case closed
  with assms(1) show ?thesis by (auto simp: cs_recv_inv_def cs_recv_drop_def)
next
  case (gave res)
  with assms(1) show ?thesis
    by (cases res rule: recv_ends.cases) (auto simp: cs_recv_inv_def cs_received_def cs_waiting_def)
next
  case (hands r)
  with assms(1) show ?thesis
    by (auto simp: cs_recv_inv_def cs_hand_def cs_waiting_def split: if_splits)
qed

lemma cs_recv_trace_inv: "cs_recv_trace es s \<Longrightarrow> cs_recv_inv es s"
proof (induction rule: cs_recv_trace.induct)
  case start
  show ?case by (simp add: cs_recv_inv_def cs_recv_new_def cs_waiting_def)
next
  case (step es s e s')
  then show ?case using cs_recv_inv_step by blast
qed

lemma cs_recv_waits:
  assumes "cs_recv s = None"
  shows "cr_task s = InRecv \<or> (\<exists>r s'. cr_task s = HandOver r \<and> cs_hand r s = Some s')"
  using assms by (cases "cr_task s") (auto simp: cs_recv_def cs_hand_def split: list.splits)

text \<open>
  C35: The cancel-safe receiver passes on what its driver gave. Whatever the order in which task and
  client run and whichever calls are abandoned, the client gets the driver's packets and errors in
  order and each once; as long as it is there, what it has not got yet waits, at most one result in
  the queue and one in the task's hand. It is told the end only when everything was got and
  the driver reported the end or panicked: a panic of the driver looks like a clean end. A call
  waits only while the task is in the driver or can hand over.
\<close>

theorem cancel_safe_recv:
  assumes "cs_recv_trace es s"
  shows "(\<exists>rest. of_events gave_of es = of_events got_of es @ rest)
     \<and> (\<not> cr_dropped s \<longrightarrow> of_events gave_of es = of_events got_of es @ cs_waiting s)
     \<and> (\<not> cr_dropped s \<and> Got (Inr None) \<in> set es \<longrightarrow>
          of_events gave_of es = of_events got_of es \<and> (\<exists>e \<in> set es. end_of e))
     \<and> (\<not> cr_dropped s \<and> (\<exists>e \<in> set es. end_of e) \<and> cr_queue s = [] \<longrightarrow> cs_recv s = Some (Inr None, s))
     \<and> (cs_recv s = None \<longrightarrow> cr_task s = InRecv \<or> (\<exists>r s'. cr_task s = HandOver r \<and> cs_hand r s = Some s'))"
proof -
  note i = cs_recv_trace_inv [OF assms, unfolded cs_recv_inv_def]
  have "\<not> cr_dropped s \<and> Got (Inr None) \<in> set es \<longrightarrow> cs_waiting s = []"
    using i by (auto simp: cs_waiting_def)
  moreover have "cr_task s = RecvOver \<and> cr_queue s = [] \<longrightarrow> cs_recv s = Some (Inr None, s)"
    by (simp add: cs_recv_def)
  ultimately show ?thesis using i cs_recv_waits by (metis append_Nil2)
qed

theorem cancel_safe_recv_witness:
  "\<exists>s. cs_recv_trace [Gave (Inr (Some (7 :: nat))), RecvTau, Gave (Inl (Panic ''driver'')), Got (Inr (Some 7)), Got (Inr None)] s
     \<and> \<not> cr_dropped s"
proof -
  let ?s = "\<lambda>q t. \<lparr>cr_queue = q, cr_task = t, cr_dropped = False\<rparr> :: nat cs_receiver"
  have t0: "cs_recv_trace [] (?s [] InRecv)" using cs_recv_trace.start by (simp add: cs_recv_new_def)
  have "cs_recv_step (?s [] InRecv) (Gave (Inr (Some 7))) (?s [] (HandOver (Inr 7)))"
    using cs_recv_step.gave [of "?s [] InRecv" "Inr (Some 7)"] by (simp add: cs_received_def)
  note t1 = cs_recv_trace.step [OF t0 this]
  have "cs_recv_step (?s [] (HandOver (Inr 7))) RecvTau (?s [Inr 7] InRecv)"
    by (rule cs_recv_step.hands) (simp_all add: cs_hand_def)
  note t2 = cs_recv_trace.step [OF t1 this]
  have "cs_recv_step (?s [Inr 7] InRecv) (Gave (Inl (Panic ''driver''))) (?s [Inr 7] RecvOver)"
    using cs_recv_step.gave [of "?s [Inr 7] InRecv" "Inl (Panic ''driver'')"] by (simp add: cs_received_def)
  note t3 = cs_recv_trace.step [OF t2 this]
  have "cs_recv_step (?s [Inr 7] RecvOver) (Got (Inr (Some 7))) (?s [] RecvOver)"
    by (rule cs_recv_step.got) (simp_all add: cs_recv_def)
  note t4 = cs_recv_trace.step [OF t3 this]
  have "cs_recv_step (?s [] RecvOver) (Got (Inr None)) (?s [] RecvOver)"
    by (rule cs_recv_step.got) (simp_all add: cs_recv_def)
  note t5 = cs_recv_trace.step [OF t4 this]
  from cancel_safe_recv [OF t5] t5 show ?thesis by auto
qed

end
