(* ===== verification/Spec2Isabelle.thy ===== *)
theory Spec2Isabelle
  imports Prelude Seq Serial Packets Fec Reference_Codec Receiver VideoFec VideoFec_Inv VideoFec_Props
    VideoFec_Order VideoFec_Live VideoFec_Budget Channel VideoFec_Send VideoFec_Content Sending VideoFec_End GopStream GopStream_Props Segments Segments_Props VideoUnreliable Logged VideoUnreliable_Props VideoUnreliable_End Audio AudioFec Audio_Contract Audio_Props Audio_Session Audio_End AudioFec_Inv AudioFec_Props AudioFec_End Router Reliable Control ClockSync CancelSafe
begin

text \<open>
  A verification library for the streaming stack in \<open>src/\<close>: the packet types of \<open>kymux-types\<close>, and
  \<open>kyproto\<close>, which carries them over a QUIC-like connection. The code is translated into pure functions
  on explicit states; this header says which theory models what and what the theorems show.

  \<^bold>\<open>The program.\<close> A connection has a control stream (\<open>control.rs\<close>), on which two peers announce
  endpoints and meet, and a router (\<open>router.rs\<close>), which gives incoming streams and datagrams to the
  channel of the endpoint they name. Over a channel a sender driver and a receiver driver speak one of
  several protocols: reliable streams, one stream per group of pictures, datagrams, or datagrams
  with forward error correction (FEC). The unreliable receivers consist of two reader tasks, which
  parse the stream and the datagrams, and a loop that orders, completes and forwards packets.

  \<^bold>\<open>Conventions.\<close> Rust integers are words of their width where wrap-around can matter; counters \<open>+= 1\<close> wrap, as
  in a release build. The statistics, \<open>u64\<close> counters of packets and symbols, are natural numbers.
  A result is \<open>fault + 'a\<close>; a panic is the fault \<open>Panic\<close>, so that the absence of panics is a theorem. Time is
  explicit: an instant is a number of microseconds, and a step gets the clock readings it
  makes as a function. Readers and writers are byte lists with the error at their end (\<open>Prelude\<close>). Log output is
  left out. What is not in \<open>src/\<close> is a parameter with named hypotheses: the RaptorQ codec is the
  record \<open>raptorq\<close>, and \<open>partition_ok\<close>, \<open>decoder_ok\<close>, \<open>codec_faithful\<close>, \<open>encoder_ok\<close> and \<open>wire_ok\<close> state
  the parts of RFC 6330 that the drivers rely on (theory \<open>Reference_Codec\<close> gives an instance that the
  witnesses use); the MessagePack codec of control messages is a pair of functions with \<open>msg_codec_ok\<close>.

  \<^bold>\<open>Foundations.\<close>
  \<^item> \<open>Prelude\<close>: results, vectors with binary search, big-endian numbers, byte streams.
  \<^item> \<open>Seq\<close> (\<open>driver/util/seq.rs\<close>): the sequencer. It recovers the sender's 64-bit numbers from 8, 16 or
    32 bits; what a single step does with any value.
  \<^item> \<open>Serial\<close>, \<open>Packets\<close> (\<open>serial.rs\<close>, \<open>av.rs\<close>, \<open>data.rs\<close>, \<open>input.rs\<close>, \<open>metrics.rs\<close>, \<open>ipc.rs\<close>, \<open>forward\<close>): the
    locale \<open>serializable\<close> and its four instances; round trips, forwarding, panics and errors of readers.
  \<^item> \<open>CancelSafe\<close> (\<open>kymux-types/src/lib.rs\<close>): both \<open>make_cancel_safe\<close> wrappers as step relations over
    bounded queues; nothing is lost, repeated or reordered, and client and task do not block each other.
  \<^item> \<open>Router\<close> (\<open>router.rs\<close>, \<open>task.rs\<close>), \<open>Control\<close> (\<open>control.rs\<close>), \<open>ClockSync\<close> (\<open>clock_sync.rs\<close>): invariants over
    all interleavings, the meeting of two peers, framing, and the accuracy of the clock offset. The
    outgoing queue of the control channel is an unbounded list.
  \<^item> \<open>Reliable\<close> (the four \<open>reliable.rs\<close>): sender, router and receiver composed.

  \<^bold>\<open>Video with FEC\<close> (\<open>fec.rs\<close>, \<open>source_first.rs\<close>, \<open>video_unreliable_fec.rs\<close>). \<open>Fec\<close> models the validation of
  untrusted parameters and the bounded decoder; \<open>VideoFec\<close> the receiver, \<open>VideoFec_Send\<close> the sender (over the
  channel of \<open>Channel\<close>). \<open>Receiver\<close> has the contracts of a receiver loop as locales: \<open>receiver\<close> (an
  invariant and no panic), \<open>emitting_receiver\<close> (a property of what is forwarded) and \<open>ordered_receiver\<close>
  (ascending numbers). \<open>VideoFec_Inv\<close> and \<open>VideoFec_Props\<close> show safety against arbitrary bytes, \<open>VideoFec_Order\<close> the
  order, \<open>VideoFec_Live\<close> progress, \<open>VideoFec_Budget\<close> admission and the conservation of symbol statistics,
  \<open>VideoFec_Content\<close>, \<open>Sending\<close> and \<open>VideoFec_End\<close> that what is forwarded is a subsequence of what was sent.

  \<^bold>\<open>Video without FEC\<close> (\<open>video_unreliable.rs\<close>): \<open>Segments\<close> and \<open>Segments_Props\<close> (cutting and reassembly),
  \<open>VideoUnreliable\<close>, \<open>Logged\<close> (runs with a history), \<open>VideoUnreliable_Props\<close>, \<open>VideoUnreliable_End\<close>.

  \<^bold>\<open>Stream per group of pictures\<close> (\<open>video_gopstream.rs\<close>): \<open>GopStream\<close> and \<open>GopStream_Props\<close>, for producers
  that send a key frame first after a new codec or config (\<open>keyed\<close>); the sender does not enforce it.

  \<^bold>\<open>Audio\<close> (\<open>audio_unreliable.rs\<close>, \<open>audio_unreliable_fec.rs\<close>): \<open>Audio\<close> and \<open>AudioFec\<close> model the drivers, \<open>Audio_Contract\<close>
  and \<open>Audio_Session\<close> what both promise (order, holes) and under which sessions: a codec, then the only
  config, frame sizes above zero. The driver without FEC panics outside such sessions. \<open>Audio_Props\<close>, \<open>Audio_End\<close>,
  \<open>AudioFec_Inv\<close>, \<open>AudioFec_Props\<close> and \<open>AudioFec_End\<close> prove it for the two drivers.

  \<^bold>\<open>Bounds.\<close> The end-to-end theorems are about fewer than \<open>2 ^ 31\<close> packets (\<open>2 ^ 32 - 1\<close> for streams per group),
  below the wrap of the 32-bit numbers on the wire. Nothing uses fuel: loops are structural or have a
  measure, and the two that may not end (\<open>forward\<close>, \<open>sync_average_loop\<close>) are partial functions for which
  returning is proved. A receiver loop is run on a list of events of any length. The limits in
  statements (128 objects, 256 MiB, 50 ms, 10 ms, ...) are the constants of the code.

  \<^bold>\<open>Not modelled.\<close> \<open>kynet\<close> binds transport libraries that are not in \<open>src/\<close>; \<open>kycom\<close> is local sockets and
  processes around \<open>forward\<close>. Of \<open>kyproto\<close>: the set-up of a connection and its authentication (\<open>lib.rs\<close>, \<open>auth.rs\<close>),
  the register and connect functions and endpoint drivers (which call \<open>Control\<close> and \<open>Router\<close> in turn), the choice of a
  driver (\<open>protocol/mod.rs\<close>), reading the clock (\<open>clock.rs\<close>), and the timing measurements of the sender. Of
  \<open>kymux-types\<close>: \<open>forward_bi\<close> and the boxing of drivers. \<open>kymux-util\<close> has platform aliases and a
  hexadecimal decoder.
\<close>

end
